(* ===== verification/Stdlib.thy ===== *)
theory Stdlib
  imports Prelude
begin

text \<open>
  The two containers of the Rust standard library that the components keep state in:
  \<open>BTreeMap\<close>, as an association list in strictly increasing key order, and
  \<open>File\<close>, as its byte content with positioned reads and writes. The contract of the
  ordered map is the locale \<open>ordered_map\<close>; the clients use it through the
  interpretation \<open>bt\<close>.
\<close>

section \<open>Ordered maps\<close>

type_synonym ('k, 'v) btree = "('k \<times> 'v) list"

fun bt_insert :: "'k::linorder \<Rightarrow> 'v \<Rightarrow> ('k, 'v) btree \<Rightarrow> ('k, 'v) btree" where
  "bt_insert k v [] = [(k, v)]"
| "bt_insert k v ((k', v') # m) =
     (if k < k' then (k, v) # (k', v') # m
      else if k = k' then (k, v) # m
      else (k', v') # bt_insert k v m)"

fun bt_remove :: "'k \<Rightarrow> ('k, 'v) btree \<Rightarrow> ('k, 'v) btree" where
  "bt_remove k [] = []"
| "bt_remove k ((k', v') # m) = (if k = k' then m else (k', v') # bt_remove k m)"

definition bt_inv :: "('k::linorder, 'v) btree \<Rightarrow> bool" where
  "bt_inv m \<longleftrightarrow> sorted_wrt (<) (map fst m)"

definition bt_last_le :: "'k::linorder \<Rightarrow> ('k, 'v) btree \<Rightarrow> ('k \<times> 'v) option" where
  "bt_last_le a m =
     (let below = filter (\<lambda>(k, v). k \<le> a) m
      in if below = [] then None else Some (last below))"

locale ordered_map =
  fixes empty :: 'm
    and ins :: "'k::linorder \<Rightarrow> 'v \<Rightarrow> 'm \<Rightarrow> 'm"
    and del :: "'k \<Rightarrow> 'm \<Rightarrow> 'm"
    and get :: "'m \<Rightarrow> 'k \<Rightarrow> 'v option"
    and entries :: "'m \<Rightarrow> ('k \<times> 'v) list"
    and inv :: "'m \<Rightarrow> bool"
  assumes inv_empty: "inv empty"
    and inv_ins: "inv m \<Longrightarrow> inv (ins k v m)"
    and inv_del: "inv m \<Longrightarrow> inv (del k m)"
    and get_empty: "get empty = Map.empty"
    and get_ins: "inv m \<Longrightarrow> get (ins k v m) = (get m)(k \<mapsto> v)"
    and get_del: "inv m \<Longrightarrow> get (del k m) = (get m)(k := None)"
    and get_entries: "inv m \<Longrightarrow> get m = map_of (entries m)"
    and entries_sorted: "inv m \<Longrightarrow> sorted_wrt (<) (map fst (entries m))"
begin

lemma entries_distinct: "inv m \<Longrightarrow> distinct (map fst (entries m))"
  using entries_sorted strict_sorted_iff by blast

lemma entries_iff: "inv m \<Longrightarrow> (k, v) \<in> set (entries m) \<longleftrightarrow> get m k = Some v"
  by (simp add: get_entries entries_distinct)

lemma inv_fold_del: "inv m \<Longrightarrow> inv (fold del ks m)"
  by (induction ks arbitrary: m) (simp_all add: inv_del)

lemma get_fold_del:
  "inv m \<Longrightarrow> get (fold del ks m) k = (if k \<in> set ks then None else get m k)"
  by (induction ks arbitrary: m) (simp_all add: inv_del get_del)

text \<open>The largest key not above a bound, as \<open>range(..=a).next_back()\<close> finds it.\<close>

lemma last_le_Some:
  assumes "inv m" and "filter (\<lambda>(k, v). k \<le> a) (entries m) = xs @ [(k, v)]"
  shows "get m k = Some v \<and> k \<le> a \<and> (\<forall>k' v'. get m k' = Some v' \<longrightarrow> k' \<le> a \<longrightarrow> k' \<le> k)"
proof -
  let ?f = "filter (\<lambda>(k, v). k \<le> a) (entries m)"
  have "(k, v) \<in> set ?f" using assms(2) by simp
  then have in_m: "(k, v) \<in> set (entries m)" and le: "k \<le> a" by auto
  have "sorted_wrt (\<lambda>x y. fst x < fst y) (entries m)"
    using entries_sorted [OF assms(1)] by (simp add: sorted_wrt_map)
  then have "sorted_wrt (\<lambda>x y. fst x < fst y) ?f"
    by (rule sorted_wrt_filter)
  then have below: "\<forall>x \<in> set xs. fst x < k"
    using assms(2) by (simp add: sorted_wrt_append)
  have "k' \<le> k" if g: "get m k' = Some v'" and "k' \<le> a" for k' v'
  proof -
    have "(k', v') \<in> set (entries m)" using g assms(1) entries_iff by blast
    with \<open>k' \<le> a\<close> have "(k', v') \<in> set ?f" by simp
    then have "(k', v') \<in> set (xs @ [(k, v)])" using assms(2) by simp
    then show ?thesis using below by auto
  qed
  then show ?thesis using in_m le assms(1) entries_iff by blast
qed

end

lemma bt_insert_keys: "fst ` set (bt_insert k v m) = insert k (fst ` set m)"
  by (induction k v m rule: bt_insert.induct) auto

lemma bt_remove_subset: "set (bt_remove k m) \<subseteq> set m"
  by (induction k m rule: bt_remove.induct) auto

lemma bt_inv_Cons: "bt_inv (x # m) \<longleftrightarrow> (\<forall>y \<in> set m. fst x < fst y) \<and> bt_inv m"
  by (auto simp: bt_inv_def)

lemma bt_inv_insert: "bt_inv m \<Longrightarrow> bt_inv (bt_insert k v m)"
proof (induction k v m rule: bt_insert.induct)
  case (1 k v)
  then show ?case by (simp add: bt_inv_def)
next
  case (2 k v k' v' m)
  show ?case
  proof (cases "k' < k")
    case True
    have "\<forall>y \<in> set (bt_insert k v m). k' < fst y"
    proof
      fix y assume "y \<in> set (bt_insert k v m)"
      then have "fst y \<in> insert k (fst ` set m)"
        using bt_insert_keys [of k v m] by (metis imageI)
      then show "k' < fst y" using 2(2) True by (auto simp: bt_inv_Cons)
    qed
    with 2 True show ?thesis by (auto simp: bt_inv_Cons)
  next
    case False
    with 2(2) show ?thesis by (auto simp: bt_inv_Cons)
  qed
qed

lemma bt_inv_remove: "bt_inv m \<Longrightarrow> bt_inv (bt_remove k m)"
proof (induction k m rule: bt_remove.induct)
  case (2 k k' v' m)
  then show ?case using bt_remove_subset [of k m] by (auto simp: bt_inv_Cons)
qed (simp add: bt_inv_def)

lemma bt_get_insert: "bt_inv m \<Longrightarrow> map_of (bt_insert k v m) = (map_of m)(k \<mapsto> v)"
  by (induction k v m rule: bt_insert.induct) (auto simp: bt_inv_Cons fun_eq_iff)

lemma bt_notin_keys: "bt_inv ((k, v) # m) \<Longrightarrow> map_of m k = None"
  by (auto simp: bt_inv_Cons map_of_eq_None_iff)

lemma bt_get_remove: "bt_inv m \<Longrightarrow> map_of (bt_remove k m) = (map_of m)(k := None)"
proof (induction k m rule: bt_remove.induct)
  case (2 k k' v' m)
  have "map_of m k' = None" using 2(2) by (rule bt_notin_keys)
  with 2 show ?case by (auto simp: bt_inv_Cons fun_eq_iff)
qed simp

interpretation bt: ordered_map "[]" bt_insert bt_remove map_of "\<lambda>m. m" bt_inv
  by unfold_locales
    (simp_all add: bt_inv_insert bt_inv_remove bt_get_insert bt_get_remove,
     simp_all add: bt_inv_def)

lemma bt_last_le_None:
  "bt_last_le a m = None \<Longrightarrow> (k, v) \<in> set m \<Longrightarrow> a < k"
  by (auto simp: bt_last_le_def Let_def filter_empty_conv split: if_splits)

lemma bt_last_le_Some:
  assumes "bt_inv m" and "bt_last_le a m = Some (k, v)"
  shows "map_of m k = Some v \<and> k \<le> a \<and>
    (\<forall>k' v'. map_of m k' = Some v' \<longrightarrow> k' \<le> a \<longrightarrow> k' \<le> k)"
proof -
  let ?f = "filter (\<lambda>(k, v). k \<le> a) m"
  have "?f \<noteq> []" and "last ?f = (k, v)"
    using assms(2) by (auto simp: bt_last_le_def Let_def split: if_splits)
  then have "?f = butlast ?f @ [(k, v)]"
    by (metis append_butlast_last_id)
  then show ?thesis by (rule bt.last_le_Some [OF assms(1)])
qed

section \<open>Files\<close>

text \<open>
  A file is its content. \<open>read_exact_at\<close> fails at the end of the file (the source's
  \<open>read_exact\<close> returns UnexpectedEof); \<open>write_all_at\<close> extends the file, filling a
  gap with zeros, as POSIX does after a seek past the end. Faults of the device below
  (EIO, ENOSPC) are outside the model.
\<close>

datatype io_error = UnexpectedEof | InvalidInput

type_synonym hfile = "byte list"

definition read_exact_at :: "hfile \<Rightarrow> u64 \<Rightarrow> usize \<Rightarrow> io_error + byte list" where
  "read_exact_at f off n =
     (if off + n \<le> length f \<or> n = 0 then Inr (take n (drop off f)) else Inl UnexpectedEof)"

definition write_all_at :: "hfile \<Rightarrow> u64 \<Rightarrow> byte list \<Rightarrow> hfile" where
  "write_all_at f off d =
     (if d = [] then f
      else take off f @ replicate (off - length f) 0 @ d @ drop (off + length d) f)"

definition set_len :: "hfile \<Rightarrow> u64 \<Rightarrow> hfile" where
  "set_len f n = take n f @ replicate (n - length f) 0"

lemma length_write_all_at:
  "length (write_all_at f off d) = (if d = [] then length f else max (length f) (off + length d))"
  by (auto simp: write_all_at_def max_def min_def)

lemma nth_write_all_at:
  assumes "i < length (write_all_at f off d)"
  shows "write_all_at f off d ! i =
    (if off \<le> i \<and> i < off + length d then d ! (i - off)
     else if i < length f then f ! i else 0)"
proof (cases "d = []")
  case True
  with assms show ?thesis by (auto simp: write_all_at_def)
next
  case False
  have len: "i < max (length f) (off + length d)"
    using assms False by (simp add: length_write_all_at)
  consider (lo) "i < off" "i < length f" | (gap) "i < off" "length f \<le> i"
    | (data) "off \<le> i" "i < off + length d" | (hi) "off + length d \<le> i" by linarith
  then show ?thesis
  proof cases
    case lo
    with False show ?thesis by (simp add: write_all_at_def nth_append)
  next
    case gap
    then have "i - length f < off - length f" by linarith
    with gap False show ?thesis by (simp add: write_all_at_def nth_append)
  next
    case data
    with False show ?thesis
      by (cases "length f \<le> off") (auto simp: write_all_at_def nth_append min_def)
  next
    case hi
    with len have "i < length f" by simp
    with hi False show ?thesis by (auto simp: write_all_at_def nth_append min_def)
  qed
qed

lemma length_set_len [simp]: "length (set_len f n) = n"
  by (simp add: set_len_def min_def)

lemma nth_set_len: "i < n \<Longrightarrow> set_len f n ! i = (if i < length f then f ! i else 0)"
  by (auto simp: set_len_def nth_append min_def)

lemma read_exact_at_Ok:
  "off + n \<le> length f \<Longrightarrow> read_exact_at f off n = Inr (take n (drop off f))"
  by (simp add: read_exact_at_def)

lemma read_exact_at_length:
  "read_exact_at f off n = Inr bs \<Longrightarrow> length bs = n"
  by (auto simp: read_exact_at_def split: if_splits)

lemma read_after_write:
  "read_exact_at (write_all_at f off d) off (length d) = Inr d"
proof (cases "d = []")
  case True
  then show ?thesis by (simp add: read_exact_at_def)
next
  case False
  then have len: "off + length d \<le> length (write_all_at f off d)"
    by (simp add: length_write_all_at)
  have "take (length d) (drop off (write_all_at f off d)) = d"
  proof (rule nth_equalityI)
    show "length (take (length d) (drop off (write_all_at f off d))) = length d"
      using len by simp
  next
    fix i assume "i < length (take (length d) (drop off (write_all_at f off d)))"
    then have i: "i < length d" by simp
    then have "off + i < length (write_all_at f off d)" using len by simp
    with i show "take (length d) (drop off (write_all_at f off d)) ! i = d ! i"
      using len by (simp add: nth_write_all_at)
  qed
  then show ?thesis using len by (simp add: read_exact_at_def)
qed

section \<open>Printing\<close>

text \<open>Decimal notation of unsigned integers, as in the source's \<open>format!\<close> messages.\<close>

definition digit :: "nat \<Rightarrow> char" where
  "digit d = ''0123456789abcdef'' ! d"

function show_nat :: "nat \<Rightarrow> string" where
  "show_nat n = (if n < 10 then [digit n] else show_nat (n div 10) @ [digit (n mod 10)])"
  by pat_completeness auto

termination show_nat
  by (relation "measure id") auto

declare show_nat.simps [simp del]

end
