(* ===== verification/FileRanges.thy ===== *)
theory FileRanges
  imports Stdlib
begin

text \<open>
  The memory backend's record of which packed RAM runs are private mappings of which file
  (\<open>FileRanges\<close> in \<open>vmm-memory-backend/src/backend.rs\<close>): an ordered map from
  run starts to runs, and the files kept open for them. The abstract view of the map is
  the partial function \<open>backing\<close> from RAM offsets to file bytes; \<open>forget\<close> and
  \<open>record\<close> are shown to implement domain restriction and override on it.
\<close>

datatype file_id = FileId nat nat \<comment> \<open>device and inode\<close>

record run = \<comment> \<open>the tuple (length, file, file offset) of the map\<close>
  run_len :: u64
  run_file :: file_id
  run_off :: u64

type_synonym runs = "(u64, run) btree"

record file_ranges =
  fr_runs :: runs
  fr_files :: "file_id list"

definition empty_ranges :: file_ranges where
  "empty_ranges = \<lparr>fr_runs = [], fr_files = []\<rparr>"

section \<open>Operations\<close>

text \<open>
  The loop body of \<open>forget\<close>: take the run out and put back the parts left and right
  of the range. \<open>None\<close> is the panic of \<open>expect("listed run")\<close>.
\<close>

definition forget_run :: "u64 \<Rightarrow> u64 \<Rightarrow> u64 \<Rightarrow> runs \<Rightarrow> runs option" where
  "forget_run start fin run_start runs =
     (case map_of runs run_start of
        None \<Rightarrow> None
      | Some r \<Rightarrow>
          let runs1 = bt_remove run_start runs;
              run_end = wrapping_add 64 run_start (run_len r);
              runs2 = (if run_start < start
                       then bt_insert run_start (r\<lparr>run_len := start - run_start\<rparr>) runs1
                       else runs1)
          in Some (if fin < run_end
                   then bt_insert fin
                     (r\<lparr>run_len := run_end - fin,
                        run_off := wrapping_add 64 (run_off r) (fin - run_start)\<rparr>) runs2
                   else runs2))"

primrec forget_runs :: "u64 \<Rightarrow> u64 \<Rightarrow> u64 list \<Rightarrow> runs \<Rightarrow> runs option" where
  "forget_runs start fin [] runs = Some runs"
| "forget_runs start fin (k # ks) runs =
     (case forget_run start fin k runs of
        None \<Rightarrow> None
      | Some runs' \<Rightarrow> forget_runs start fin ks runs')"

definition overlapping :: "u64 \<Rightarrow> u64 \<Rightarrow> runs \<Rightarrow> u64 list" where
  "overlapping start fin runs =
     map fst (filter (\<lambda>(run_start, r).
       run_start < fin \<and> start < wrapping_add 64 run_start (run_len r)) runs)"

text \<open>
  A handle survives \<open>forget\<close> while something else holds it (\<open>Arc::strong_count\<close>
  above one): a run, or a clone outside the map, \<open>held\<close>.
\<close>

definition forget :: "file_id list \<Rightarrow> u64 \<Rightarrow> u64 \<Rightarrow> file_ranges \<Rightarrow> file_ranges option" where
  "forget held start len fr =
     (let fin = wrapping_add 64 start len in
      case forget_runs start fin (overlapping start fin (fr_runs fr)) (fr_runs fr) of
        None \<Rightarrow> None
      | Some runs \<Rightarrow>
          Some \<lparr>fr_runs = runs,
                fr_files = filter (\<lambda>f. f \<in> set held \<or> (\<exists>(k, r) \<in> set runs. run_file r = f))
                             (fr_files fr)\<rparr>)"

text \<open>
  \<open>metadata\<close> and \<open>try_clone\<close> can fail; the caller passes their outcome. The new
  handle is held by the local variable \<open>shared\<close> while \<open>forget\<close> runs.
\<close>

definition record_range ::
  "file_id list \<Rightarrow> file_id option \<Rightarrow> bool \<Rightarrow> u64 \<Rightarrow> u64 \<Rightarrow> u64 \<Rightarrow> file_ranges \<Rightarrow>
   (io_error + file_ranges) option" where
  "record_range held metadata clone_ok start len file_offset fr =
     (case metadata of
        None \<Rightarrow> Some (Inl InvalidInput)
      | Some f \<Rightarrow>
          if f \<notin> set (fr_files fr) \<and> \<not> clone_ok then Some (Inl InvalidInput)
          else
            let files = (if f \<in> set (fr_files fr) then fr_files fr else fr_files fr @ [f]);
                fresh = \<lparr>run_len = len, run_file = f, run_off = file_offset\<rparr>
            in map_option (\<lambda>fr'. Inr (fr'\<lparr>fr_runs := bt_insert start fresh (fr_runs fr')\<rparr>))
                 (forget (f # held) start len (fr\<lparr>fr_files := files\<rparr>)))"

section \<open>The abstract view\<close>

definition in_run :: "u64 \<Rightarrow> u64 \<Rightarrow> run \<Rightarrow> bool" where
  "in_run i s r \<longleftrightarrow> s \<le> i \<and> i < s + run_len r"

definition backing :: "runs \<Rightarrow> u64 \<Rightarrow> (file_id \<times> u64) option" where
  "backing runs i =
     map_option (\<lambda>(s, r). (run_file r, run_off r + (i - s))) (find (\<lambda>(s, r). in_run i s r) runs)"

definition runs_inv :: "runs \<Rightarrow> bool" where
  "runs_inv runs \<longleftrightarrow> bt_inv runs \<and>
     (\<forall>(s, r) \<in> set runs. 0 < run_len r \<and> s + run_len r < 2 ^ 64 \<and>
        run_off r + run_len r < 2 ^ 64 \<and>
        (\<forall>(s', r') \<in> set runs. s < s' \<longrightarrow> s + run_len r \<le> s'))"

text \<open>The same two notions over the map, where updates are function updates.\<close>

definition rinv :: "(u64 \<rightharpoonup> run) \<Rightarrow> bool" where
  "rinv R \<longleftrightarrow> (\<forall>s r. R s = Some r \<longrightarrow> 0 < run_len r \<and> s + run_len r < 2 ^ 64 \<and>
     run_off r + run_len r < 2 ^ 64 \<and>
     (\<forall>s' r'. R s' = Some r' \<longrightarrow> s < s' \<longrightarrow> s + run_len r \<le> s'))"

definition covers :: "(u64 \<rightharpoonup> run) \<Rightarrow> u64 \<Rightarrow> file_id \<times> u64 \<Rightarrow> bool" where
  "covers R i v \<longleftrightarrow>
     (\<exists>s r. R s = Some r \<and> in_run i s r \<and> v = (run_file r, run_off r + (i - s)))"

lemma coversI:
  "R s = Some r \<Longrightarrow> in_run i s r \<Longrightarrow> v = (run_file r, run_off r + (i - s)) \<Longrightarrow> covers R i v"
  unfolding covers_def by blast

lemma rinvD:
  assumes "rinv R" and "R s = Some r"
  shows "0 < run_len r" "s + run_len r < 2 ^ 64" "run_off r + run_len r < 2 ^ 64"
    "\<And>s' r'. R s' = Some r' \<Longrightarrow> s < s' \<Longrightarrow> s + run_len r \<le> s'"
  using assms unfolding rinv_def by blast+

lemma runs_inv_iff: "runs_inv runs \<longleftrightarrow> bt_inv runs \<and> rinv (map_of runs)"
proof (cases "bt_inv runs")
  case True
  then have "map_of runs s = Some r \<longleftrightarrow> (s, r) \<in> set runs" for s r
    by (simp add: bt.entries_iff)
  then show ?thesis unfolding runs_inv_def rinv_def by (simp only: Ball_def split_paired_All prod.case)
next
  case False
  then show ?thesis by (simp add: runs_inv_def)
qed

lemma covers_unique:
  assumes inv: "rinv R" and "covers R i v" and "covers R i w"
  shows "v = w"
proof -
  obtain s r where 1: "R s = Some r" "in_run i s r" "v = (run_file r, run_off r + (i - s))"
    using assms(2) unfolding covers_def by blast
  obtain s' r' where 2: "R s' = Some r'" "in_run i s' r'"
      "w = (run_file r', run_off r' + (i - s'))"
    using assms(3) unfolding covers_def by blast
  have "\<not> s < s'" using rinvD(4) [OF inv 1(1) 2(1)] 1(2) 2(2) by (auto simp: in_run_def)
  moreover have "\<not> s' < s" using rinvD(4) [OF inv 2(1) 1(1)] 1(2) 2(2) by (auto simp: in_run_def)
  ultimately show ?thesis using 1 2 by simp
qed

lemma backing_covers:
  assumes "runs_inv runs"
  shows "backing runs i = Some v \<longleftrightarrow> covers (map_of runs) i v"
proof -
  have bt: "bt_inv runs" and inv: "rinv (map_of runs)"
    using assms by (auto simp: runs_inv_iff)
  have get: "map_of runs s = Some r \<longleftrightarrow> (s, r) \<in> set runs" for s r
    using bt by (simp add: bt.entries_iff)
  show ?thesis
  proof (cases "find (\<lambda>(s, r). in_run i s r) runs")
    case None
    then have "\<not> covers (map_of runs) i v"
      by (auto simp: find_None_iff covers_def get)
    with None show ?thesis by (simp add: backing_def)
  next
    case (Some p)
    obtain s r where p: "p = (s, r)" by (cases p)
    have "(s, r) \<in> set runs" "in_run i s r"
      using Some p by (auto simp: find_Some_iff set_conv_nth)
    then have c: "covers (map_of runs) i (run_file r, run_off r + (i - s))"
      unfolding covers_def using get by blast
    have "covers (map_of runs) i v \<longleftrightarrow> v = (run_file r, run_off r + (i - s))"
      using covers_unique [OF inv c, of v] c by blast
    then show ?thesis using Some p by (auto simp: backing_def)
  qed
qed


section \<open>Updates of the abstract view\<close>

lemma rinv_delete: "rinv R \<Longrightarrow> rinv (R(k := None))"
  unfolding rinv_def by auto

lemma rinv_insert:
  assumes "rinv R" and "0 < run_len n" and "s + run_len n < 2 ^ 64"
    and "run_off n + run_len n < 2 ^ 64"
    and apart: "\<And>s' r'. R s' = Some r' \<Longrightarrow> s' \<noteq> s \<Longrightarrow> s' + run_len r' \<le> s \<or> s + run_len n \<le> s'"
  shows "rinv (R(s \<mapsto> n))"
  unfolding rinv_def
proof (intro allI impI)
  fix t r assume t: "(R(s \<mapsto> n)) t = Some r"
  have "t + run_len r \<le> t'" if t': "(R(s \<mapsto> n)) t' = Some r'" and "t < t'" for t' r'
  proof (cases "t = s"; cases "t' = s")
    assume "t = s" "t' = s" with \<open>t < t'\<close> show ?thesis by simp
  next
    assume "t = s" "t' \<noteq> s"
    with t t' \<open>t < t'\<close> show ?thesis using apart [of t' r'] by auto
  next
    assume "t \<noteq> s" "t' = s"
    with t \<open>t < t'\<close> show ?thesis using apart [of t r] assms(2) by auto
  next
    assume "t \<noteq> s" "t' \<noteq> s"
    with t t' \<open>t < t'\<close> show ?thesis using rinvD(4) [OF assms(1), of t r t' r'] by simp
  qed
  moreover have "0 < run_len r" "t + run_len r < 2 ^ 64" "run_off r + run_len r < 2 ^ 64"
    using t assms(2-4) rinvD(1-3) [OF assms(1), of t r] by (auto split: if_splits)
  ultimately show "0 < run_len r \<and> t + run_len r < 2 ^ 64 \<and> run_off r + run_len r < 2 ^ 64 \<and>
      (\<forall>s' r'. (R(s \<mapsto> n)) s' = Some r' \<longrightarrow> t < s' \<longrightarrow> t + run_len r \<le> s')"
    by blast
qed

lemma covers_insert:
  "R s = None \<Longrightarrow> covers (R(s \<mapsto> n)) i v \<longleftrightarrow>
     covers R i v \<or> in_run i s n \<and> v = (run_file n, run_off n + (i - s))"
proof -
  assume "R s = None"
  then have eq: "(R(s \<mapsto> n)) t = Some r \<longleftrightarrow> t = s \<and> r = n \<or> R t = Some r" for t r
    by auto
  show ?thesis by (simp only: covers_def eq) blast
qed

lemma covers_delete:
  assumes "rinv R" and k: "R k = Some r"
  shows "covers (R(k := None)) i v \<longleftrightarrow> covers R i v \<and> \<not> in_run i k r"
proof
  assume c: "covers (R(k := None)) i v"
  then obtain s q where q: "R s = Some q" "s \<noteq> k" "in_run i s q"
    unfolding covers_def by (auto split: if_splits)
  have "s + run_len q \<le> k \<or> k + run_len r \<le> s"
    using rinvD(4) [OF assms(1) q(1) k] rinvD(4) [OF assms(1) k q(1)] q(2) by (meson neq_iff)
  then have "\<not> in_run i k r" using q(3) by (auto simp: in_run_def)
  moreover have "covers R i v" using c unfolding covers_def by (auto split: if_splits)
  ultimately show "covers R i v \<and> \<not> in_run i k r" by blast
next
  assume "covers R i v \<and> \<not> in_run i k r"
  then show "covers (R(k := None)) i v"
    unfolding covers_def using k by (metis fun_upd_other option.inject)
qed

text \<open>What is left of run \<open>r\<close> at \<open>k\<close> once \<open>start..fin\<close> is cut out of it.\<close>

definition left_part :: "u64 \<Rightarrow> u64 \<Rightarrow> run \<Rightarrow> run option" where
  "left_part start k r = (if k < start then Some (r\<lparr>run_len := start - k\<rparr>) else None)"

definition right_part :: "u64 \<Rightarrow> u64 \<Rightarrow> run \<Rightarrow> run" where
  "right_part fin k r = r\<lparr>run_len := k + run_len r - fin, run_off := run_off r + (fin - k)\<rparr>"

definition cut :: "u64 \<Rightarrow> u64 \<Rightarrow> u64 \<Rightarrow> run \<Rightarrow> (u64 \<rightharpoonup> run) \<Rightarrow> (u64 \<rightharpoonup> run)" where
  "cut start fin k r R =
     (let R1 = R(k := left_part start k r)
      in if fin < k + run_len r then R1(fin \<mapsto> right_part fin k r) else R1)"

lemma forget_run_cut:
  assumes "bt_inv runs" and "rinv (map_of runs)" and "map_of runs k = Some r" and "k < fin"
  obtains runs' where "forget_run start fin k runs = Some runs'" "bt_inv runs'"
    "map_of runs' = cut start fin k r (map_of runs)"
proof -
  note b = rinvD(2,3) [OF assms(2,3)]
  have e: "wrapping_add 64 k (run_len r) = k + run_len r" using b by (simp add: wrapping_add_id)
  have o: "wrapping_add 64 (run_off r) (fin - k) = run_off r + (fin - k)" if "fin < k + run_len r"
    using b that by (intro wrapping_add_id) linarith
  have ne: "k \<noteq> fin" using assms(4) by simp
  let ?x = "the (forget_run start fin k runs)"
  have x: "forget_run start fin k runs = Some ?x"
    using assms(3) by (simp add: forget_run_def Let_def)
  moreover have "bt_inv ?x"
    using assms(1,3) by (simp add: forget_run_def Let_def bt.inv_ins bt.inv_del)
  moreover have "map_of ?x = cut start fin k r (map_of runs)"
    using assms(1,3) o ne
    by (auto simp: forget_run_def Let_def cut_def left_part_def right_part_def e
        bt.inv_ins bt.inv_del bt.get_ins bt.get_del fun_eq_iff)
  ultimately show ?thesis using that by blast
qed

lemma cut_rinv:
  assumes inv: "rinv R" and k: "R k = Some r" and "k < fin" "start < k + run_len r" "start < fin"
  shows "rinv (cut start fin k r R)"
proof -
  note b = rinvD [OF inv k]
  have above: "k + run_len r \<le> s'" if "R s' = Some r'" "k < s'" for s' r'
    using b(4) that by blast
  have below: "s' + run_len r' \<le> k" if "R s' = Some r'" "s' < k" for s' r'
    using rinvD(4) [OF inv that(1) k] that(2) by blast
  have R1: "rinv (R(k := left_part start k r))"
  proof (cases "k < start")
    case True
    have "rinv (R(k \<mapsto> r\<lparr>run_len := start - k\<rparr>))"
    proof (rule rinv_insert [OF inv])
      fix s' r' assume s': "R s' = Some r'" "s' \<noteq> k"
      then show "s' + run_len r' \<le> k \<or> k + run_len (r\<lparr>run_len := start - k\<rparr>) \<le> s'"
        using above [OF s'(1)] below [OF s'(1)] assms(4) True by (cases "s' < k") auto
    qed (use b assms(4) True in auto)
    with True show ?thesis by (simp add: left_part_def)
  next
    case False
    then show ?thesis using inv by (simp add: left_part_def rinv_delete)
  qed
  show ?thesis
  proof (cases "fin < k + run_len r")
    case True
    have "rinv ((R(k := left_part start k r))(fin \<mapsto> right_part fin k r))"
    proof (rule rinv_insert [OF R1])
      fix s' r' assume s': "(R(k := left_part start k r)) s' = Some r'" "s' \<noteq> fin"
      show "s' + run_len r' \<le> fin \<or> fin + run_len (right_part fin k r) \<le> s'"
      proof (cases "s' = k")
        case True
        with s' assms(5) show ?thesis by (auto simp: left_part_def split: if_splits)
      next
        case False
        with s' have "R s' = Some r'" by simp
        then show ?thesis
          using above [of s' r'] below [of s' r'] False assms(3) True
          by (cases "s' < k") (auto simp: right_part_def)
      qed
    qed (use b True assms(3) in \<open>auto simp: right_part_def\<close>)
    with True show ?thesis by (simp add: cut_def Let_def)
  next
    case False
    with R1 show ?thesis by (simp add: cut_def Let_def)
  qed
qed

lemma cut_covers:
  assumes inv: "rinv R" and k: "R k = Some r" and lt: "k < fin" "start < k + run_len r" "start < fin"
  shows "covers (cut start fin k r R) i v \<longleftrightarrow>
    covers R i v \<and> \<not> (in_run i k r \<and> start \<le> i \<and> i < fin)"
proof -
  let ?v = "(run_file r, run_off r + (i - k))"
  let ?R0 = "R(k := None)"
  have c0: "covers ?R0 i v \<longleftrightarrow> covers R i v \<and> \<not> in_run i k r"
    by (rule covers_delete [OF inv k])
  have cv: "covers R i ?v" if "in_run i k r"
    unfolding covers_def using that k by blast
  have inR: "covers R i v \<longleftrightarrow> v = ?v" if "in_run i k r"
    using covers_unique [OF inv _ cv [OF that], of v] cv [OF that] by blast
  have c1: "covers (R(k := left_part start k r)) i v \<longleftrightarrow>
      covers ?R0 i v \<or> k < start \<and> k \<le> i \<and> i < start \<and> v = ?v"
  proof (cases "k < start")
    case True
    have "in_run i k (r\<lparr>run_len := start - k\<rparr>) \<longleftrightarrow> k \<le> i \<and> i < start"
      using True by (auto simp: in_run_def)
    then show ?thesis
      using covers_insert [of ?R0 k "r\<lparr>run_len := start - k\<rparr>" i v] True
      by (simp add: left_part_def)
  qed (simp add: left_part_def)
  have fin: "fin < k + run_len r \<Longrightarrow> (R(k := left_part start k r)) fin = None"
    using rinvD(4) [OF inv k, of fin] lt(1) by (cases "R fin") auto
  have "covers (cut start fin k r R) i v \<longleftrightarrow>
      covers ?R0 i v \<or> k < start \<and> k \<le> i \<and> i < start \<and> v = ?v \<or>
      fin < k + run_len r \<and> fin \<le> i \<and> i < k + run_len r \<and> v = ?v"
  proof (cases "fin < k + run_len r")
    case True
    let ?rp = "right_part fin k r"
    have "covers (cut start fin k r R) i v \<longleftrightarrow> covers (R(k := left_part start k r)) i v \<or>
        in_run i fin ?rp \<and> v = (run_file ?rp, run_off ?rp + (i - fin))"
      using covers_insert [of "R(k := left_part start k r)" fin ?rp i v] fin [OF True] True
      by (simp add: cut_def Let_def)
    moreover have "in_run i fin ?rp \<longleftrightarrow> fin \<le> i \<and> i < k + run_len r"
      using True by (auto simp: in_run_def right_part_def)
    moreover have "fin \<le> i \<Longrightarrow> (run_file ?rp, run_off ?rp + (i - fin)) = ?v"
      using lt(1) by (simp add: right_part_def)
    ultimately show ?thesis using c1 True by metis
  next
    case False
    with c1 show ?thesis by (simp add: cut_def Let_def)
  qed
  note parts = this
  show ?thesis
  proof (cases "in_run i k r")
    case True
    then have "k < start \<and> k \<le> i \<and> i < start \<or> fin < k + run_len r \<and> fin \<le> i \<and> i < k + run_len r
        \<longleftrightarrow> \<not> (start \<le> i \<and> i < fin)"
      unfolding in_run_def by linarith
    with parts c0 inR [OF True] True show ?thesis by blast
  next
    case False
    then have "\<not> (k < start \<and> k \<le> i \<and> i < start)" "\<not> (fin \<le> i \<and> i < k + run_len r)"
      using lt unfolding in_run_def by linarith+
    with parts c0 False show ?thesis by blast
  qed
qed

lemma cut_other: "s \<noteq> k \<Longrightarrow> s \<noteq> fin \<Longrightarrow> cut start fin k r R s = R s"
  by (simp add: cut_def Let_def)

lemma forget_runs_covers:
  assumes "bt_inv runs" and "rinv (map_of runs)" and "start < fin" and "distinct ks"
    and "\<And>k. k \<in> set ks \<Longrightarrow> \<exists>r. map_of runs k = Some r \<and> k < fin \<and> start < k + run_len r"
  shows "\<exists>runs'. forget_runs start fin ks runs = Some runs' \<and> bt_inv runs' \<and>
    rinv (map_of runs') \<and>
    (\<forall>i v. covers (map_of runs') i v \<longleftrightarrow> covers (map_of runs) i v \<and>
       \<not> (\<exists>k \<in> set ks. in_run i k (the (map_of runs k)) \<and> start \<le> i \<and> i < fin))"
  using assms
proof (induction ks arbitrary: runs)
  case Nil
  then show ?case by simp
next
  case (Cons k ks)
  obtain r where k: "map_of runs k = Some r" "k < fin" "start < k + run_len r"
    using Cons.prems(5) [of k] by auto
  obtain runs1 where 1: "forget_run start fin k runs = Some runs1" "bt_inv runs1"
      "map_of runs1 = cut start fin k r (map_of runs)"
    using forget_run_cut [OF Cons.prems(1,2) k(1,2)] by blast
  have inv1: "rinv (map_of runs1)"
    unfolding 1(3) by (rule cut_rinv [OF Cons.prems(2) k Cons.prems(3)])
  have same: "map_of runs1 j = map_of runs j" if "j \<in> set ks" for j
    using that Cons.prems(4) Cons.prems(5) [of j] unfolding 1(3) by (intro cut_other) auto
  have "\<exists>r. map_of runs1 j = Some r \<and> j < fin \<and> start < j + run_len r" if "j \<in> set ks" for j
    using Cons.prems(5) [of j] that by (simp add: same)
  then obtain runs' where 2: "forget_runs start fin ks runs1 = Some runs'" "bt_inv runs'"
      "rinv (map_of runs')"
      "\<forall>i v. covers (map_of runs') i v \<longleftrightarrow> covers (map_of runs1) i v \<and>
         \<not> (\<exists>j \<in> set ks. in_run i j (the (map_of runs1 j)) \<and> start \<le> i \<and> i < fin)"
    using Cons.IH [OF 1(2) inv1 Cons.prems(3)] Cons.prems(4) by auto
  have "covers (map_of runs1) i v \<longleftrightarrow> covers (map_of runs) i v \<and>
      \<not> (in_run i k (the (map_of runs k)) \<and> start \<le> i \<and> i < fin)" for i v
    unfolding 1(3) using cut_covers [OF Cons.prems(2) k Cons.prems(3)] k(1) by simp
  then show ?case using 1(1) 2 by (simp add: same) blast
qed

text \<open>
  Every run that meets the range is listed, so after the loop exactly the range is gone.
\<close>

lemma forget_covers:
  assumes inv: "runs_inv (fr_runs fr)" and "0 < len" and "start + len < 2 ^ 64"
  shows "\<exists>fr'. forget held start len fr = Some fr' \<and> runs_inv (fr_runs fr') \<and>
    (\<forall>i v. covers (map_of (fr_runs fr')) i v \<longleftrightarrow>
       covers (map_of (fr_runs fr)) i v \<and> \<not> (start \<le> i \<and> i < start + len))"
proof -
  let ?runs = "fr_runs fr" and ?fin = "start + len"
  let ?ks = "overlapping start ?fin ?runs"
  have bt: "bt_inv ?runs" and ri: "rinv (map_of ?runs)" using inv by (auto simp: runs_inv_iff)
  have fin: "wrapping_add 64 start len = ?fin" using assms(3) by (simp add: wrapping_add_id)
  have run_end: "wrapping_add 64 k (run_len r) = k + run_len r" if "map_of ?runs k = Some r" for k r
    using rinvD(2) [OF ri that] by (simp add: wrapping_add_id)
  have mem: "k \<in> set ?ks \<longleftrightarrow> (\<exists>r. map_of ?runs k = Some r \<and> k < ?fin \<and> start < k + run_len r)" for k
    using run_end by (force simp: overlapping_def bt.entries_iff [OF bt])
  have "distinct ?ks"
    using bt.entries_distinct [OF bt] by (simp add: overlapping_def distinct_map_filter)
  then obtain runs' where r': "forget_runs start ?fin ?ks ?runs = Some runs'" "bt_inv runs'"
      "rinv (map_of runs')"
      "\<forall>i v. covers (map_of runs') i v \<longleftrightarrow> covers (map_of ?runs) i v \<and>
         \<not> (\<exists>k \<in> set ?ks. in_run i k (the (map_of ?runs k)) \<and> start \<le> i \<and> i < ?fin)"
    using forget_runs_covers [OF bt ri, of start ?fin ?ks] assms(2) mem by auto
  have "(\<exists>k \<in> set ?ks. in_run i k (the (map_of ?runs k)) \<and> start \<le> i \<and> i < ?fin) \<longleftrightarrow>
      start \<le> i \<and> i < ?fin" if c: "covers (map_of ?runs) i v" for i v
  proof -
    obtain s r where s: "map_of ?runs s = Some r" "in_run i s r"
      using c unfolding covers_def by blast
    then have "start \<le> i \<Longrightarrow> i < ?fin \<Longrightarrow> s \<in> set ?ks"
      unfolding mem in_run_def by auto
    with s have "start \<le> i \<Longrightarrow> i < ?fin \<Longrightarrow> \<exists>k \<in> set ?ks. in_run i k (the (map_of ?runs k))"
      by (intro bexI [of _ s]) auto
    then show ?thesis by blast
  qed
  then have "covers (map_of runs') i v \<longleftrightarrow>
      covers (map_of ?runs) i v \<and> \<not> (start \<le> i \<and> i < ?fin)" for i v
    using r'(4) by blast
  then show ?thesis using r' by (simp add: forget_def fin Let_def runs_inv_iff)
qed

section \<open>Refinement\<close>

text \<open>The component's invariant: disjoint runs, and an open handle for every run's file.\<close>

definition ranges_inv :: "file_ranges \<Rightarrow> bool" where
  "ranges_inv fr \<longleftrightarrow> runs_inv (fr_runs fr) \<and>
     (\<forall>(k, r) \<in> set (fr_runs fr). run_file r \<in> set (fr_files fr))"

lemma backing_eqI:
  assumes "runs_inv runs" and "\<And>v. covers (map_of runs) i v \<longleftrightarrow> w = Some v"
  shows "backing runs i = w"
  using backing_covers [OF assms(1), of i] assms(2) by (metis not_Some_eq)

lemma run_covered:
  assumes "runs_inv runs" and "(k, r) \<in> set runs"
  shows "covers (map_of runs) k (run_file r, run_off r)"
proof -
  have bt: "bt_inv runs" and ri: "rinv (map_of runs)" using assms(1) by (auto simp: runs_inv_iff)
  have k: "map_of runs k = Some r" using assms(2) bt by (simp add: bt.entries_iff [symmetric])
  then have "in_run k k r" using rinvD(1) [OF ri k] by (simp add: in_run_def)
  with k show ?thesis by (intro coversI) auto
qed

lemma covered_file:
  "covers (map_of runs) i (f, x) \<Longrightarrow> \<exists>k r. (k, r) \<in> set runs \<and> run_file r = f"
  unfolding covers_def by (auto dest: map_of_SomeD)

lemma forget_backing:
  assumes "ranges_inv fr" and "0 < len" and "start + len < 2 ^ 64"
  shows "\<exists>fr'. forget held start len fr = Some fr' \<and> ranges_inv fr' \<and>
    backing (fr_runs fr') = (backing (fr_runs fr)) |` (- {start..<start + len}) \<and>
    (\<forall>f. f \<in> set (fr_files fr') \<longleftrightarrow> f \<in> set (fr_files fr) \<and>
       (f \<in> set held \<or> (\<exists>(k, r) \<in> set (fr_runs fr'). run_file r = f)))"
proof -
  have inv: "runs_inv (fr_runs fr)" using assms(1) by (simp add: ranges_inv_def)
  obtain fr' where f: "forget held start len fr = Some fr'" and inv': "runs_inv (fr_runs fr')"
    and cov: "\<And>i v. covers (map_of (fr_runs fr')) i v \<longleftrightarrow>
       covers (map_of (fr_runs fr)) i v \<and> \<not> (start \<le> i \<and> i < start + len)"
    using forget_covers [OF inv assms(2,3)] by blast
  have files: "fr_files fr' = filter (\<lambda>f. f \<in> set held \<or>
      (\<exists>(k, r) \<in> set (fr_runs fr'). run_file r = f)) (fr_files fr)"
    using f by (auto simp: forget_def Let_def split: option.splits)
  have "run_file r \<in> set (fr_files fr')" if kr: "(k, r) \<in> set (fr_runs fr')" for k r
  proof -
    have "covers (map_of (fr_runs fr)) k (run_file r, run_off r)"
      using run_covered [OF inv' kr] cov by blast
    then obtain k' r' where "(k', r') \<in> set (fr_runs fr)" "run_file r' = run_file r"
      using covered_file by blast
    then have "run_file r \<in> set (fr_files fr)"
      using assms(1) by (auto simp: ranges_inv_def)
    with kr show ?thesis by (auto simp: files)
  qed
  moreover have "backing (fr_runs fr') = (backing (fr_runs fr)) |` (- {start..<start + len})"
  proof
    fix i
    show "backing (fr_runs fr') i = ((backing (fr_runs fr)) |` (- {start..<start + len})) i"
      by (rule backing_eqI [OF inv']) (auto simp: cov restrict_map_def backing_covers [OF inv])
  qed
  ultimately show ?thesis using f inv' files by (auto simp: ranges_inv_def)
qed

lemma rinv_record:
  assumes "rinv R" and "0 < len" "start + len < 2 ^ 64" "off + len < 2 ^ 64"
    and free: "\<And>i v. covers R i v \<Longrightarrow> \<not> (start \<le> i \<and> i < start + len)"
  shows "rinv (R(start \<mapsto> \<lparr>run_len = len, run_file = f, run_off = off\<rparr>))" and "R start = None"
proof -
  have apart: "s' + run_len r' \<le> start \<or> start + len \<le> s'" if s': "R s' = Some r'" for s' r'
  proof (rule ccontr)
    assume a: "\<not> (s' + run_len r' \<le> start \<or> start + len \<le> s')"
    let ?i = "max s' start"
    have "covers R ?i (run_file r', run_off r' + (?i - s'))"
      using s' a rinvD(1) [OF assms(1) s'] by (intro coversI) (auto simp: in_run_def)
    then have "\<not> (start \<le> ?i \<and> ?i < start + len)" by (rule free)
    with a assms(2) show False by auto
  qed
  then show "rinv (R(start \<mapsto> \<lparr>run_len = len, run_file = f, run_off = off\<rparr>))"
    using assms(1-4) by (intro rinv_insert) auto
  show "R start = None"
    using apart [of start] rinvD(1) [OF assms(1), of start] assms(2) by (cases "R start") force+
qed

lemma record_range_backing:
  assumes inv: "ranges_inv fr" and len: "0 < len" "start + len < 2 ^ 64" "off + len < 2 ^ 64"
    and ok: "f \<in> set (fr_files fr) \<or> clone_ok"
  shows "\<exists>fr'. record_range held (Some f) clone_ok start len off fr = Some (Inr fr') \<and>
    ranges_inv fr' \<and> f \<in> set (fr_files fr') \<and>
    backing (fr_runs fr') =
      (\<lambda>i. if start \<le> i \<and> i < start + len then Some (f, off + (i - start))
           else backing (fr_runs fr) i)"
proof -
  let ?files = "if f \<in> set (fr_files fr) then fr_files fr else fr_files fr @ [f]"
  let ?fr0 = "fr\<lparr>fr_files := ?files\<rparr>"
  let ?new = "\<lparr>run_len = len, run_file = f, run_off = off\<rparr>"
  have inv0: "ranges_inv ?fr0" using inv by (auto simp: ranges_inv_def)
  obtain fr1 where f1: "forget (f # held) start len ?fr0 = Some fr1" and inv1: "ranges_inv fr1"
    and b1: "backing (fr_runs fr1) = (backing (fr_runs fr)) |` (- {start..<start + len})"
    and h1: "\<And>g. g \<in> set (fr_files fr1) \<longleftrightarrow> g \<in> set ?files \<and>
       (g \<in> set (f # held) \<or> (\<exists>(k, r) \<in> set (fr_runs fr1). run_file r = g))"
    using forget_backing [OF inv0 len(1,2), of "f # held"] by auto
  let ?fr' = "fr1\<lparr>fr_runs := bt_insert start ?new (fr_runs fr1)\<rparr>"
  have ri: "runs_inv (fr_runs fr1)" using inv1 by (simp add: ranges_inv_def)
  have free: "covers (map_of (fr_runs fr1)) i v \<Longrightarrow> \<not> (start \<le> i \<and> i < start + len)" for i v
    using backing_covers [OF ri, of i v] b1 by (auto simp: restrict_map_def split: if_splits)
  have bt1: "bt_inv (fr_runs fr1)" and rm1: "rinv (map_of (fr_runs fr1))"
    using ri by (auto simp: runs_inv_iff)
  have rec: "rinv ((map_of (fr_runs fr1))(start \<mapsto> ?new))" "map_of (fr_runs fr1) start = None"
    using rinv_record [OF rm1 len] free by blast+
  have ri': "runs_inv (fr_runs ?fr')"
    using rec(1) bt1 by (simp add: runs_inv_iff bt.inv_ins bt.get_ins)
  have cov: "covers (map_of (fr_runs ?fr')) i v \<longleftrightarrow> backing (fr_runs fr1) i = Some v \<or>
      start \<le> i \<and> i < start + len \<and> v = (f, off + (i - start))" for i v
    using covers_insert [of "map_of (fr_runs fr1)" start ?new i v] rec(2) bt1
    by (simp add: bt.get_ins in_run_def backing_covers [OF ri])
  have "backing (fr_runs ?fr') i =
      (if start \<le> i \<and> i < start + len then Some (f, off + (i - start))
       else backing (fr_runs fr) i)" for i
    by (rule backing_eqI [OF ri'], simp only: cov) (auto simp: b1 restrict_map_def)
  moreover have "record_range held (Some f) clone_ok start len off fr = Some (Inr ?fr')"
    using ok f1 by (simp add: record_range_def Let_def)
  moreover have "f \<in> set (fr_files ?fr')" using h1 by simp
  moreover have "ranges_inv ?fr'"
    using ri' inv1 \<open>f \<in> set (fr_files ?fr')\<close> bt1
    by (auto simp: ranges_inv_def bt.entries_iff [OF bt.inv_ins] bt.get_ins split: if_splits
        dest!: map_of_SomeD)
  ultimately show ?thesis by blast
qed

section \<open>Properties\<close>

text \<open>
  C35: \<open>forget\<close> never panics on a well-formed map, keeps it well formed, takes exactly
  the range out of the file-backed bytes, and keeps exactly the file handles that a run or
  an outside clone still needs.
\<close>

theorem forget_restricts:
  assumes "ranges_inv fr" and "0 < len" and "start + len < 2 ^ 64"
  shows "\<exists>fr'. forget held start len fr = Some fr' \<and> ranges_inv fr' \<and>
    backing (fr_runs fr') = (backing (fr_runs fr)) |` (- {start..<start + len}) \<and>
    (\<forall>f. f \<in> set (fr_files fr') \<longleftrightarrow> f \<in> set (fr_files fr) \<and>
       (f \<in> set held \<or> (\<exists>(k, r) \<in> set (fr_runs fr'). run_file r = f)))"
  by (rule forget_backing [OF assms])

definition ex_ranges :: file_ranges where
  "ex_ranges = \<lparr>fr_runs = [(0, \<lparr>run_len = 0x4000, run_file = FileId 1 2, run_off = 0x1000\<rparr>),
       (0x8000, \<lparr>run_len = 0x1000, run_file = FileId 1 3, run_off = 0\<rparr>)],
     fr_files = [FileId 1 2, FileId 1 3]\<rparr>"

lemma ex_ranges_inv: "ranges_inv ex_ranges"
  by (simp add: ranges_inv_def ex_ranges_def runs_inv_def bt_inv_def)

theorem forget_restricts_witness:
  "\<exists>fr'. forget [] 0x1000 0x1000 ex_ranges = Some fr' \<and> backing (fr_runs fr') 0x1800 = None \<and>
     backing (fr_runs fr') 0x2000 = Some (FileId 1 2, 0x3000)"
proof -
  have "backing (fr_runs ex_ranges) 0x2000 = Some (FileId 1 2, 0x3000)"
    by (simp add: ex_ranges_def backing_def in_run_def)
  then show ?thesis
    using forget_restricts [OF ex_ranges_inv, of "0x1000" "0x1000" "[]"] by (auto simp: restrict_map_def)
qed

text \<open>
  C36: \<open>record\<close> overrides the file-backed bytes of its range with the new file's and
  leaves the others, keeping the map well formed and the new handle open.
\<close>

theorem record_overrides:
  assumes "ranges_inv fr" and "0 < len" and "start + len < 2 ^ 64" and "off + len < 2 ^ 64"
    and "f \<in> set (fr_files fr) \<or> clone_ok"
  shows "\<exists>fr'. record_range held (Some f) clone_ok start len off fr = Some (Inr fr') \<and>
    ranges_inv fr' \<and> f \<in> set (fr_files fr') \<and>
    backing (fr_runs fr') =
      (\<lambda>i. if start \<le> i \<and> i < start + len then Some (f, off + (i - start))
           else backing (fr_runs fr) i)"
  by (rule record_range_backing [OF assms])

theorem record_overrides_witness:
  "\<exists>fr'. record_range [] (Some (FileId 7 7)) True 0x3000 0x6000 0 ex_ranges = Some (Inr fr') \<and>
     backing (fr_runs fr') 0x8010 = Some (FileId 7 7, 0x5010)"
  using record_overrides [OF ex_ranges_inv, of "0x6000" "0x3000" 0 "FileId 7 7" True "[]"] by auto

end
