(* ===== verification/GuestLayout.thy ===== *)
theory GuestLayout
  imports Prelude
begin

text \<open>
  The guest-physical layout of RAM (\<open>vmm-memory-backend/src/backend.rs\<close>): RAM is one
  packed run of host bytes; what does not fit below the MMIO aperture at 3.25 GiB is seen
  by the guest from 4 GiB upwards. Translation between guest-physical addresses and packed
  offsets, in both directions, and of whole ranges. The E820 map that tells the guest
  kernel about this layout (\<open>vmm-loader/src/memmap.rs\<close>) is here too.
\<close>

definition MMIO_GAP_START :: u64 where "MMIO_GAP_START = 0xd0000000"
definition MMIO_GAP_END :: u64 where "MMIO_GAP_END = 0x100000000"

lemmas gap_defs = MMIO_GAP_START_def MMIO_GAP_END_def

section \<open>Address translation\<close>

definition gpa_to_offset :: "u64 \<Rightarrow> u64 \<Rightarrow> u64 option" where
  "gpa_to_offset size_bytes gpa =
     (let low_size = min size_bytes MMIO_GAP_START in
      if gpa < low_size then Some gpa
      else
        let high_size = size_bytes - low_size in
        if MMIO_GAP_END \<le> gpa \<and> gpa - MMIO_GAP_END < high_size
        then Some (low_size + (gpa - MMIO_GAP_END))
        else None)"

definition offset_to_gpa :: "u64 \<Rightarrow> u64 \<Rightarrow> u64 option" where
  "offset_to_gpa size_bytes offset =
     (if size_bytes \<le> offset then None
      else
        let low_size = min size_bytes MMIO_GAP_START in
        if offset < low_size then Some offset
        else Some (MMIO_GAP_END + (offset - low_size)))"

definition gpa_range_to_offset :: "u64 \<Rightarrow> u64 \<Rightarrow> u64 \<Rightarrow> u64 option" where
  "gpa_range_to_offset size_bytes gpa len =
     Option.bind (checked_add 64 gpa len) (\<lambda>fin.
     Option.bind (gpa_to_offset size_bytes gpa) (\<lambda>offset.
     if len = 0 then Some offset
     else
       Option.bind (checked_sub fin 1) (\<lambda>last_gpa.
       Option.bind (gpa_to_offset size_bytes last_gpa) (\<lambda>last_offset.
       if last_offset = offset + len - 1 then Some offset else None))))"

lemma gpa_to_offset_iff:
  "gpa_to_offset sz gpa = Some off \<longleftrightarrow>
     (gpa < sz \<and> gpa < MMIO_GAP_START \<and> off = gpa) \<or>
     (MMIO_GAP_START < sz \<and> MMIO_GAP_END \<le> gpa \<and>
      gpa - MMIO_GAP_END < sz - MMIO_GAP_START \<and>
      off = MMIO_GAP_START + (gpa - MMIO_GAP_END))"
  by (auto simp: gpa_to_offset_def Let_def min_def gap_defs)

lemma gpa_to_offset_bound: "gpa_to_offset sz gpa = Some off \<Longrightarrow> off < sz"
  by (auto simp: gpa_to_offset_iff)

lemma gpa_to_offset_inj:
  "gpa_to_offset sz g = Some off \<Longrightarrow> gpa_to_offset sz g' = Some off \<Longrightarrow> g = g'"
  by (auto simp: gpa_to_offset_iff gap_defs)

lemma gpa_to_offset_step:
  "gpa_to_offset sz g = Some off \<Longrightarrow> gpa_to_offset sz (g + n) = Some (off + n) \<Longrightarrow> k \<le> n \<Longrightarrow>
   gpa_to_offset sz (g + k) = Some (off + k)"
  by (auto simp: gpa_to_offset_iff gap_defs)

lemma gpa_range_to_offset_iff:
  assumes "0 < len"
  shows "gpa_range_to_offset sz gpa len = Some off \<longleftrightarrow>
    gpa + len < 2 ^ 64 \<and> (\<forall>k < len. gpa_to_offset sz (gpa + k) = Some (off + k))"
    (is "?lhs \<longleftrightarrow> ?rhs")
proof
  assume ?lhs
  then have ov: "gpa + len < 2 ^ 64" and first: "gpa_to_offset sz gpa = Some off"
    and final: "gpa_to_offset sz (gpa + len - 1) = Some (off + len - 1)"
    using assms by (auto simp: gpa_range_to_offset_def bind_eq_Some_conv split: if_splits)
  have last_byte: "gpa_to_offset sz (gpa + (len - 1)) = Some (off + (len - 1))"
    using final assms by (simp add: Nat.add_diff_assoc)
  have "gpa_to_offset sz (gpa + k) = Some (off + k)" if "k < len" for k
    by (rule gpa_to_offset_step [OF first last_byte]) (use that in simp)
  with ov show ?rhs by blast
next
  assume r: ?rhs
  then have "gpa_to_offset sz (gpa + 0) = Some (off + 0)" using assms by blast
  moreover have "len - 1 < len" using assms by simp
  with r have "gpa_to_offset sz (gpa + (len - 1)) = Some (off + (len - 1))" by blast
  then have "gpa_to_offset sz (gpa + len - 1) = Some (off + len - 1)"
    using assms by (simp add: Nat.add_diff_assoc)
  ultimately show ?lhs
    using r assms by (simp add: gpa_range_to_offset_def bind_eq_Some_conv del: One_nat_def)
qed

section \<open>The E820 map\<close>

definition E820_RAM :: u32 where "E820_RAM = 1"
definition E820_RESERVED :: u32 where "E820_RESERVED = 2"
definition HIMEM_START :: u64 where "HIMEM_START = 0x100000"

record e820_entry =
  e_addr :: u64
  e_size :: u64
  e_type :: u32

definition build_e820_map :: "u64 \<Rightarrow> e820_entry list" where
  "build_e820_map mem_size_bytes =
     [\<lparr>e_addr = 0, e_size = 0xA0000, e_type = E820_RAM\<rparr>,
      \<lparr>e_addr = 0xA0000, e_size = 0x100000 - 0xA0000, e_type = E820_RESERVED\<rparr>] @
     (if HIMEM_START < mem_size_bytes
      then [\<lparr>e_addr = HIMEM_START,
              e_size = min mem_size_bytes MMIO_GAP_START - HIMEM_START, e_type = E820_RAM\<rparr>]
      else []) @
     (if MMIO_GAP_START < mem_size_bytes
      then [\<lparr>e_addr = MMIO_GAP_START, e_size = MMIO_GAP_END - MMIO_GAP_START,
              e_type = E820_RESERVED\<rparr>,
            \<lparr>e_addr = MMIO_GAP_END, e_size = mem_size_bytes - MMIO_GAP_START,
              e_type = E820_RAM\<rparr>]
      else [])"

definition e820_usable :: "e820_entry list \<Rightarrow> u64 \<Rightarrow> bool" where
  "e820_usable es gpa \<longleftrightarrow>
     (\<exists>e \<in> set es. e_type e = E820_RAM \<and> e_addr e \<le> gpa \<and> gpa < e_addr e + e_size e)"

lemmas e820_defs = E820_RAM_def E820_RESERVED_def HIMEM_START_def

section \<open>Properties\<close>

text \<open>
  C40: translation from guest-physical addresses to packed RAM and back are inverse: the
  offsets below the RAM size are exactly the images of the RAM-backed addresses, each of
  one address.
\<close>

theorem gpa_offset_roundtrip:
  "gpa_to_offset sz gpa = Some off \<longleftrightarrow> offset_to_gpa sz off = Some gpa"
  by (auto simp: gpa_to_offset_iff offset_to_gpa_def Let_def min_def gap_defs split: if_splits)

text \<open>
  A guest range translates to a packed run exactly when it does not overflow and every
  one of its bytes is RAM at the matching offset; a range that reaches into the MMIO
  aperture or past the end of RAM is refused.
\<close>

theorem gpa_range_contiguous:
  "0 < len \<Longrightarrow> gpa_range_to_offset sz gpa len = Some off \<longleftrightarrow>
     gpa + len < 2 ^ 64 \<and> (\<forall>k < len. gpa_to_offset sz (gpa + k) = Some (off + k))"
  by (rule gpa_range_to_offset_iff)

theorem gpa_range_contiguous_witness:
  "gpa_range_to_offset 0xd0002000 0xcffff000 0x1000 = Some 0xcffff000 \<and>
   gpa_range_to_offset 0xd0002000 0xcffff000 0x1001 = None \<and>
   gpa_to_offset 0xd0002000 (0xcffff000 + 5) = Some (0xcffff000 + 5)"
proof -
  have r: "gpa_range_to_offset 0xd0002000 0xcffff000 0x1000 = Some 0xcffff000"
    and n: "gpa_range_to_offset 0xd0002000 0xcffff000 0x1001 = None"
    by (simp_all add: gpa_range_to_offset_def gpa_to_offset_def gap_defs checked_add_def checked_sub_def)
  have all: "\<forall>k < 0x1000. gpa_to_offset 0xd0002000 (0xcffff000 + k) = Some (0xcffff000 + k)"
    using gpa_range_contiguous [of "0x1000" "0xd0002000" "0xcffff000" "0xcffff000"] r by simp
  show ?thesis using r n all [rule_format, of 5] by simp
qed


end
