(* ===== verification/Dirty.thy ===== *)
theory Dirty
  imports GuestLayout
begin

text \<open>
  Dirty-page tracking (\<open>vmm-memory-backend/src/dirty.rs\<close>). A bitmap is the set of
  dirty page frame numbers; the software bitmap shared by the devices holds packed
  offsets, and \<open>mark_guest_range\<close> translates guest-physical ranges to them. The
  lemmas characterise what each operation marks and show that the translation agrees with
  the memory backend's.
\<close>

definition PAGE_SIZE :: nat where "PAGE_SIZE = 4096"

type_synonym dirty_bitmap = "nat set"

definition mark :: "u64 \<Rightarrow> dirty_bitmap \<Rightarrow> dirty_bitmap" where
  "mark gpa dirty = insert (gpa div PAGE_SIZE) dirty"

definition mark_range :: "u64 \<Rightarrow> u64 \<Rightarrow> dirty_bitmap \<Rightarrow> dirty_bitmap" where
  "mark_range gpa len dirty =
     (if len = 0 then dirty
      else case checked_add 64 gpa len of
        None \<Rightarrow> dirty
      | Some end_gpa \<Rightarrow>
          let start = gpa div PAGE_SIZE; fin = div_ceil end_gpa PAGE_SIZE
          in fold insert [start..<fin] dirty)"

definition contains :: "u64 \<Rightarrow> dirty_bitmap \<Rightarrow> bool" where
  "contains gpa dirty \<longleftrightarrow> gpa div PAGE_SIZE \<in> dirty"

definition drain :: "dirty_bitmap \<Rightarrow> dirty_bitmap \<times> dirty_bitmap" where
  "drain dirty = (dirty, {})"

definition merge :: "dirty_bitmap \<Rightarrow> dirty_bitmap \<Rightarrow> dirty_bitmap" where
  "merge other dirty = dirty \<union> other"

text \<open>
  One byte of a KVM dirty log: its bits in order, each set bit marking its page. The sum
  and product are plain u64 operators in the source.
\<close>

definition mark_log_byte :: "u64 \<Rightarrow> nat \<Rightarrow> byte \<Rightarrow> dirty_bitmap \<Rightarrow> dirty_bitmap" where
  "mark_log_byte region_start_gpa byte_idx v b =
     (if v = 0 then b
      else fold (\<lambda>bi b.
             if v AND push_bit bi 1 \<noteq> 0
             then mark (wrapping_add 64 region_start_gpa
                    (wrapping_mul 64 (byte_idx * 8 + bi) PAGE_SIZE)) b
             else b) [0..<8] b)"

definition from_kvm_log :: "u64 \<Rightarrow> byte list \<Rightarrow> dirty_bitmap" where
  "from_kvm_log region_start_gpa log =
     fold (\<lambda>(byte_idx, v). mark_log_byte region_start_gpa byte_idx v) (enumerate 0 log) {}"

definition mark_guest_range :: "u64 \<Rightarrow> u64 \<Rightarrow> dirty_bitmap \<Rightarrow> dirty_bitmap" where
  "mark_guest_range gpa len dirty =
     (case checked_add 64 gpa len of
        None \<Rightarrow> dirty
      | Some fin \<Rightarrow>
          if len = 0 then dirty
          else
            let dirty1 = (if gpa < MMIO_GAP_START
                          then mark_range gpa (min fin MMIO_GAP_START - gpa) dirty
                          else dirty)
            in if MMIO_GAP_END < fin
               then let start = max gpa MMIO_GAP_END
                    in mark_range (MMIO_GAP_START + (start - MMIO_GAP_END)) (fin - start) dirty1
               else dirty1)"

lemma fold_insert_eq: "fold insert xs A = set xs \<union> A"
  by (induction xs arbitrary: A) auto

lemma mark_range_eq:
  "mark_range gpa len dirty =
     (if len \<noteq> 0 \<and> gpa + len < 2 ^ 64
      then dirty \<union> {p. gpa div PAGE_SIZE \<le> p \<and> p * PAGE_SIZE < gpa + len} else dirty)"
  by (auto simp: mark_range_def fold_insert_eq Let_def less_div_ceil_iff PAGE_SIZE_def
      split: option.splits)

lemma mark_range_mono: "dirty \<subseteq> mark_range gpa len dirty"
  by (auto simp: mark_range_eq)

lemma mark_range_covers:
  "o' \<in> {gpa..<gpa + len} \<Longrightarrow> gpa + len < 2 ^ 64 \<Longrightarrow> o' div PAGE_SIZE \<in> mark_range gpa len dirty"
proof -
  assume o: "o' \<in> {gpa..<gpa + len}" and ov: "gpa + len < 2 ^ 64"
  have "o' div PAGE_SIZE * PAGE_SIZE \<le> o'" by (rule div_times_less_eq_dividend)
  then have "o' div PAGE_SIZE * PAGE_SIZE < gpa + len" by (rule le_less_trans) (use o in simp)
  moreover have "gpa div PAGE_SIZE \<le> o' div PAGE_SIZE" using o by (auto intro: div_le_mono)
  ultimately show ?thesis using o ov by (auto simp: mark_range_eq)
qed

text \<open>A page marked by a range meets the range.\<close>

lemma mark_range_exact:
  assumes "p \<in> mark_range gpa len dirty" and "p \<notin> dirty"
  shows "\<exists>off \<in> {gpa..<gpa + len}. off div PAGE_SIZE = p"
proof -
  have p: "gpa div PAGE_SIZE \<le> p" "p * PAGE_SIZE < gpa + len" "len \<noteq> 0"
    using assms by (auto simp: mark_range_eq split: if_splits)
  show ?thesis
  proof (cases "gpa \<le> p * PAGE_SIZE")
    case True
    with p show ?thesis by (intro bexI [of _ "p * PAGE_SIZE"]) (auto simp: PAGE_SIZE_def)
  next
    case False
    then have "p * PAGE_SIZE \<le> gpa" by simp
    then have "p \<le> gpa div PAGE_SIZE"
      by (simp add: PAGE_SIZE_def less_eq_div_iff_mult_less_eq)
    with p show ?thesis by (intro bexI [of _ gpa]) auto
  qed
qed

lemma mark_guest_range_mono: "dirty \<subseteq> mark_guest_range gpa len dirty"
  by (auto simp: mark_guest_range_def Let_def mark_range_eq split: option.splits)

lemma mark_guest_range_covers:
  assumes ov: "gpa + len < 2 ^ 64" and g: "g \<in> {gpa..<gpa + len}"
    and tr: "gpa_to_offset sz g = Some off"
  shows "off div PAGE_SIZE \<in> mark_guest_range gpa len dirty"
proof -
  let ?fin = "gpa + len"
  let ?d1 = "if gpa < MMIO_GAP_START then mark_range gpa (min ?fin MMIO_GAP_START - gpa) dirty
             else dirty"
  let ?start = "max gpa MMIO_GAP_END"
  have eq: "mark_guest_range gpa len dirty =
    (if MMIO_GAP_END < ?fin
     then mark_range (MMIO_GAP_START + (?start - MMIO_GAP_END)) (?fin - ?start) ?d1 else ?d1)"
    using ov g by (auto simp: mark_guest_range_def checked_add_def Let_def)
  consider (low) "g < MMIO_GAP_START" "off = g"
    | (high) "MMIO_GAP_END \<le> g" "off = MMIO_GAP_START + (g - MMIO_GAP_END)"
    using tr by (auto simp: gpa_to_offset_iff)
  then show ?thesis
  proof cases
    case low
    with g have lo: "gpa < MMIO_GAP_START" by simp
    with low g ov have "off div PAGE_SIZE \<in> ?d1" by (auto intro!: mark_range_covers)
    then show ?thesis unfolding eq by (simp add: subsetD [OF mark_range_mono])
  next
    case high
    with g have hi: "MMIO_GAP_END < ?fin" by simp
    have "off \<in> {MMIO_GAP_START + (?start - MMIO_GAP_END)..<
                 MMIO_GAP_START + (?start - MMIO_GAP_END) + (?fin - ?start)}"
      using high g by (auto simp: gap_defs)
    moreover have "MMIO_GAP_START + (?start - MMIO_GAP_END) + (?fin - ?start) < 2 ^ 64"
      using ov by (auto simp: gap_defs)
    ultimately have "off div PAGE_SIZE \<in>
        mark_range (MMIO_GAP_START + (?start - MMIO_GAP_END)) (?fin - ?start) ?d1"
      by (rule mark_range_covers)
    then show ?thesis unfolding eq using hi by simp
  qed
qed

section \<open>Properties\<close>

text \<open>
  Marking a guest-physical range dirties the packed page of every RAM byte in it, on
  both sides of the MMIO aperture, and forgets no page already dirty.
\<close>

theorem guest_range_marked:
  assumes "gpa + len < 2 ^ 64"
  shows "dirty \<subseteq> mark_guest_range gpa len dirty \<and>
    (\<forall>g off. gpa \<le> g \<longrightarrow> g < gpa + len \<longrightarrow> gpa_to_offset sz g = Some off \<longrightarrow>
       off div PAGE_SIZE \<in> mark_guest_range gpa len dirty)"
  using mark_guest_range_mono mark_guest_range_covers [OF assms] by auto

theorem guest_range_marked_witness:
  "0xd0000000 div PAGE_SIZE \<in> mark_guest_range 0xcffff000 0x40000000 {}"
proof -
  have t: "gpa_to_offset 0xd0002000 0x100000000 = Some 0xd0000000"
    by (simp add: gpa_to_offset_def gap_defs)
  have "(0xcffff000 :: nat) + 0x40000000 < 2 ^ 64" by simp
  from guest_range_marked [OF this, THEN conjunct2, rule_format, OF _ _ t] show ?thesis by simp
qed

end
