(* ===== verification/HostMem.thy ===== *)
theory HostMem
  imports FileRanges Dirty
begin

text \<open>
  Guest RAM as the code sees it through other people's code. The byte-level access
  functions come from the \<open>vm-memory\<close> crate and the paging calls from the host kernel,
  so both are parameters, \<open>G\<close> and \<open>H\<close>, of every definition that touches guest
  memory; what the code relies on are the locales \<open>guest_ram\<close> and \<open>host_mm\<close>. The
  theory interprets them on the layout that \<open>GuestMemory::new_with_flags\<close> builds: one
  packed run of bytes, seen by the guest at 0 and at 4 GiB.
\<close>

section \<open>The memory interface\<close>

record 'm ram_ops =
  rd :: "'m \<Rightarrow> u64 \<Rightarrow> usize \<Rightarrow> byte list option" \<comment> \<open>\<open>read_slice\<close>, \<open>read_obj\<close>\<close>
  wr :: "'m \<Rightarrow> u64 \<Rightarrow> byte list \<Rightarrow> bool \<times> 'm"  \<comment> \<open>\<open>write_slice\<close>, \<open>write_obj\<close>: success, new memory\<close>
  chk :: "'m \<Rightarrow> u64 \<Rightarrow> usize \<Rightarrow> bool"              \<comment> \<open>\<open>check_range\<close>\<close>

text \<open>
  The contract: reads return the bytes asked for, a checked range can be read and written
  as a whole, a write changes nothing outside its range and reads back, no region reaches
  the end of the address space, and the set of mapped addresses never changes. A failed write may have stored a prefix; only a failed
  write of one byte is known to have no effect.
\<close>

locale guest_ram =
  fixes G :: "'m ram_ops"
  assumes rd_length: "rd G m a n = Some bs \<Longrightarrow> length bs = n"
    and rd_byte: "rd G m a n = Some bs \<Longrightarrow> i < n \<Longrightarrow> rd G m (a + i) 1 = Some [bs ! i]"
    and chk_rd: "chk G m a n \<Longrightarrow> 0 < n \<Longrightarrow> \<exists>bs. rd G m a n = Some bs"
    and chk_sub: "chk G m a n \<Longrightarrow> a \<le> b \<Longrightarrow> b + k \<le> a + n \<Longrightarrow> 0 < k \<Longrightarrow> chk G m b k"
    and chk_wr: "chk G m a (length bs) \<Longrightarrow> bs \<noteq> [] \<Longrightarrow> fst (wr G m a bs)"
    and wr_bound: "wr G m a bs = (True, m') \<Longrightarrow> bs \<noteq> [] \<Longrightarrow> a + length bs < 2 ^ 64"
    and wr_chk: "wr G m a bs = (ok, m') \<Longrightarrow> chk G m' = chk G m"
    and wr_same: "wr G m a bs = (True, m') \<Longrightarrow> rd G m' a (length bs) = Some bs"
    and wr_frame: "wr G m a bs = (ok, m') \<Longrightarrow> b + n \<le> a \<or> a + length bs \<le> b \<Longrightarrow>
      rd G m' b n = rd G m b n"
    and wr_fail_byte: "wr G m a [x] = (False, m') \<Longrightarrow> rd G m' = rd G m"
begin

text \<open>The bytes of memory that differ between two states.\<close>

lemma wr_changes:
  assumes "wr G m a bs = (ok, m')" and "rd G m' b 1 \<noteq> rd G m b 1"
  shows "a \<le> b \<and> b < a + length bs"
  using wr_frame [OF assms(1), of b 1] assms(2) by linarith

lemma wr_byte_changes:
  assumes "wr G m a [x] = (ok, m')" and "rd G m' b 1 \<noteq> rd G m b 1"
  shows "ok \<and> b = a"
proof -
  have ok using wr_fail_byte [of m a x m'] assms by (cases ok) auto
  moreover have "a \<le> b \<and> b < a + 1" using wr_changes [OF assms] by simp
  ultimately show ?thesis by simp
qed

lemma chk_wr_ok:
  assumes "chk G m a n" and "a \<le> b" and "b + length bs \<le> a + n" and "bs \<noteq> []"
  shows "fst (wr G m b bs)"
  using assms chk_sub [of m a n b "length bs"] chk_wr by simp

end

section \<open>The host's paging interface\<close>

text \<open>
  \<open>resident\<close>, \<open>content\<close> and \<open>mapped\<close> describe the host's page table for
  the packed RAM mapping: which pages are populated, the bytes of the populated ones, and
  which bytes are private mappings of which file byte. The other fields are the calls the
  code makes, \<open>None\<close> for a failed one.
\<close>

record 'm host_ops =
  ram_size :: "'m \<Rightarrow> u64"
  resident :: "'m \<Rightarrow> nat \<Rightarrow> bool"
  content :: "'m \<Rightarrow> u64 \<Rightarrow> byte"
  mapped :: "'m \<Rightarrow> u64 \<Rightarrow> (file_id \<times> u64) option"
  file_byte :: "file_id \<Rightarrow> u64 \<Rightarrow> byte"
  mincore :: "'m \<Rightarrow> nat \<Rightarrow> bool option"
  dontneed :: "'m \<Rightarrow> u64 \<Rightarrow> u64 \<Rightarrow> 'm option"
  mmap_anon :: "'m \<Rightarrow> u64 \<Rightarrow> u64 \<Rightarrow> 'm option"
  mmap_file :: "'m \<Rightarrow> u64 \<Rightarrow> u64 \<Rightarrow> file_id \<Rightarrow> u64 \<Rightarrow> 'm option"

text \<open>What a load finds: a missing page is zero, or the bytes of its file.\<close>

definition backed_byte :: "'m host_ops \<Rightarrow> (file_id \<times> u64) option \<Rightarrow> byte" where
  "backed_byte H src = (case src of None \<Rightarrow> 0 | Some (f, off) \<Rightarrow> file_byte H f off)"

definition view :: "'m host_ops \<Rightarrow> 'm \<Rightarrow> u64 \<Rightarrow> byte" where
  "view H m i = (if resident H m (i div PAGE_SIZE) then content H m i
                 else backed_byte H (mapped H m i))"

definition page_aligned :: "u64 \<Rightarrow> bool" where
  "page_aligned x \<longleftrightarrow> x mod PAGE_SIZE = 0"

text \<open>The pages of the aligned range are gone and its bytes have the given source.\<close>

definition dropped ::
  "'m host_ops \<Rightarrow> 'm \<Rightarrow> u64 \<Rightarrow> u64 \<Rightarrow> (u64 \<Rightarrow> (file_id \<times> u64) option) \<Rightarrow> 'm \<Rightarrow> bool" where
  "dropped H m off len src m' \<longleftrightarrow>
     ram_size H m' = ram_size H m \<and>
     (\<forall>p. resident H m' p \<longleftrightarrow>
        resident H m p \<and> \<not> (off \<le> p * PAGE_SIZE \<and> p * PAGE_SIZE < off + len)) \<and>
     (\<forall>i. resident H m' (i div PAGE_SIZE) \<longrightarrow> content H m' i = content H m i) \<and>
     (\<forall>i. mapped H m' i = (if off \<le> i \<and> i < off + len then src i else mapped H m i))"

locale host_mm = guest_ram G for G :: "'m ram_ops" +
  fixes H :: "'m host_ops"
  assumes rd_view:
      "a + 1 < 2 ^ 64 \<Longrightarrow> rd G m a 1 = map_option (\<lambda>off. [view H m off]) (gpa_to_offset (ram_size H m) a)"
    and wr_mapped: "wr G m a bs = (ok, m') \<Longrightarrow> mapped H m' = mapped H m \<and> ram_size H m' = ram_size H m"
    and mincore_resident: "mincore H m p = Some b \<Longrightarrow> b = resident H m p"
    and dontneed_drops: "dontneed H m off len = Some m' \<Longrightarrow>
      page_aligned off \<Longrightarrow> page_aligned len \<Longrightarrow> dropped H m off len (mapped H m) m'"
    and mmap_anon_drops: "mmap_anon H m off len = Some m' \<Longrightarrow>
      page_aligned off \<Longrightarrow> page_aligned len \<Longrightarrow> dropped H m off len (\<lambda>_. None) m'"
    and mmap_file_drops: "mmap_file H m off len f foff = Some m' \<Longrightarrow>
      page_aligned off \<Longrightarrow> page_aligned len \<Longrightarrow>
      dropped H m off len (\<lambda>i. Some (f, foff + (i - off))) m'"
begin

lemma wr_view:
  assumes w: "wr G m a bs = (ok, m')" and g: "gpa_to_offset (ram_size H m) g = Some off"
    and out: "\<not> (a \<le> g \<and> g < a + length bs)" and "g + 1 < 2 ^ 64"
  shows "view H m' off = view H m off"
proof -
  have "rd G m' g 1 = rd G m g 1" using wr_frame [OF w, of g 1] out by force
  then show ?thesis using g wr_mapped [OF w] rd_view [of g m'] rd_view [of g m] assms(4) by simp
qed

end

lemma page_of_aligned:
  assumes "page_aligned off" and "page_aligned len"
  shows "off \<le> i div PAGE_SIZE * PAGE_SIZE \<and> i div PAGE_SIZE * PAGE_SIZE < off + len \<longleftrightarrow>
    off \<le> i \<and> i < off + len"
proof -
  obtain a b where a: "off = PAGE_SIZE * a" and b: "len = PAGE_SIZE * b"
    using assms by (auto simp: page_aligned_def mod_eq_0_iff_dvd elim!: dvdE)
  have lt: "x * PAGE_SIZE \<le> i \<longleftrightarrow> x \<le> i div PAGE_SIZE" for x
    by (simp add: PAGE_SIZE_def less_eq_div_iff_mult_less_eq)
  show ?thesis using lt [of a] lt [of "a + b"]
    by (auto simp: a b PAGE_SIZE_def algebra_simps)
qed

text \<open>Dropping an aligned range exposes the sources and changes nothing else.\<close>

lemma dropped_view:
  assumes "dropped H m off len src m'" and "page_aligned off" and "page_aligned len"
  shows "view H m' i = (if off \<le> i \<and> i < off + len then backed_byte H (src i) else view H m i)"
  using assms(1) page_of_aligned [OF assms(2,3), of i]
  by (auto simp: dropped_def view_def)

section \<open>Packed RAM\<close>

record packed_mem =
  pm_size :: u64
  pm_resident :: "nat \<Rightarrow> bool"
  pm_content :: "u64 \<Rightarrow> byte"
  pm_mapped :: "u64 \<Rightarrow> (file_id \<times> u64) option"

text \<open>A file's bytes, the same for every mapping of it.\<close>

definition sample_file :: "file_id \<Rightarrow> u64 \<Rightarrow> byte" where
  "sample_file f off = (case f of FileId dev ino \<Rightarrow> of_nat (dev + ino + off))"

definition packed_drop ::
  "packed_mem \<Rightarrow> u64 \<Rightarrow> u64 \<Rightarrow> (u64 \<Rightarrow> (file_id \<times> u64) option) \<Rightarrow> packed_mem" where
  "packed_drop m off len src =
     m\<lparr>pm_resident := (\<lambda>p. pm_resident m p \<and>
           \<not> (off \<le> p * PAGE_SIZE \<and> p * PAGE_SIZE < off + len)),
       pm_mapped := (\<lambda>i. if off \<le> i \<and> i < off + len then src i else pm_mapped m i)\<rparr>"

definition packed_host :: "packed_mem host_ops" where
  "packed_host =
     \<lparr>ram_size = pm_size, resident = pm_resident, content = pm_content, mapped = pm_mapped,
      file_byte = sample_file,
      mincore = (\<lambda>m p. Some (pm_resident m p)),
      dontneed = (\<lambda>m off len. Some (packed_drop m off len (pm_mapped m))),
      mmap_anon = (\<lambda>m off len. Some (packed_drop m off len (\<lambda>_. None))),
      mmap_file = (\<lambda>m off len f foff.
        Some (packed_drop m off len (\<lambda>i. Some (f, foff + (i - off)))))\<rparr>"

definition packed_view :: "packed_mem \<Rightarrow> u64 \<Rightarrow> byte" where
  "packed_view m = view packed_host m"

definition packed_read :: "packed_mem \<Rightarrow> u64 \<Rightarrow> usize \<Rightarrow> byte list option" where
  "packed_read m a n =
     (if n = 0 then Some []
      else map_option (\<lambda>off. map (\<lambda>i. packed_view m (off + i)) [0..<n])
             (gpa_range_to_offset (pm_size m) a n))"

definition packed_store :: "packed_mem \<Rightarrow> u64 \<Rightarrow> byte list \<Rightarrow> packed_mem" where
  "packed_store m off bs =
     m\<lparr>pm_resident := (\<lambda>p. pm_resident m p \<or>
           off div PAGE_SIZE \<le> p \<and> p * PAGE_SIZE < off + length bs),
       pm_content := (\<lambda>i. if off \<le> i \<and> i < off + length bs then bs ! (i - off)
                          else packed_view m i)\<rparr>"

definition packed_write :: "packed_mem \<Rightarrow> u64 \<Rightarrow> byte list \<Rightarrow> bool \<times> packed_mem" where
  "packed_write m a bs =
     (if bs = [] then (True, m)
      else case gpa_range_to_offset (pm_size m) a (length bs) of
        None \<Rightarrow> (False, m)
      | Some off \<Rightarrow> (True, packed_store m off bs))"

definition packed_check :: "packed_mem \<Rightarrow> u64 \<Rightarrow> usize \<Rightarrow> bool" where
  "packed_check m a n \<longleftrightarrow> n \<noteq> 0 \<and> gpa_range_to_offset (pm_size m) a n \<noteq> None"

definition packed_ops :: "packed_mem ram_ops" where
  "packed_ops = \<lparr>rd = packed_read, wr = packed_write, chk = packed_check\<rparr>"

lemma packed_store_view:
  "packed_view (packed_store m off bs) i =
     (if off \<le> i \<and> i < off + length bs then bs ! (i - off) else packed_view m i)"
proof -
  have "off \<le> i \<Longrightarrow> off div PAGE_SIZE \<le> i div PAGE_SIZE" by (rule div_le_mono)
  moreover have "i < off + length bs \<Longrightarrow> i div PAGE_SIZE * PAGE_SIZE < off + length bs"
    by (rule le_less_trans [OF div_times_less_eq_dividend])
  ultimately show ?thesis
    by (auto simp: packed_view_def view_def packed_store_def packed_host_def)
qed

lemma packed_store_simps [simp]:
  "pm_size (packed_store m off bs) = pm_size m"
  "pm_mapped (packed_store m off bs) = pm_mapped m"
  by (simp_all add: packed_store_def)

lemma packed_write_cases:
  assumes "packed_write m a bs = (ok, m')"
  shows "bs = [] \<and> ok \<and> m' = m \<or>
    bs \<noteq> [] \<and> gpa_range_to_offset (pm_size m) a (length bs) = None \<and> \<not> ok \<and> m' = m \<or>
    (\<exists>off. bs \<noteq> [] \<and> gpa_range_to_offset (pm_size m) a (length bs) = Some off \<and> ok \<and>
       m' = packed_store m off bs)"
  using assms by (auto simp: packed_write_def split: if_splits option.splits)

lemma gpa_range_one:
  "a + 1 < 2 ^ 64 \<Longrightarrow> gpa_range_to_offset sz a 1 = gpa_to_offset sz a"
  by (cases "gpa_to_offset sz a") (simp_all add: gpa_range_to_offset_def checked_add_def checked_sub_def)

lemma gpa_range_sub:
  assumes "gpa_range_to_offset sz a n = Some off" and "a \<le> b" "b + k \<le> a + n" "0 < k"
  shows "gpa_range_to_offset sz b k = Some (off + (b - a))"
proof -
  have n: "0 < n" using assms by linarith
  have ov: "a + n < 2 ^ 64" and tr: "\<And>j. j < n \<Longrightarrow> gpa_to_offset sz (a + j) = Some (off + j)"
    using assms(1) by (auto simp: gpa_range_to_offset_iff [OF n])
  have "gpa_to_offset sz (b + j) = Some (off + (b - a) + j)" if "j < k" for j
    using tr [of "b - a + j"] assms(2,3) that by (simp add: add.assoc)
  then show ?thesis using assms(3,4) ov by (simp add: gpa_range_to_offset_iff)
qed

text \<open>Disjoint guest ranges have disjoint images.\<close>

lemma gpa_ranges_disjoint:
  assumes a: "gpa_range_to_offset sz a n = Some off" and b: "gpa_range_to_offset sz b k = Some off'"
    and "0 < n" "0 < k" and dis: "b + k \<le> a \<or> a + n \<le> b" and "j < k"
  shows "\<not> (off \<le> off' + j \<and> off' + j < off + n)"
proof
  assume "off \<le> off' + j \<and> off' + j < off + n"
  then obtain i where i: "i < n" "off' + j = off + i"
    by (metis le_Suc_ex nat_add_left_cancel_less)
  have "gpa_to_offset sz (a + i) = Some (off + i)"
    using a assms(3) i by (simp add: gpa_range_to_offset_iff)
  moreover have "gpa_to_offset sz (b + j) = Some (off' + j)"
    using b assms(4,6) by (simp add: gpa_range_to_offset_iff)
  ultimately have "a + i = b + j" using i(2) gpa_to_offset_inj by metis
  with dis i assms(6) show False by linarith
qed

lemma packed_frame:
  assumes w: "packed_write m a bs = (ok, m')" and dis: "b + n \<le> a \<or> a + length bs \<le> b"
  shows "packed_read m' b n = packed_read m b n"
proof (cases "n = 0 \<or> m' = m")
  case False
  with packed_write_cases [OF w] obtain off where bs: "bs \<noteq> []"
    and off: "gpa_range_to_offset (pm_size m) a (length bs) = Some off"
    and m': "m' = packed_store m off bs" by blast
  have "packed_view m' (off' + j) = packed_view m (off' + j)"
    if "gpa_range_to_offset (pm_size m) b n = Some off'" "j < n" for off' j
    using gpa_ranges_disjoint [OF off that(1) _ _ dis that(2)] False that(2) bs
    by (auto simp: m' packed_store_view)
  then show ?thesis
    by (cases "gpa_range_to_offset (pm_size m) b n") (simp_all add: packed_read_def m')
qed (auto simp: packed_read_def)

lemma packed_read_back:
  assumes "packed_write m a bs = (True, m')"
  shows "packed_read m' a (length bs) = Some bs"
proof (cases "bs = []")
  case False
  with packed_write_cases [OF assms] obtain off
    where off: "gpa_range_to_offset (pm_size m) a (length bs) = Some off"
      and m': "m' = packed_store m off bs" by blast
  have "map (\<lambda>i. packed_view m' (off + i)) [0..<length bs] = bs"
    by (rule nth_equalityI) (simp_all add: m' packed_store_view)
  with off False show ?thesis by (simp add: packed_read_def m')
qed (simp add: packed_read_def)

lemma packed_drop_dropped:
  "dropped packed_host m off len src (packed_drop m off len src)"
  by (simp add: dropped_def packed_drop_def packed_host_def)

interpretation packed: host_mm packed_ops packed_host
proof unfold_locales
  fix m a n bs assume "rd packed_ops m a n = Some bs"
  then show "length bs = n" by (auto simp: packed_ops_def packed_read_def split: if_splits)
next
  fix m a n bs i assume r: "rd packed_ops m a n = Some bs" and i: "i < n"
  then obtain off where off: "gpa_range_to_offset (pm_size m) a n = Some off"
    and bs: "bs = map (\<lambda>i. packed_view m (off + i)) [0..<n]"
    by (auto simp: packed_ops_def packed_read_def split: if_splits)
  have "gpa_range_to_offset (pm_size m) (a + i) 1 = Some (off + i)"
    using gpa_range_sub [OF off, of "a + i" 1] i by simp
  then show "rd packed_ops m (a + i) 1 = Some [bs ! i]"
    using bs i by (simp add: packed_ops_def packed_read_def)
next
  fix m a n assume "chk packed_ops m a n" "0 < n"
  then show "\<exists>bs. rd packed_ops m a n = Some bs"
    by (auto simp: packed_ops_def packed_check_def packed_read_def)
next
  fix m a n b k assume "chk packed_ops m a n" "a \<le> b" "b + k \<le> a + n" "0 < k"
  then show "chk packed_ops m b k"
    using gpa_range_sub [of "pm_size m" a n _ b k]
    by (cases "gpa_range_to_offset (pm_size m) a n") (simp_all add: packed_ops_def packed_check_def)
next
  fix m a and bs :: "byte list" assume "chk packed_ops m a (length bs)" "bs \<noteq> []"
  then show "fst (wr packed_ops m a bs)"
    by (auto simp: packed_ops_def packed_check_def packed_write_def)
next
  fix m a bs m' assume "wr packed_ops m a bs = (True, m')" "bs \<noteq> []"
  then obtain off where "gpa_range_to_offset (pm_size m) a (length bs) = Some off"
    using packed_write_cases [of m a bs True m'] by (auto simp: packed_ops_def)
  then show "a + length bs < 2 ^ 64" by (auto simp: gpa_range_to_offset_def bind_eq_Some_conv)
next
  fix m a bs ok m' assume w: "wr packed_ops m a bs = (ok, m')"
  then have "pm_size m' = pm_size m" and "pm_mapped m' = pm_mapped m"
    using packed_write_cases [of m a bs ok m'] by (auto simp: packed_ops_def)
  then show "chk packed_ops m' = chk packed_ops m"
    and "mapped packed_host m' = mapped packed_host m \<and>
      ram_size packed_host m' = ram_size packed_host m"
    by (simp_all add: packed_ops_def packed_host_def packed_check_def fun_eq_iff)
next
  fix m a x m' assume "wr packed_ops m a [x] = (False, m')"
  then show "rd packed_ops m' = rd packed_ops m"
    using packed_write_cases [of m a "[x]" False m'] by (auto simp: packed_ops_def)
next
  fix a :: u64 and m assume "a + 1 < 2 ^ 64"
  then show "rd packed_ops m a 1 =
    map_option (\<lambda>off. [view packed_host m off]) (gpa_to_offset (ram_size packed_host m) a)"
    using gpa_range_one [of a "pm_size m"]
    by (simp add: packed_ops_def packed_read_def packed_view_def packed_host_def)
qed (simp_all add: packed_ops_def packed_read_back packed_frame packed_host_def
      packed_drop_dropped [unfolded packed_host_def])

end
