(* ===== verification/LazyPages.thy ===== *)
theory LazyPages
  imports HostMem
begin

text \<open>
  Lazy restore (\<open>vmm-memory-backend/src/uffd_restore.rs\<close>). A restored guest starts with
  its RAM missing; a handler thread resolves each missing-page fault from the snapshot
  file, checks whole chunks against an integrity manifest, and prefetches the recorded
  working set. The balloon discards pages at the same time, and a host-side reader wants
  the bytes of untouched pages without faulting them in. The theory models the shared
  state, one iteration of the handler, the discard and the reader. SHA-256 (\<open>sha\<close>) and
  the userfaultfd ioctls (\<open>U\<close>) are parameters.
\<close>

section \<open>State\<close>

record chunk_integrity =
  ci_chunk_size :: usize
  ci_hashes :: "byte list list"
  ci_prefetch :: "u32 list"

record lazy_source =
  src_file :: hfile
  src_offset :: u64
  src_integrity :: "chunk_integrity option"
  src_zero_hash :: "byte list option"

record touched_chunks =
  tc_bits :: "64 word list"
  tc_chunks :: usize

record lazy =
  lz_base :: usize
  lz_len :: usize
  lz_discarded :: "bool list"
  lz_source :: lazy_source
  lz_touched :: "touched_chunks option"

datatype uffd_error = Userfaultfd | Uffd | Mmap | SnapshotLength u64 u64 | SnapshotRange u64 u64
  | UffdIo io_error

subsection \<open>The set of touched chunks\<close>

definition touched_mark :: "usize \<Rightarrow> touched_chunks \<Rightarrow> touched_chunks" where
  "touched_mark chunk t =
     (if chunk < tc_chunks t
      then t\<lparr>tc_bits := (tc_bits t)[chunk div 64 :=
             tc_bits t ! (chunk div 64) OR push_bit (chunk mod 64) 1]\<rparr>
      else t)"

definition touched_new :: "usize \<Rightarrow> u32 list \<Rightarrow> touched_chunks" where
  "touched_new chunks initial =
     fold touched_mark initial \<lparr>tc_bits = replicate (div_ceil chunks 64) 0, tc_chunks = chunks\<rparr>"

text \<open>The index of the lowest set bit, 64 for zero (\<open>trailing_zeros\<close>).\<close>

definition trailing_zeros :: "64 word \<Rightarrow> nat" where
  "trailing_zeros w = (case find (bit w) [0..<64] of None \<Rightarrow> 64 | Some k \<Rightarrow> k)"

function word_indices :: "nat \<Rightarrow> 64 word \<Rightarrow> u32 list" where
  "word_indices word_index w =
     (if w = 0 then []
      else
        let i = word_index * 64 + trailing_zeros w; rest = word_indices word_index (w AND (w - 1))
        in if i < 2 ^ 32 then i # rest else rest)"
  by pat_completeness auto

lemma and_less_word: "w \<noteq> 0 \<Longrightarrow> w AND (w - 1) < (w :: 64 word)"
proof -
  assume "w \<noteq> 0"
  then have "unat w \<noteq> 0" by (simp add: unat_eq_0)
  then have "w - 1 < w" using \<open>w \<noteq> 0\<close> by (simp add: word_less_nat_alt unat_minus_one)
  moreover have "w AND (w - 1) \<le> w - 1" by (rule word_and_le1)
  ultimately show ?thesis by simp
qed

termination word_indices
  by (relation "measure (\<lambda>(_, w). unat w)") (simp_all add: and_less_word unat_mono)

declare word_indices.simps [simp del]

definition touched_indices :: "touched_chunks \<Rightarrow> u32 list" where
  "touched_indices t =
     concat (map (\<lambda>(word_index, w). word_indices word_index w) (enumerate 0 (tc_bits t)))"

definition working_set :: "lazy \<Rightarrow> u32 list" where
  "working_set lz = (case lz_touched lz of None \<Rightarrow> [] | Some t \<Rightarrow> touched_indices t)"

section \<open>Reading untouched pages\<close>

definition UNTOUCHED_READ_CHUNK :: usize where "UNTOUCHED_READ_CHUNK = 2 * 1024 * 1024"

definition untouched_chunk :: "lazy \<Rightarrow> usize" where
  "untouched_chunk lz =
     (case src_integrity (lz_source lz) of
        None \<Rightarrow> UNTOUCHED_READ_CHUNK
      | Some ci \<Rightarrow> ci_chunk_size ci)"

definition chunk_sha256_matches ::
  "(byte list \<Rightarrow> byte list) \<Rightarrow> byte list \<Rightarrow> byte list \<Rightarrow> bool" where
  "chunk_sha256_matches sha bytes expected \<longleftrightarrow> sha bytes = expected"

text \<open>\<open>get(page).copied().unwrap_or(false)\<close>\<close>

definition page_discarded :: "bool list \<Rightarrow> nat \<Rightarrow> bool" where
  "page_discarded d p \<longleftrightarrow> p < length d \<and> d ! p"

text \<open>Zero the discarded pages of a run of bytes that starts at page \<open>first\<close>.\<close>

definition zero_discarded :: "bool list \<Rightarrow> nat \<Rightarrow> byte list \<Rightarrow> byte list" where
  "zero_discarded d first bytes =
     map (\<lambda>(i, b). if page_discarded d (first + i div PAGE_SIZE) then 0 else b) (enumerate 0 bytes)"

text \<open>
  One chunk of \<open>len\<close> bytes at guest offset \<open>at\<close>, \<open>len\<close> short only for the last
  chunk of the buffer.
\<close>

definition read_chunk ::
  "(byte list \<Rightarrow> byte list) \<Rightarrow> lazy_source \<Rightarrow> chunk_integrity \<Rightarrow> usize \<Rightarrow> usize \<Rightarrow>
   uffd_error + byte list" where
  "read_chunk sha src ci at len =
     (let chunk = ci_chunk_size ci; chunk_index = at div chunk in
      if length (ci_hashes ci) \<le> chunk_index then Err Uffd
      else
        let expected = ci_hashes ci ! chunk_index in
        if len = chunk \<and> src_zero_hash src = Some expected then Ok (replicate len 0)
        else
          case read_exact_at (src_file src) (src_offset src + at) len of
            Inl e \<Rightarrow> Err (UffdIo e)
          | Inr bytes \<Rightarrow> if chunk_sha256_matches sha bytes expected then Ok bytes else Err Uffd)"

text \<open>The chunks of a buffer, in order (\<open>chunks_mut\<close>).\<close>

function read_chunks ::
  "(byte list \<Rightarrow> byte list) \<Rightarrow> lazy_source \<Rightarrow> chunk_integrity \<Rightarrow> usize \<Rightarrow> usize \<Rightarrow>
   uffd_error + byte list" where
  "read_chunks sha src ci at len =
     (if len = 0 \<or> ci_chunk_size ci = 0 then Ok []
      else
        let n = min (ci_chunk_size ci) len in
        bindR (read_chunk sha src ci at n) (\<lambda>bytes.
        bindR (read_chunks sha src ci (at + n) (len - n)) (\<lambda>rest.
        Ok (bytes @ rest))))"
  by pat_completeness auto

termination read_chunks
  by (relation "measure (\<lambda>(_, _, _, _, len). len)") auto

declare read_chunks.simps [simp del]

definition read_untouched ::
  "(byte list \<Rightarrow> byte list) \<Rightarrow> lazy \<Rightarrow> usize \<Rightarrow> usize \<Rightarrow> uffd_error + byte list" where
  "read_untouched sha lz offset len =
     (let chunk = untouched_chunk lz; src = lz_source lz in
      bindR (ok_or (checked_add 64 offset len) Uffd) (\<lambda>fin.
      if lz_len lz < fin then Err Uffd
      else if offset mod chunk \<noteq> 0 \<or> (len mod chunk \<noteq> 0 \<and> fin \<noteq> lz_len lz) then Err Uffd
      else
        bindR (case src_integrity src of
                 Some ci \<Rightarrow> read_chunks sha src ci offset len
               | None \<Rightarrow>
                   (case read_exact_at (src_file src) (src_offset src + offset) len of
                      Inl e \<Rightarrow> Err (UffdIo e)
                    | Inr bytes \<Rightarrow> Ok bytes)) (\<lambda>bytes.
        Ok (zero_discarded (lz_discarded lz) (offset div PAGE_SIZE) bytes))))"

section \<open>Discarding pages\<close>

text \<open>The argument check at the start of \<open>discard\<close>.\<close>

definition discard_valid :: "lazy \<Rightarrow> usize \<Rightarrow> usize \<Rightarrow> bool" where
  "discard_valid lz offset len \<longleftrightarrow>
     \<not> (len = 0 \<or> \<not> page_aligned offset \<or> \<not> page_aligned len \<or>
        (case checked_add 64 offset len of None \<Rightarrow> True | Some fin \<Rightarrow> lz_len lz < fin))"

text \<open>Setting the bits, under the bitmap's lock; \<open>None\<close> is an index panic.\<close>

primrec mark_pages :: "nat list \<Rightarrow> bool list \<Rightarrow> bool list option" where
  "mark_pages [] d = Some d"
| "mark_pages (p # ps) d = (if p < length d then mark_pages ps (d[p := True]) else None)"

definition discard_mark :: "usize \<Rightarrow> usize \<Rightarrow> lazy \<Rightarrow> lazy option" where
  "discard_mark offset len lz =
     map_option (\<lambda>d. lz\<lparr>lz_discarded := d\<rparr>)
       (mark_pages [offset div PAGE_SIZE..<(offset + len) div PAGE_SIZE] (lz_discarded lz))"

text \<open>One page: skip it unless resident, else drop it.\<close>

definition discard_page :: "'m host_ops \<Rightarrow> nat \<Rightarrow> 'm \<Rightarrow> uffd_error + 'm" where
  "discard_page H page m =
     (case mincore H m page of
        None \<Rightarrow> Err Uffd
      | Some False \<Rightarrow> Ok m
      | Some True \<Rightarrow> ok_or (dontneed H m (page * PAGE_SIZE) PAGE_SIZE) Uffd)"

text \<open>
  The loop over the pages; on an error the pages already dropped stay dropped. The
  addresses are checked against overflow from the mapping's base.
\<close>

primrec discard_pages ::
  "'m host_ops \<Rightarrow> usize \<Rightarrow> nat list \<Rightarrow> 'm \<Rightarrow> (uffd_error + unit) \<times> 'm" where
  "discard_pages H base [] m = (Ok (), m)"
| "discard_pages H base (p # ps) m =
     (if 2 ^ 64 \<le> base + p * PAGE_SIZE then (Err Uffd, m)
      else case discard_page H p m of
        Inl e \<Rightarrow> (Err e, m)
      | Inr m' \<Rightarrow> discard_pages H base ps m')"

definition discard ::
  "'m host_ops \<Rightarrow> usize \<Rightarrow> usize \<Rightarrow> lazy \<Rightarrow> 'm \<Rightarrow> ((uffd_error + unit) \<times> lazy \<times> 'm) option" where
  "discard H offset len lz m =
     (if \<not> discard_valid lz offset len then Some (Err Uffd, lz, m)
      else
        map_option (\<lambda>lz'.
          case discard_pages H (lz_base lz) [offset div PAGE_SIZE..<(offset + len) div PAGE_SIZE] m of
            (r, m') \<Rightarrow> (r, lz', m'))
          (discard_mark offset len lz))"

section \<open>Starting a lazy restore\<close>

definition is_power_of_two :: "usize \<Rightarrow> bool" where
  "is_power_of_two n \<longleftrightarrow> n \<noteq> 0 \<and> n AND (n - 1) = 0"

definition integrity_valid :: "usize \<Rightarrow> usize \<Rightarrow> chunk_integrity \<Rightarrow> bool" where
  "integrity_valid page_size guest_len ci \<longleftrightarrow>
     \<not> (ci_chunk_size ci < page_size \<or> \<not> is_power_of_two (ci_chunk_size ci) \<or>
        ci_chunk_size ci mod page_size \<noteq> 0) \<and>
     length (ci_hashes ci) = div_ceil guest_len (ci_chunk_size ci) \<and>
     \<not> list_ex (\<lambda>chunk. div_ceil guest_len (ci_chunk_size ci) \<le> chunk) (ci_prefetch ci)"

text \<open>
  The checks of \<open>start_lazy_restore_with_integrity\<close> and the shared state it builds.
  The calls that map the snapshot, create and register the userfaultfd and start the
  thread succeed or fail as a whole, \<open>arm\<close>.
\<close>

definition start_lazy_restore ::
  "(byte list \<Rightarrow> byte list) \<Rightarrow> (uffd_error + unit) \<Rightarrow> usize \<Rightarrow> usize \<Rightarrow> usize \<Rightarrow> hfile \<Rightarrow> u64 \<Rightarrow> u64 \<Rightarrow>
   chunk_integrity option \<Rightarrow> uffd_error + lazy" where
  "start_lazy_restore sha arm page_size guest_base guest_len snapshot snapshot_offset snapshot_len
     integrity =
     (if guest_base = 0 \<or> guest_len = 0 then Err Uffd
      else if snapshot_len \<noteq> guest_len then Err (SnapshotLength guest_len snapshot_len)
      else
        bindR (ok_or (checked_add 64 snapshot_offset snapshot_len) Mmap) (\<lambda>snapshot_end.
        if length snapshot < snapshot_end
        then Err (SnapshotRange snapshot_end (length snapshot))
        else if guest_base mod page_size \<noteq> 0 \<or> guest_len mod page_size \<noteq> 0 then Err Uffd
        else if (case integrity of
                   None \<Rightarrow> False
                 | Some ci \<Rightarrow> \<not> integrity_valid page_size guest_len ci) then Err Uffd
        else
          bindR arm (\<lambda>_.
          Ok \<lparr>lz_base = guest_base, lz_len = guest_len,
              lz_discarded = replicate (div_ceil guest_len 4096) False,
              lz_source = \<lparr>src_file = snapshot, src_offset = snapshot_offset,
                           src_integrity = integrity,
                           src_zero_hash = map_option (\<lambda>ci. sha (replicate (ci_chunk_size ci) 0))
                                             integrity\<rparr>,
              lz_touched = map_option (\<lambda>ci. touched_new (length (ci_hashes ci)) (ci_prefetch ci))
                             integrity\<rparr>)))"

section \<open>The fault handler\<close>

datatype errno = EAGAIN | EINTR | EEXIST | EINVAL | ENOTTY | EOPNOTSUPP | EOTHER

text \<open>
  The two ioctls, on offsets from the registered base: \<open>None\<close> is success. Messages
  are read as raw bytes.
\<close>

record 'm uffd_ops =
  uffdio_copy :: "'m \<Rightarrow> usize \<Rightarrow> byte list \<Rightarrow> errno option \<times> 'm"
  uffdio_zeropage :: "'m \<Rightarrow> usize \<Rightarrow> usize \<Rightarrow> errno option \<times> 'm"

text \<open>The loop's own variables and what it shares with the rest of the process.\<close>

record handler =
  hd_pending :: "u64 list"
  hd_prefetch :: "usize list"
  hd_served :: "64 word list"
  hd_zeropage :: bool
  hd_dirty :: "dirty_bitmap option"
  hd_pages_served :: u64

datatype flow = Continue | Stop | Exit78

record 'm lazy_vm =
  vm_lazy :: lazy
  vm_handler :: handler
  vm_mem :: 'm

definition handler_init :: "dirty_bitmap option \<Rightarrow> lazy \<Rightarrow> handler" where
  "handler_init host_dirty lz =
     \<lparr>hd_pending = [],
      hd_prefetch = (case src_integrity (lz_source lz) of
          None \<Rightarrow> []
        | Some ci \<Rightarrow> map (\<lambda>chunk. lz_base lz + chunk * ci_chunk_size ci) (ci_prefetch ci)),
      hd_served = replicate (case src_integrity (lz_source lz) of
          None \<Rightarrow> 0
        | Some ci \<Rightarrow> div_ceil (length (ci_hashes ci)) 64) 0,
      hd_zeropage = True, hd_dirty = host_dirty, hd_pages_served = 0\<rparr>"

subsection \<open>Draining the event queue\<close>

datatype uffd_read = ReadMsg "byte list" | ReadErr errno

definition msg_u64 :: "byte list \<Rightarrow> nat \<Rightarrow> u64" where
  "msg_u64 msg off = from_le (take 8 (drop off msg))"

text \<open>
  The inner loop over the results of \<open>read\<close>: \<open>None\<close> when the handler returns. A
  queue whose results run out stands for \<open>EAGAIN\<close>.
\<close>

fun drain_events :: "lazy \<Rightarrow> uffd_read list \<Rightarrow> u64 list \<Rightarrow> u64 list option" where
  "drain_events lz [] pending = Some pending"
| "drain_events lz (ReadErr e # rs) pending =
     (if e = EAGAIN then Some pending
      else if e = EINTR then drain_events lz rs pending
      else None)"
| "drain_events lz (ReadMsg msg # rs) pending =
     (if length msg \<noteq> 32 then None
      else if msg ! 0 = 0x12 then drain_events lz rs (pending @ [msg_u64 msg 16])
      else if msg ! 0 = 0x15 then
        let start = msg_u64 msg 8; fin = msg_u64 msg 16 in
        if 2 ^ 64 \<le> lz_base lz + lz_len lz then None
        else if fin \<le> start \<or> start < lz_base lz \<or> lz_base lz + lz_len lz < fin then None
        else drain_events lz rs pending
      else None)"

subsection \<open>Resolving one fault\<close>

text \<open>\<open>x & !(n - 1)\<close>\<close>

definition align_down :: "usize \<Rightarrow> usize \<Rightarrow> usize" where
  "align_down x n = x - (x AND (n - 1))"

record fault_plan =
  fp_page :: usize \<comment> \<open>\<open>page_offset\<close>\<close>
  fp_copy :: usize \<comment> \<open>\<open>copy_offset\<close>\<close>
  fp_len :: usize  \<comment> \<open>\<open>copy_len\<close>\<close>

definition plan_fault :: "lazy \<Rightarrow> u64 \<Rightarrow> fault_plan option" where
  "plan_fault lz fault_addr =
     (if 2 ^ 64 \<le> lz_base lz + lz_len lz then None
      else if fault_addr < lz_base lz \<or> lz_base lz + lz_len lz \<le> fault_addr then None
      else
        let guest_offset = fault_addr - lz_base lz;
            page_offset = align_down guest_offset PAGE_SIZE;
            copy_offset = (case src_integrity (lz_source lz) of
                None \<Rightarrow> page_offset
              | Some ci \<Rightarrow> align_down page_offset (ci_chunk_size ci));
            copy_len = (case src_integrity (lz_source lz) of
                None \<Rightarrow> PAGE_SIZE
              | Some ci \<Rightarrow> min (ci_chunk_size ci) (lz_len lz - copy_offset))
        in if 2 ^ 64 \<le> copy_offset + copy_len \<or> lz_len lz < copy_offset + copy_len \<or>
              copy_len mod PAGE_SIZE \<noteq> 0 \<or> 2 ^ 64 \<le> lz_base lz + copy_offset then None
           else Some \<lparr>fp_page = page_offset, fp_copy = copy_offset, fp_len = copy_len\<rparr>)"

record 'm resolved =
  rs_errno :: "errno option"
  rs_off :: usize
  rs_len :: usize
  rs_mem :: 'm

text \<open>
  Resolve the whole copy range; when part of it is resident already, resolve only the
  faulting page. A prefetch has no faulting page and does not fall back.
\<close>

definition resolve ::
  "('m \<Rightarrow> usize \<Rightarrow> usize \<Rightarrow> errno option \<times> 'm) \<Rightarrow> bool \<Rightarrow> fault_plan \<Rightarrow> 'm \<Rightarrow> 'm resolved" where
  "resolve ioctl prefetching fp m =
     (case ioctl m (fp_copy fp) (fp_len fp) of (rc, m1) \<Rightarrow>
        if rc = Some EEXIST \<and> \<not> prefetching \<and> PAGE_SIZE < fp_len fp
        then (case ioctl m1 (fp_page fp) PAGE_SIZE of (rc', m2) \<Rightarrow>
                \<lparr>rs_errno = rc', rs_off = fp_page fp, rs_len = PAGE_SIZE, rs_mem = m2\<rparr>)
        else \<lparr>rs_errno = rc, rs_off = fp_copy fp, rs_len = fp_len fp, rs_mem = m1\<rparr>)"

definition copy_ioctl ::
  "'m uffd_ops \<Rightarrow> usize \<Rightarrow> byte list \<Rightarrow> 'm \<Rightarrow> usize \<Rightarrow> usize \<Rightarrow> errno option \<times> 'm" where
  "copy_ioctl U copy_offset bytes m off len =
     uffdio_copy U m off (take len (drop (off - copy_offset) bytes))"

definition any_discarded :: "lazy \<Rightarrow> fault_plan \<Rightarrow> bool" where
  "any_discarded lz fp \<longleftrightarrow>
     list_ex (page_discarded (lz_discarded lz))
       [fp_copy fp div PAGE_SIZE..<fp_copy fp div PAGE_SIZE + fp_len fp div PAGE_SIZE]"

text \<open>\<open>None\<close> is an out-of-range index into the manifest, a panic of the handler.\<close>

definition expected_hash :: "chunk_integrity \<Rightarrow> usize \<Rightarrow> byte list option" where
  "expected_hash ci copy_offset =
     (let i = copy_offset div ci_chunk_size ci
      in if i < length (ci_hashes ci) then Some (ci_hashes ci ! i) else None)"

definition zero_chunk :: "lazy \<Rightarrow> usize \<Rightarrow> usize \<Rightarrow> bool" where
  "zero_chunk lz copy_offset copy_len \<longleftrightarrow>
     (case src_integrity (lz_source lz) of
        None \<Rightarrow> False
      | Some ci \<Rightarrow> copy_len = ci_chunk_size ci \<and>
          src_zero_hash (lz_source lz) = expected_hash ci copy_offset)"

text \<open>
  The bytes to install: the snapshot's, verified as a whole when there is a manifest,
  with the discarded pages zeroed after the check. \<open>None\<close> when they do not verify.
\<close>

definition chunk_bytes ::
  "(byte list \<Rightarrow> byte list) \<Rightarrow> byte list \<Rightarrow> lazy \<Rightarrow> fault_plan \<Rightarrow> byte list option" where
  "chunk_bytes sha snap lz fp =
     (let bytes = take (fp_len fp) (drop (fp_copy fp) snap);
          verified = (case src_integrity (lz_source lz) of
              None \<Rightarrow> True
            | Some ci \<Rightarrow> (case expected_hash ci (fp_copy fp) of
                None \<Rightarrow> False
              | Some expected \<Rightarrow> chunk_sha256_matches sha bytes expected))
      in if \<not> verified then None
         else if any_discarded lz fp
         then Some (zero_discarded (lz_discarded lz) (fp_copy fp div PAGE_SIZE) bytes)
         else Some bytes)"

definition served_bit :: "64 word list \<Rightarrow> nat \<Rightarrow> bool" where
  "served_bit ws chunk \<longleftrightarrow>
     chunk div 64 < length ws \<and> ws ! (chunk div 64) AND push_bit (chunk mod 64) 1 \<noteq> 0"

definition set_served :: "nat \<Rightarrow> 64 word list \<Rightarrow> 64 word list" where
  "set_served chunk ws =
     (if chunk div 64 < length ws
      then ws[chunk div 64 := ws ! (chunk div 64) OR push_bit (chunk mod 64) 1] else ws)"

text \<open>What the handler records once the ioctl has returned.\<close>

definition finish_fault ::
  "u64 \<Rightarrow> bool \<Rightarrow> fault_plan \<Rightarrow> 'm resolved \<Rightarrow> 'm lazy_vm \<Rightarrow> flow \<times> 'm lazy_vm" where
  "finish_fault fault_addr prefetching fp rs vm =
     (let hd = vm_handler vm; lz = vm_lazy vm; vm' = vm\<lparr>vm_mem := rs_mem rs\<rparr> in
      case rs_errno rs of
        Some e \<Rightarrow>
          if prefetching then
            (Continue, vm'\<lparr>vm_handler :=
               (if e = EAGAIN then hd\<lparr>hd_prefetch := fault_addr # hd_prefetch hd\<rparr>
                else if e = EEXIST then hd
                else hd\<lparr>hd_prefetch := []\<rparr>)\<rparr>)
          else if e = EAGAIN
          then (Continue, vm'\<lparr>vm_handler := hd\<lparr>hd_pending := hd_pending hd @ [fault_addr]\<rparr>\<rparr>)
          else if e = EEXIST then (Continue, vm')
          else (Exit78, vm')
      | None \<Rightarrow>
          let served = (case src_integrity (lz_source lz) of
                  None \<Rightarrow> hd_served hd
                | Some ci \<Rightarrow> if rs_len rs = fp_len fp
                    then set_served (rs_off rs div ci_chunk_size ci) (hd_served hd)
                    else hd_served hd);
              touched = (case src_integrity (lz_source lz) of
                  None \<Rightarrow> lz_touched lz
                | Some ci \<Rightarrow>
                    map_option (touched_mark (rs_off rs div ci_chunk_size ci)) (lz_touched lz))
          in (Continue, vm'\<lparr>
               vm_lazy := lz\<lparr>lz_touched := touched\<rparr>,
               vm_handler := hd\<lparr>
                 hd_dirty := map_option (mark_range (rs_off rs) (rs_len rs)) (hd_dirty hd),
                 hd_served := served,
                 hd_pages_served :=
                   wrapping_add 64 (hd_pages_served hd) (rs_len rs div PAGE_SIZE)\<rparr>\<rparr>))"

definition serve ::
  "'m uffd_ops \<Rightarrow> (byte list \<Rightarrow> byte list) \<Rightarrow> byte list \<Rightarrow> u64 \<Rightarrow> bool \<Rightarrow> 'm lazy_vm \<Rightarrow>
   flow \<times> 'm lazy_vm" where
  "serve U sha snap fault_addr prefetching vm =
     (let lz = vm_lazy vm; hd = vm_handler vm; m = vm_mem vm in
      case plan_fault lz fault_addr of
        None \<Rightarrow> (Stop, vm)
      | Some fp \<Rightarrow>
          if hd_zeropage hd \<and> zero_chunk lz (fp_copy fp) (fp_len fp) then
            let rs = resolve (uffdio_zeropage U) prefetching fp m in
            if rs_errno rs \<in> {Some EINVAL, Some ENOTTY, Some EOPNOTSUPP} then
              (Continue, vm\<lparr>vm_mem := rs_mem rs, vm_handler :=
                 (if prefetching
                  then hd\<lparr>hd_zeropage := False, hd_prefetch := fault_addr # hd_prefetch hd\<rparr>
                  else hd\<lparr>hd_zeropage := False, hd_pending := hd_pending hd @ [fault_addr]\<rparr>)\<rparr>)
            else finish_fault fault_addr prefetching fp rs vm
          else if prefetching \<and> any_discarded lz fp then (Continue, vm)
          else
            case chunk_bytes sha snap lz fp of
              None \<Rightarrow> (Exit78, vm)
            | Some bytes \<Rightarrow>
                finish_fault fault_addr prefetching fp
                  (resolve (copy_ioctl U (fp_copy fp) bytes) prefetching fp m) vm)"

text \<open>The part of an iteration after the event queue is drained.\<close>

definition serve_next ::
  "'m uffd_ops \<Rightarrow> (byte list \<Rightarrow> byte list) \<Rightarrow> byte list \<Rightarrow> 'm lazy_vm \<Rightarrow> flow \<times> 'm lazy_vm" where
  "serve_next U sha snap vm =
     (let hd = vm_handler vm; lz = vm_lazy vm in
      case hd_pending hd of
        fault_addr # rest \<Rightarrow>
          serve U sha snap fault_addr False (vm\<lparr>vm_handler := hd\<lparr>hd_pending := rest\<rparr>\<rparr>)
      | [] \<Rightarrow>
          (case hd_prefetch hd of
             [] \<Rightarrow> (Continue, vm)
           | chunk_addr # rest \<Rightarrow>
               let vm' = vm\<lparr>vm_handler := hd\<lparr>hd_prefetch := rest\<rparr>\<rparr>;
                   chunk = (case src_integrity (lz_source lz) of
                       None \<Rightarrow> 0
                     | Some ci \<Rightarrow> (chunk_addr - lz_base lz) div ci_chunk_size ci)
               in if served_bit (hd_served hd) chunk then (Continue, vm')
                  else serve U sha snap chunk_addr True vm'))"

text \<open>
  One iteration: the two looks at the shutdown flag, the outcome of \<open>poll\<close> (its return
  value, whether it failed with \<open>EINTR\<close>, and the events on the two descriptors), and
  the results of draining the queue.
\<close>

record poll_input =
  pi_shutdown :: bool
  pi_rc :: int
  pi_eintr :: bool
  pi_wake :: bool
  pi_wake_shutdown :: bool
  pi_hangup :: bool
  pi_readable :: bool
  pi_reads :: "uffd_read list"

definition handler_iteration ::
  "'m uffd_ops \<Rightarrow> (byte list \<Rightarrow> byte list) \<Rightarrow> byte list \<Rightarrow> poll_input \<Rightarrow> 'm lazy_vm \<Rightarrow>
   flow \<times> 'm lazy_vm" where
  "handler_iteration U sha snap inp vm =
     (if pi_shutdown inp then (Stop, vm)
      else if pi_wake inp \<and> pi_wake_shutdown inp then (Stop, vm)
      else if pi_rc inp < 0 then (if pi_eintr inp then Continue else Stop, vm)
      else if pi_rc inp = 0 \<and> hd_pending (vm_handler vm) = [] \<and> hd_prefetch (vm_handler vm) = []
      then (Continue, vm)
      else if pi_hangup inp then (Stop, vm)
      else if 0 < pi_rc inp \<and> pi_readable inp then
        (case drain_events (vm_lazy vm) (pi_reads inp) (hd_pending (vm_handler vm)) of
           None \<Rightarrow> (Stop, vm)
         | Some pending \<Rightarrow>
             serve_next U sha snap (vm\<lparr>vm_handler := (vm_handler vm)\<lparr>hd_pending := pending\<rparr>\<rparr>))
      else serve_next U sha snap vm)"

end
