(* ===== verification/LazyProofs.thy ===== *)
theory LazyProofs
  imports LazyPages
begin

text \<open>
  What lazy restore shows the guest. The logical content of RAM (\<open>lazy_view\<close>) is a
  resident page's bytes, zero for a discarded missing page, and the snapshot's bytes for
  any other. Resolving faults and prefetching leave it alone, a discard zeroes exactly its
  range, the host-side reader returns it, and with a manifest only verified bytes are ever
  installed.
\<close>

section \<open>Powers of two and alignment\<close>

lemma power_of_two_exp: "is_power_of_two n \<Longrightarrow> \<exists>k. n = 2 ^ k"
proof (induction n rule: less_induct)
  case (less n)
  then have n: "n \<noteq> 0" "n AND (n - 1) = 0" by (simp_all add: is_power_of_two_def)
  show ?case
  proof (cases "odd n")
    case True
    then obtain m where m: "n = 2 * m + 1" by (elim oddE)
    have "m AND m = 0" using n(2) by (subst (asm) and_rec) (simp add: m)
    then show ?thesis using m by (intro exI [of _ 0]) simp
  next
    case False
    then obtain m where m: "n = 2 * m" by auto
    have "(n - 1) div 2 = m - 1" using m n(1) by presburger
    then have "m AND (m - 1) = 0" using n m by (subst (asm) and_rec) simp
    then have "is_power_of_two m" using n(1) m by (simp add: is_power_of_two_def)
    then obtain k where "m = 2 ^ k" using less.IH [of m] m n(1) by auto
    then show ?thesis using m by (intro exI [of _ "Suc k"]) simp
  qed
qed

lemma align_down_eq: "is_power_of_two n \<Longrightarrow> align_down x n = x div n * n"
proof -
  assume "is_power_of_two n"
  then obtain k where k: "n = 2 ^ k" using power_of_two_exp by blast
  have "x AND (2 ^ k - 1) = x mod 2 ^ k"
    by (simp add: take_bit_eq_mod [symmetric] take_bit_eq_mask mask_eq_exp_minus_1)
  then show ?thesis by (simp add: align_down_def k minus_mod_eq_div_mult)
qed

lemma page_size_power: "is_power_of_two PAGE_SIZE"
  by (simp add: is_power_of_two_def PAGE_SIZE_def)

section \<open>The shared state\<close>

definition lazy_inv :: "(byte list \<Rightarrow> byte list) \<Rightarrow> lazy \<Rightarrow> bool" where
  "lazy_inv sha lz \<longleftrightarrow>
     page_aligned (lz_len lz) \<and> lz_base lz + lz_len lz < 2 ^ 64 \<and>
     length (lz_discarded lz) = lz_len lz div PAGE_SIZE \<and>
     src_offset (lz_source lz) + lz_len lz \<le> length (src_file (lz_source lz)) \<and>
     (case src_integrity (lz_source lz) of
        None \<Rightarrow> src_zero_hash (lz_source lz) = None
      | Some ci \<Rightarrow> is_power_of_two (ci_chunk_size ci) \<and> page_aligned (ci_chunk_size ci) \<and>
          length (ci_hashes ci) = div_ceil (lz_len lz) (ci_chunk_size ci) \<and>
          src_zero_hash (lz_source lz) = Some (sha (replicate (ci_chunk_size ci) 0)))"

text \<open>The snapshot as the handler's mapping shows it.\<close>

definition snapshot :: "lazy \<Rightarrow> byte list" where
  "snapshot lz = take (lz_len lz) (drop (src_offset (lz_source lz)) (src_file (lz_source lz)))"

lemma start_lazy_restore_Ok:
  assumes "start_lazy_restore sha arm page_size base len file off slen ci = Ok lz"
  shows "len mod page_size = 0" "off + len \<le> length file"
    "\<And>c. ci = Some c \<Longrightarrow> integrity_valid page_size len c"
    "lz_base lz = base" "lz_len lz = len" "lz_discarded lz = replicate (div_ceil len 4096) False"
    "lz_source lz = \<lparr>src_file = file, src_offset = off, src_integrity = ci,
       src_zero_hash = map_option (\<lambda>ci. sha (replicate (ci_chunk_size ci) 0)) ci\<rparr>"
  using assms
  by (auto simp: start_lazy_restore_def checked_add_def ok_or_def bindR_def split: if_splits sum.splits)

lemma start_lazy_restore_inv:
  assumes ok: "start_lazy_restore sha arm page_size base len file off slen ci = Ok lz"
    and "page_aligned page_size" "0 < page_size" and "base + len < 2 ^ 64"
  shows "lazy_inv sha lz" and "lz_discarded lz = replicate (len div PAGE_SIZE) False"
proof -
  have ps: "PAGE_SIZE dvd page_size" using assms(2) by (simp add: page_aligned_def mod_eq_0_iff_dvd)
  have al: "PAGE_SIZE dvd len"
    using start_lazy_restore_Ok(1) [OF ok] by (auto simp: mod_eq_0_iff_dvd intro: dvd_trans [OF ps])
  then have "div_ceil len 4096 = len div PAGE_SIZE" by (auto simp: div_ceil_def PAGE_SIZE_def)
  then show d: "lz_discarded lz = replicate (len div PAGE_SIZE) False"
    by (simp add: start_lazy_restore_Ok(6) [OF ok])
  have "page_aligned (ci_chunk_size c)" if "integrity_valid page_size len c" for c
    using that ps by (auto simp: integrity_valid_def page_aligned_def mod_eq_0_iff_dvd intro: dvd_trans)
  then show "lazy_inv sha lz"
    using al assms(4) start_lazy_restore_Ok [OF ok] d
    by (simp add: lazy_inv_def page_aligned_def integrity_valid_def split: option.splits)
qed

section \<open>The logical content of RAM\<close>

definition chunk_span :: "lazy \<Rightarrow> chunk_integrity \<Rightarrow> usize \<Rightarrow> usize" where
  "chunk_span lz ci at = min (ci_chunk_size ci) (lz_len lz - at)"

definition source_byte :: "lazy \<Rightarrow> usize \<Rightarrow> byte" where
  "source_byte lz i =
     (case src_integrity (lz_source lz) of
        None \<Rightarrow> snapshot lz ! i
      | Some ci \<Rightarrow>
          let at = i div ci_chunk_size ci * ci_chunk_size ci
          in if zero_chunk lz at (chunk_span lz ci at) then 0 else snapshot lz ! i)"

definition missing_byte :: "lazy \<Rightarrow> usize \<Rightarrow> byte" where
  "missing_byte lz i =
     (if page_discarded (lz_discarded lz) (i div PAGE_SIZE) then 0 else source_byte lz i)"

definition lazy_view :: "'m host_ops \<Rightarrow> lazy \<Rightarrow> 'm \<Rightarrow> usize \<Rightarrow> byte" where
  "lazy_view H lz m i =
     (if resident H m (i div PAGE_SIZE) then content H m i else missing_byte lz i)"

text \<open>
  Populating pages with the bytes of \<open>src\<close>: nothing resident changes, and what becomes
  resident lies in the range and has those bytes.
\<close>

definition populates ::
  "'m host_ops \<Rightarrow> usize \<Rightarrow> usize \<Rightarrow> (usize \<Rightarrow> byte) \<Rightarrow> 'm \<Rightarrow> 'm \<Rightarrow> bool" where
  "populates H off len src m m' \<longleftrightarrow>
     (\<forall>p. resident H m p \<longrightarrow> resident H m' p) \<and>
     (\<forall>i. resident H m (i div PAGE_SIZE) \<longrightarrow> content H m' i = content H m i) \<and>
     (\<forall>i. resident H m' (i div PAGE_SIZE) \<longrightarrow> \<not> resident H m (i div PAGE_SIZE) \<longrightarrow>
        off \<le> i \<and> i < off + len \<and> content H m' i = src i)"

text \<open>
  The userfaultfd contract: a call, failed or not, only populates missing pages of its range
  with the bytes it was given; a successful one leaves the whole range resident; and a
  one-page call fails with \<open>EEXIST\<close> only where the page is resident.
\<close>

locale uffd_mm =
  fixes H :: "'m host_ops" and U :: "'m uffd_ops"
  assumes copy_populates: "uffdio_copy U m off bs = (rc, m') \<Longrightarrow> page_aligned off \<Longrightarrow>
      page_aligned (length bs) \<Longrightarrow> populates H off (length bs) (\<lambda>i. bs ! (i - off)) m m'"
    and copy_ok: "uffdio_copy U m off bs = (None, m') \<Longrightarrow> page_aligned off \<Longrightarrow>
      page_aligned (length bs) \<Longrightarrow> off \<le> i \<Longrightarrow> i < off + length bs \<Longrightarrow> resident H m' (i div PAGE_SIZE)"
    and copy_exist: "uffdio_copy U m off bs = (Some EEXIST, m') \<Longrightarrow> page_aligned off \<Longrightarrow>
      length bs = PAGE_SIZE \<Longrightarrow> resident H m' (off div PAGE_SIZE)"
    and zero_populates: "uffdio_zeropage U m off len = (rc, m') \<Longrightarrow> page_aligned off \<Longrightarrow>
      page_aligned len \<Longrightarrow> populates H off len (\<lambda>_. 0) m m'"
    and zero_ok: "uffdio_zeropage U m off len = (None, m') \<Longrightarrow> page_aligned off \<Longrightarrow>
      page_aligned len \<Longrightarrow> off \<le> i \<Longrightarrow> i < off + len \<Longrightarrow> resident H m' (i div PAGE_SIZE)"
    and zero_exist: "uffdio_zeropage U m off PAGE_SIZE = (Some EEXIST, m') \<Longrightarrow> page_aligned off \<Longrightarrow>
      resident H m' (off div PAGE_SIZE)"
begin
end

lemma populates_weaken:
  assumes "populates H off len src m m'"
    and "off' \<le> off" "off + len \<le> off' + len'" and "\<And>i. off \<le> i \<Longrightarrow> i < off + len \<Longrightarrow> src i = src' i"
  shows "populates H off' len' src' m m'"
proof -
  have "off' \<le> i \<and> i < off' + len' \<and> content H m' i = src' i"
    if "resident H m' (i div PAGE_SIZE)" "\<not> resident H m (i div PAGE_SIZE)" for i
  proof -
    have "off \<le> i \<and> i < off + len \<and> content H m' i = src i"
      using assms(1) that by (simp add: populates_def)
    then show ?thesis using assms(2,3) assms(4) [of i] by simp
  qed
  then show ?thesis using assms(1) by (simp add: populates_def)
qed

lemma populates_trans:
  assumes "populates H off len src m m1" and "populates H off len src m1 m2"
  shows "populates H off len src m m2"
  using assms unfolding populates_def by metis

lemma populates_view:
  assumes "populates H off len (missing_byte lz) m m'"
  shows "lazy_view H lz m' i = lazy_view H lz m i"
  using assms by (auto simp: populates_def lazy_view_def)

section \<open>Planning a fault\<close>

definition good_plan :: "lazy \<Rightarrow> fault_plan \<Rightarrow> bool" where
  "good_plan lz fp \<longleftrightarrow>
     page_aligned (fp_page fp) \<and> page_aligned (fp_copy fp) \<and> page_aligned (fp_len fp) \<and>
     fp_copy fp \<le> fp_page fp \<and> fp_page fp + PAGE_SIZE \<le> fp_copy fp + fp_len fp \<and>
     fp_copy fp + fp_len fp \<le> lz_len lz \<and>
     (\<forall>ci. src_integrity (lz_source lz) = Some ci \<longrightarrow>
        fp_copy fp mod ci_chunk_size ci = 0 \<and> fp_len fp = chunk_span lz ci (fp_copy fp))"

lemma page_aligned_arith:
  "page_aligned a \<Longrightarrow> page_aligned b \<Longrightarrow> page_aligned (a + b)"
  "page_aligned a \<Longrightarrow> page_aligned b \<Longrightarrow> page_aligned (a - b)"
  "page_aligned a \<Longrightarrow> page_aligned b \<Longrightarrow> page_aligned (min a b)"
  "page_aligned a \<Longrightarrow> page_aligned (k * a)"
  "page_aligned PAGE_SIZE"
  by (auto simp: page_aligned_def mod_eq_0_iff_dvd min_def)

text \<open>An aligned bound above an offset is a page above the offset's page.\<close>

lemma page_below:
  assumes "page_aligned b" and "g < b"
  shows "g div PAGE_SIZE * PAGE_SIZE + PAGE_SIZE \<le> b"
proof -
  obtain k where k: "b = PAGE_SIZE * k" using assms(1) by (auto simp: page_aligned_def mod_eq_0_iff_dvd)
  then have "g div PAGE_SIZE < k" using assms(2)
    by (simp add: PAGE_SIZE_def less_mult_imp_div_less mult.commute)
  then have "(g div PAGE_SIZE + 1) * PAGE_SIZE \<le> k * PAGE_SIZE" by (intro mult_le_mono1) simp
  then show ?thesis by (simp add: k mult.commute algebra_simps)
qed

lemma div_mult_same_page:
  assumes "page_aligned c" "0 < c"
  shows "g div PAGE_SIZE * PAGE_SIZE div c = g div c"
proof -
  obtain k where k: "c = PAGE_SIZE * k" using assms(1) by (auto simp: page_aligned_def mod_eq_0_iff_dvd)
  then show ?thesis by (simp add: div_mult2_eq PAGE_SIZE_def)
qed

lemma min_span_cover:
  "c \<le> g \<Longrightarrow> g + p \<le> len \<Longrightarrow> g + p \<le> c + n \<Longrightarrow> g + p \<le> c + min n (len - c)" for c :: nat
  by (simp add: min_def)

lemma min_span_bound: "c \<le> g \<Longrightarrow> g + p \<le> len \<Longrightarrow> c + min n (len - c) \<le> len" for c :: nat
  by linarith

lemma plan_fault_good:
  assumes inv: "lazy_inv sha lz" and addr: "lz_base lz \<le> a" "a < lz_base lz + lz_len lz"
  shows "\<exists>fp. plan_fault lz a = Some fp \<and> good_plan lz fp \<and>
    fp_page fp = (a - lz_base lz) div PAGE_SIZE * PAGE_SIZE"
proof -
  define pg where "pg = (a - lz_base lz) div PAGE_SIZE * PAGE_SIZE"
  have al: "page_aligned (lz_len lz)" and ov: "lz_base lz + lz_len lz < 2 ^ 64"
    using inv by (simp_all add: lazy_inv_def)
  have pg: "page_aligned pg" by (simp add: pg_def page_aligned_def)
  have top: "pg + PAGE_SIZE \<le> lz_len lz"
    unfolding pg_def by (rule page_below [OF al]) (use addr in linarith)
  have ad: "align_down (a - lz_base lz) PAGE_SIZE = pg"
    by (simp add: align_down_eq page_size_power pg_def)
  have in_ram: "\<not> 2 ^ 64 \<le> lz_base lz + lz_len lz"
    "\<not> (a < lz_base lz \<or> lz_base lz + lz_len lz \<le> a)" using ov addr by simp_all
  note plan = plan_fault_def Let_def ad if_not_P [OF in_ram(1)] if_not_P [OF in_ram(2)]
  show ?thesis
  proof (cases "src_integrity (lz_source lz)")
    case None
    let ?fp = "\<lparr>fp_page = pg, fp_copy = pg, fp_len = PAGE_SIZE\<rparr>"
    have "plan_fault lz a = Some ?fp" unfolding plan None option.case using ov top by simp
    moreover have "good_plan lz ?fp" using pg top by (simp add: good_plan_def None page_aligned_arith)
    ultimately show ?thesis by (intro exI [of _ ?fp]) (simp add: pg_def)
  next
    case (Some ci)
    let ?c = "ci_chunk_size ci"
    define co where "co = pg div ?c * ?c"
    define n where "n = chunk_span lz ci co"
    have c: "is_power_of_two ?c" "page_aligned ?c" using inv Some by (simp_all add: lazy_inv_def)
    then have c0: "0 < ?c" by (simp add: is_power_of_two_def)
    have co: "co \<le> pg" unfolding co_def by (rule div_times_less_eq_dividend)
    have al_co: "page_aligned co" "page_aligned n"
      using c(2) al by (simp_all add: page_aligned_arith n_def chunk_span_def co_def)
    have "pg < co + ?c" using c0 unfolding co_def by (metis dividend_less_div_times add.commute)
    then have "pg div PAGE_SIZE * PAGE_SIZE + PAGE_SIZE \<le> co + ?c"
      by (rule page_below [OF page_aligned_arith(1) [OF al_co(1) c(2)]])
    then have "pg + PAGE_SIZE \<le> co + ?c" by (simp add: pg_def PAGE_SIZE_def)
    then have cover: "pg + PAGE_SIZE \<le> co + n"
      unfolding n_def chunk_span_def by (rule min_span_cover [OF co top])
    have le: "co + n \<le> lz_len lz"
      unfolding n_def chunk_span_def by (rule min_span_bound [OF co top])
    let ?fp = "\<lparr>fp_page = pg, fp_copy = co, fp_len = n\<rparr>"
    have "align_down pg ?c = co" by (simp add: align_down_eq c(1) co_def)
    then have "plan_fault lz a = Some ?fp"
      unfolding plan Some option.case using ov le al_co(2)
      by (simp add: n_def [unfolded chunk_span_def, symmetric] page_aligned_def)
    moreover have "good_plan lz ?fp" using pg al_co co cover le
      by (simp add: good_plan_def Some n_def) (simp add: co_def)
    ultimately show ?thesis by (intro exI [of _ ?fp]) (simp add: pg_def)
  qed
qed

lemma plan_fault_SomeD:
  assumes "lazy_inv sha lz" and p: "plan_fault lz a = Some fp"
  shows "good_plan lz fp" and "fp_page fp = (a - lz_base lz) div PAGE_SIZE * PAGE_SIZE"
proof -
  have "lz_base lz \<le> a" "a < lz_base lz + lz_len lz"
    using p by (auto simp: plan_fault_def split: if_splits)
  then obtain fp' where "plan_fault lz a = Some fp'" "good_plan lz fp'"
    "fp_page fp' = (a - lz_base lz) div PAGE_SIZE * PAGE_SIZE"
    using plan_fault_good [OF assms(1)] by blast
  then show "good_plan lz fp" "fp_page fp = (a - lz_base lz) div PAGE_SIZE * PAGE_SIZE"
    using p by simp_all
qed

section \<open>Serving leaves the logical content alone\<close>

text \<open>No other chunk-sized string collides with the all-zero one.\<close>

definition zero_unforgeable :: "(byte list \<Rightarrow> byte list) \<Rightarrow> lazy \<Rightarrow> bool" where
  "zero_unforgeable sha lz \<longleftrightarrow>
     (\<forall>ci bs. src_integrity (lz_source lz) = Some ci \<longrightarrow> length bs = ci_chunk_size ci \<longrightarrow>
        sha bs = sha (replicate (ci_chunk_size ci) 0) \<longrightarrow> bs = replicate (ci_chunk_size ci) 0)"

lemma length_snapshot: "lazy_inv sha lz \<Longrightarrow> length (snapshot lz) = lz_len lz"
  by (auto simp: lazy_inv_def snapshot_def)

lemma plan_chunk:
  assumes "good_plan lz fp" and "src_integrity (lz_source lz) = Some ci"
    and i: "fp_copy fp \<le> i" "i < fp_copy fp + fp_len fp"
  shows "i div ci_chunk_size ci * ci_chunk_size ci = fp_copy fp"
proof -
  obtain k where k: "fp_copy fp = ci_chunk_size ci * k"
    using assms(1,2) by (auto simp: good_plan_def mod_eq_0_iff_dvd)
  have "i < ci_chunk_size ci * k + ci_chunk_size ci"
    using assms(1,2) i by (auto simp: good_plan_def chunk_span_def k)
  then have "i div ci_chunk_size ci = k" using i(1) k by (intro div_nat_eqI) (simp_all add: mult.commute)
  then show ?thesis by (simp add: k mult.commute)
qed

lemma nth_zero_discarded:
  "i < length bs \<Longrightarrow>
   zero_discarded d first bs ! i = (if page_discarded d (first + i div PAGE_SIZE) then 0 else bs ! i)"
  by (simp add: zero_discarded_def nth_enumerate_eq)

lemma length_zero_discarded [simp]: "length (zero_discarded d first bs) = length bs"
  by (simp add: zero_discarded_def)

lemma page_of_offset:
  assumes "page_aligned c" and "c \<le> i"
  shows "c div PAGE_SIZE + (i - c) div PAGE_SIZE = i div PAGE_SIZE"
proof -
  obtain k where k: "c = PAGE_SIZE * k" using assms(1) by (auto simp: page_aligned_def mod_eq_0_iff_dvd)
  have "i = PAGE_SIZE * k + (i - c)" using assms(2) k by simp
  then have "i div PAGE_SIZE = k + (i - c) div PAGE_SIZE"
    by (metis div_mult_self2 PAGE_SIZE_def zero_neq_numeral add.commute)
  then show ?thesis by (simp add: k PAGE_SIZE_def)
qed

lemma plan_page_range:
  assumes "good_plan lz fp" and i: "fp_copy fp \<le> i" "i < fp_copy fp + fp_len fp"
  shows "i div PAGE_SIZE \<in> set [fp_copy fp div PAGE_SIZE..<fp_copy fp div PAGE_SIZE + fp_len fp div PAGE_SIZE]"
proof -
  have al: "page_aligned (fp_copy fp)" "page_aligned (fp_len fp)" using assms(1) by (simp_all add: good_plan_def)
  have "(i - fp_copy fp) div PAGE_SIZE < fp_len fp div PAGE_SIZE"
    using i al(2) by (auto simp: PAGE_SIZE_def page_aligned_def)
  then show ?thesis using page_of_offset [OF al(1) i(1)] i(1) by (simp add: div_le_mono)
qed

lemma chunk_bytes_nth:
  assumes len: "length snap = lz_len lz" and plan: "good_plan lz fp"
    and bs: "chunk_bytes sha snap lz fp = Some bs"
  shows "length bs = fp_len fp"
    and "\<And>i. fp_copy fp \<le> i \<Longrightarrow> i < fp_copy fp + fp_len fp \<Longrightarrow> bs ! (i - fp_copy fp) =
      (if page_discarded (lz_discarded lz) (i div PAGE_SIZE) then 0 else snap ! i)"
    and "\<And>ci. src_integrity (lz_source lz) = Some ci \<Longrightarrow>
      expected_hash ci (fp_copy fp) = Some (sha (take (fp_len fp) (drop (fp_copy fp) snap)))"
proof -
  let ?raw = "take (fp_len fp) (drop (fp_copy fp) snap)"
  have rl: "length ?raw = fp_len fp" using plan len by (auto simp: good_plan_def)
  then show "length bs = fp_len fp" using bs by (auto simp: chunk_bytes_def Let_def split: if_splits)
  show "expected_hash ci (fp_copy fp) = Some (sha ?raw)" if "src_integrity (lz_source lz) = Some ci" for ci
    using bs that
    by (auto simp: chunk_bytes_def Let_def chunk_sha256_matches_def split: if_splits option.splits)
  fix i assume i: "fp_copy fp \<le> i" "i < fp_copy fp + fp_len fp"
  have raw: "?raw ! (i - fp_copy fp) = snap ! i" using i plan len by (simp add: good_plan_def)
  show "bs ! (i - fp_copy fp) = (if page_discarded (lz_discarded lz) (i div PAGE_SIZE) then 0 else snap ! i)"
  proof (cases "any_discarded lz fp")
    case True
    then have "bs = zero_discarded (lz_discarded lz) (fp_copy fp div PAGE_SIZE) ?raw"
      using bs by (auto simp: chunk_bytes_def Let_def split: if_splits)
    then show ?thesis
      using i rl raw plan page_of_offset [of "fp_copy fp" i] by (simp add: nth_zero_discarded good_plan_def)
  next
    case False
    then have "\<not> page_discarded (lz_discarded lz) (i div PAGE_SIZE)"
      using plan_page_range [OF plan i] by (auto simp only: any_discarded_def list_ex_iff)
    then show ?thesis using bs False raw by (simp add: chunk_bytes_def Let_def split: if_splits)
  qed
qed

lemma chunk_bytes_missing:
  assumes inv: "lazy_inv sha lz" and plan: "good_plan lz fp" and nc: "zero_unforgeable sha lz"
    and bs: "chunk_bytes sha (snapshot lz) lz fp = Some bs"
    and i: "fp_copy fp \<le> i" "i < fp_copy fp + fp_len fp"
  shows "bs ! (i - fp_copy fp) = missing_byte lz i"
proof -
  note nth = chunk_bytes_nth [OF length_snapshot [OF inv] plan bs]
  have "source_byte lz i = snapshot lz ! i"
  proof (cases "src_integrity (lz_source lz)")
    case (Some ci)
    let ?raw = "take (fp_len fp) (drop (fp_copy fp) (snapshot lz))"
    have rl: "length ?raw = fp_len fp" using plan length_snapshot [OF inv] by (auto simp: good_plan_def)
    have at: "i div ci_chunk_size ci * ci_chunk_size ci = fp_copy fp" by (rule plan_chunk [OF plan Some i])
    have span: "chunk_span lz ci (fp_copy fp) = fp_len fp" using plan Some by (simp add: good_plan_def)
    have "snapshot lz ! i = 0" if z: "zero_chunk lz (fp_copy fp) (fp_len fp)"
    proof -
      have "sha ?raw = sha (replicate (ci_chunk_size ci) 0)" and full: "fp_len fp = ci_chunk_size ci"
        using z inv Some nth(3) [OF Some] by (auto simp: zero_chunk_def lazy_inv_def)
      then have raw: "?raw = replicate (ci_chunk_size ci) 0"
        using nc Some rl by (simp only: zero_unforgeable_def)
      have "?raw ! (i - fp_copy fp) = snapshot lz ! i"
        using i plan length_snapshot [OF inv] by (simp add: good_plan_def)
      then show ?thesis unfolding raw using i full by simp
    qed
    then show ?thesis by (simp add: source_byte_def Some at span)
  qed (simp add: source_byte_def)
  then show ?thesis using nth(2) [OF i] by (simp add: missing_byte_def)
qed

lemma resolve_populates:
  assumes plan: "good_plan lz fp"
    and io: "\<And>m off len rc m'. ioctl m off len = (rc, m') \<Longrightarrow> page_aligned off \<Longrightarrow> page_aligned len \<Longrightarrow>
      fp_copy fp \<le> off \<Longrightarrow> off + len \<le> fp_copy fp + fp_len fp \<Longrightarrow> populates H off len src m m'"
  shows "populates H (fp_copy fp) (fp_len fp) src m (rs_mem (resolve ioctl prefetching fp m))"
proof -
  obtain rc m1 where 1: "ioctl m (fp_copy fp) (fp_len fp) = (rc, m1)" by fastforce
  obtain rc' m2 where 2: "ioctl m1 (fp_page fp) PAGE_SIZE = (rc', m2)" by fastforce
  have p1: "populates H (fp_copy fp) (fp_len fp) src m m1"
    using io [OF 1] plan by (simp add: good_plan_def)
  have "populates H (fp_page fp) PAGE_SIZE src m1 m2"
    using io [OF 2] plan by (simp add: good_plan_def page_aligned_arith)
  then have "populates H (fp_copy fp) (fp_len fp) src m1 m2"
    by (rule populates_weaken) (use plan in \<open>simp_all add: good_plan_def\<close>)
  with p1 show ?thesis by (auto simp: resolve_def 1 2 intro: populates_trans)
qed

text \<open>What \<open>serve\<close> did to memory: nothing, or one \<open>resolve\<close>.\<close>

lemma finish_fault_mem: "vm_mem (snd (finish_fault a pf fp rs vm)) = rs_mem rs"
  by (simp add: finish_fault_def Let_def split: option.splits)

lemma finish_fault_lazy:
  "\<exists>t. vm_lazy (snd (finish_fault a pf fp rs vm)) = (vm_lazy vm)\<lparr>lz_touched := t\<rparr>"
  by (rule exI [of _ "lz_touched (vm_lazy (snd (finish_fault a pf fp rs vm)))"])
    (simp add: finish_fault_def Let_def split: option.splits)

text \<open>The ways \<open>serve\<close> can end, as a rule for predicates on its result.\<close>

lemma serve_rule:
  assumes stop: "plan_fault (vm_lazy vm) a = None \<Longrightarrow> P (Stop, vm)"
    and retry: "\<And>fp hd. plan_fault (vm_lazy vm) a = Some fp \<Longrightarrow>
      zero_chunk (vm_lazy vm) (fp_copy fp) (fp_len fp) \<Longrightarrow>
      a \<in> set (if pf then hd_prefetch hd else hd_pending hd) \<Longrightarrow>
      set (hd_pending (vm_handler vm)) \<subseteq> set (hd_pending hd) \<Longrightarrow>
      P (Continue, vm\<lparr>vm_mem := rs_mem (resolve (uffdio_zeropage U) pf fp (vm_mem vm)),
                      vm_handler := hd\<rparr>)"
    and zero: "\<And>fp. plan_fault (vm_lazy vm) a = Some fp \<Longrightarrow>
      zero_chunk (vm_lazy vm) (fp_copy fp) (fp_len fp) \<Longrightarrow>
      P (finish_fault a pf fp (resolve (uffdio_zeropage U) pf fp (vm_mem vm)) vm)"
    and skip: "pf \<Longrightarrow> P (Continue, vm)"
    and exit: "\<And>fp. plan_fault (vm_lazy vm) a = Some fp \<Longrightarrow>
      chunk_bytes sha snap (vm_lazy vm) fp = None \<Longrightarrow> P (Exit78, vm)"
    and copy: "\<And>fp bs. plan_fault (vm_lazy vm) a = Some fp \<Longrightarrow>
      chunk_bytes sha snap (vm_lazy vm) fp = Some bs \<Longrightarrow>
      P (finish_fault a pf fp (resolve (copy_ioctl U (fp_copy fp) bs) pf fp (vm_mem vm)) vm)"
  shows "P (serve U sha snap a pf vm)"
proof (cases "plan_fault (vm_lazy vm) a")
  case None
  then show ?thesis using stop by (simp add: serve_def)
next
  case (Some fp)
  let ?rs = "resolve (uffdio_zeropage U) pf fp (vm_mem vm)"
  let ?unsup = "rs_errno ?rs \<in> {Some EINVAL, Some ENOTTY, Some EOPNOTSUPP}"
  show ?thesis
  proof (cases "hd_zeropage (vm_handler vm) \<and> zero_chunk (vm_lazy vm) (fp_copy fp) (fp_len fp)")
    case z: True
    show ?thesis
    proof (cases ?unsup)
      case True
      show ?thesis
        unfolding serve_def Let_def Some option.case if_P [OF z] if_P [OF True]
        by (rule retry [OF Some]) (use z in auto)
    next
      case False
      show ?thesis
        unfolding serve_def Let_def Some option.case if_P [OF z] if_not_P [OF False]
        by (rule zero [OF Some]) (use z in auto)
    qed
  next
    case z: False
    show ?thesis
      unfolding serve_def Let_def Some option.case if_not_P [OF z]
      using skip exit [OF Some] copy [OF Some] by (auto split: option.split)
  qed
qed

context uffd_mm
begin

lemma resolve_zero:
  assumes "good_plan lz fp"
  shows "populates H (fp_copy fp) (fp_len fp) (\<lambda>_. 0) m (rs_mem (resolve (uffdio_zeropage U) pf fp m))"
  by (rule resolve_populates [OF assms]) (rule zero_populates)

lemma resolve_copy:
  assumes plan: "good_plan lz fp" and len: "length bs = fp_len fp"
  shows "populates H (fp_copy fp) (fp_len fp) (\<lambda>i. bs ! (i - fp_copy fp)) m
    (rs_mem (resolve (copy_ioctl U (fp_copy fp) bs) pf fp m))"
proof (rule resolve_populates [OF plan])
  fix m off n rc m'
  assume c: "copy_ioctl U (fp_copy fp) bs m off n = (rc, m')" and al: "page_aligned off" "page_aligned n"
    and le: "fp_copy fp \<le> off" "off + n \<le> fp_copy fp + fp_len fp"
  let ?bs = "take n (drop (off - fp_copy fp) bs)"
  have n: "length ?bs = n" using le len by auto
  have "populates H off (length ?bs) (\<lambda>i. ?bs ! (i - off)) m m'"
    using copy_populates [of m off ?bs] c al n by (simp add: copy_ioctl_def)
  then show "populates H off n (\<lambda>i. bs ! (i - fp_copy fp)) m m'"
    unfolding n by (rule populates_weaken) (use le len in auto)
qed

lemma serve_populates:
  assumes inv: "lazy_inv sha (vm_lazy vm)" and nc: "zero_unforgeable sha (vm_lazy vm)"
  shows "\<exists>off len. populates H off len (missing_byte (vm_lazy vm)) (vm_mem vm)
    (vm_mem (snd (serve U sha (snapshot (vm_lazy vm)) a pf vm)))"
proof (cases "plan_fault (vm_lazy vm) a")
  case (Some fp)
  let ?lz = "vm_lazy vm"
  have plan: "good_plan ?lz fp" by (rule plan_fault_SomeD [OF inv Some])
  let ?P = "\<lambda>m'. populates H (fp_copy fp) (fp_len fp) (missing_byte ?lz) (vm_mem vm) m'"
  have same: "?P (vm_mem vm)" by (simp add: populates_def)
  have zero: "?P (rs_mem (resolve (uffdio_zeropage U) pf fp (vm_mem vm)))"
    if z: "zero_chunk ?lz (fp_copy fp) (fp_len fp)"
  proof (rule populates_weaken [OF resolve_zero [OF plan]])
    fix i assume i: "fp_copy fp \<le> i" "i < fp_copy fp + fp_len fp"
    obtain ci where ci: "src_integrity (lz_source ?lz) = Some ci"
      using z by (auto simp: zero_chunk_def split: option.splits)
    have "source_byte ?lz i = 0"
      using plan_chunk [OF plan ci i] plan z by (simp add: source_byte_def ci good_plan_def)
    then show "0 = missing_byte ?lz i" by (simp add: missing_byte_def)
  qed simp_all
  have copy: "?P (rs_mem (resolve (copy_ioctl U (fp_copy fp) bs) pf fp (vm_mem vm)))"
    if bs: "chunk_bytes sha (snapshot ?lz) ?lz fp = Some bs" for bs
    by (rule populates_weaken
          [OF resolve_copy [OF plan chunk_bytes_nth(1) [OF length_snapshot [OF inv] plan bs]]])
      (simp_all add: chunk_bytes_missing [OF inv plan nc bs])
  have "?P (vm_mem (snd (serve U sha (snapshot ?lz) a pf vm)))"
    by (rule serve_rule [where P = "\<lambda>r. ?P (vm_mem (snd r))"])
      (use Some same zero copy in \<open>simp_all add: finish_fault_mem\<close>)
  then show ?thesis by blast
qed (simp add: serve_def populates_def)

end

lemma serve_lazy: "\<exists>t. vm_lazy (snd (serve U sha snap a pf vm)) = (vm_lazy vm)\<lparr>lz_touched := t\<rparr>"
  by (rule serve_rule [where P = "\<lambda>r. \<exists>t. vm_lazy (snd r) = (vm_lazy vm)\<lparr>lz_touched := t\<rparr>"])
    (auto intro: finish_fault_lazy exI [of _ "lz_touched (vm_lazy vm)"])

text \<open>The set of touched chunks plays no part in what memory holds.\<close>

lemma touched_irrelevant [simp]:
  "zero_chunk (lz\<lparr>lz_touched := t\<rparr>) = zero_chunk lz"
  "lazy_inv sha (lz\<lparr>lz_touched := t\<rparr>) = lazy_inv sha lz"
  "zero_unforgeable sha (lz\<lparr>lz_touched := t\<rparr>) = zero_unforgeable sha lz"
  "snapshot (lz\<lparr>lz_touched := t\<rparr>) = snapshot lz"
  "lazy_view H (lz\<lparr>lz_touched := t\<rparr>) m i = lazy_view H lz m i"
  by (simp_all add: zero_chunk_def lazy_inv_def zero_unforgeable_def snapshot_def lazy_view_def
      missing_byte_def source_byte_def chunk_span_def fun_eq_iff Let_def split: option.splits)

section \<open>An iteration of the handler\<close>

lemma serve_next_rule:
  assumes "\<And>hd. P (Continue, vm\<lparr>vm_handler := hd\<rparr>)"
    and "\<And>hd a pf. P (serve U sha snap a pf (vm\<lparr>vm_handler := hd\<rparr>))"
  shows "P (serve_next U sha snap vm)"
proof -
  have "P (Continue, vm)" using assms(1) [of "vm_handler vm"] by simp
  then show ?thesis using assms by (simp add: serve_next_def Let_def split: list.split)
qed

lemma handler_iteration_rule:
  assumes "\<And>flow. P (flow, vm)" and "\<And>hd. P (Continue, vm\<lparr>vm_handler := hd\<rparr>)"
    and "\<And>hd a pf. P (serve U sha snap a pf (vm\<lparr>vm_handler := hd\<rparr>))"
  shows "P (handler_iteration U sha snap inp vm)"
proof -
  have "P (serve_next U sha snap vm)" by (rule serve_next_rule) (rule assms)+
  moreover have "P (serve_next U sha snap (vm\<lparr>vm_handler := hd\<rparr>))" for hd
    by (rule serve_next_rule) (use assms in simp_all)
  ultimately show ?thesis
    using assms(1) by (simp add: handler_iteration_def split: option.split)
qed

lemma handler_iteration_lazy:
  "\<exists>t. vm_lazy (snd (handler_iteration U sha snap inp vm)) = (vm_lazy vm)\<lparr>lz_touched := t\<rparr>"
proof (rule handler_iteration_rule
    [where P = "\<lambda>r. \<exists>t. vm_lazy (snd r) = (vm_lazy vm)\<lparr>lz_touched := t\<rparr>"])
  fix hd a pf
  show "\<exists>t. vm_lazy (snd (serve U sha snap a pf (vm\<lparr>vm_handler := hd\<rparr>))) = (vm_lazy vm)\<lparr>lz_touched := t\<rparr>"
    using serve_lazy [of U sha snap a pf "vm\<lparr>vm_handler := hd\<rparr>"] by simp
qed (rule exI [of _ "lz_touched (vm_lazy vm)"], simp)+

context uffd_mm
begin

lemma handler_iteration_populates:
  assumes "lazy_inv sha (vm_lazy vm)" and "zero_unforgeable sha (vm_lazy vm)"
  shows "\<exists>off len. populates H off len (missing_byte (vm_lazy vm)) (vm_mem vm)
    (vm_mem (snd (handler_iteration U sha (snapshot (vm_lazy vm)) inp vm)))"
proof (rule handler_iteration_rule [where P = "\<lambda>r. \<exists>off len.
      populates H off len (missing_byte (vm_lazy vm)) (vm_mem vm) (vm_mem (snd r))"])
  fix hd a pf
  show "\<exists>off len. populates H off len (missing_byte (vm_lazy vm)) (vm_mem vm)
    (vm_mem (snd (serve U sha (snapshot (vm_lazy vm)) a pf (vm\<lparr>vm_handler := hd\<rparr>))))"
    using serve_populates [of sha "vm\<lparr>vm_handler := hd\<rparr>" a pf] assms by simp
qed (auto simp: populates_def)

lemma handler_iteration_view:
  assumes "lazy_inv sha (vm_lazy vm)" and "zero_unforgeable sha (vm_lazy vm)"
    and "handler_iteration U sha (snapshot (vm_lazy vm)) inp vm = (flow, vm')"
  shows "lazy_view H (vm_lazy vm') (vm_mem vm') i = lazy_view H (vm_lazy vm) (vm_mem vm) i"
proof -
  obtain t where t: "vm_lazy vm' = (vm_lazy vm)\<lparr>lz_touched := t\<rparr>"
    using handler_iteration_lazy [of U sha "snapshot (vm_lazy vm)" inp vm] assms(3) by auto
  obtain off len where "populates H off len (missing_byte (vm_lazy vm)) (vm_mem vm) (vm_mem vm')"
    using handler_iteration_populates [OF assms(1,2), of inp] assms(3) by auto
  then show ?thesis by (simp add: t populates_view)
qed

end

section \<open>Discards running beside the handler\<close>

text \<open>
  The balloon thread marks its range under the lock, then walks the pages: it asks whether
  a page is resident and drops it if so. The handler and the guest run in between.
  \<open>sys_todo\<close> are the pages not yet looked at, \<open>sys_drop\<close> the page found resident.
\<close>

record 'm lazy_sys =
  sys_vm :: "'m lazy_vm"
  sys_todo :: "nat list"
  sys_drop :: "nat option"

definition guest_store :: "'m host_ops \<Rightarrow> u64 \<Rightarrow> byte \<Rightarrow> 'm \<Rightarrow> 'm \<Rightarrow> bool" where
  "guest_store H i b m m' \<longleftrightarrow> resident H m (i div PAGE_SIZE) \<and> resident H m' = resident H m \<and>
     content H m' = (content H m)(i := b)"

text \<open>A step, with the bytes the guest writes and the bytes a discard takes on.\<close>

inductive lazy_step ::
  "'m host_ops \<Rightarrow> 'm uffd_ops \<Rightarrow> (byte list \<Rightarrow> byte list) \<Rightarrow> 'm lazy_sys \<Rightarrow> u64 set \<Rightarrow> u64 set \<Rightarrow>
   'm lazy_sys \<Rightarrow> bool"
  for H U sha where
  handler: "handler_iteration U sha (snapshot (vm_lazy (sys_vm s))) inp (sys_vm s) = (flow, vm') \<Longrightarrow>
    lazy_step H U sha s {} {} (s\<lparr>sys_vm := vm'\<rparr>)"
| mark: "sys_todo s = [] \<Longrightarrow> sys_drop s = None \<Longrightarrow> discard_valid (vm_lazy (sys_vm s)) off len \<Longrightarrow>
    discard_mark off len (vm_lazy (sys_vm s)) = Some lz' \<Longrightarrow>
    lazy_step H U sha s {} {off..<off + len}
      (s\<lparr>sys_vm := (sys_vm s)\<lparr>vm_lazy := lz'\<rparr>,
         sys_todo := [off div PAGE_SIZE..<(off + len) div PAGE_SIZE]\<rparr>)"
| absent: "sys_todo s = p # ps \<Longrightarrow> sys_drop s = None \<Longrightarrow>
    mincore H (vm_mem (sys_vm s)) p = Some False \<Longrightarrow>
    lazy_step H U sha s {} {} (s\<lparr>sys_todo := ps\<rparr>)"
| present: "sys_todo s = p # ps \<Longrightarrow> sys_drop s = None \<Longrightarrow>
    mincore H (vm_mem (sys_vm s)) p = Some True \<Longrightarrow>
    lazy_step H U sha s {} {} (s\<lparr>sys_todo := ps, sys_drop := Some p\<rparr>)"
| drop: "sys_drop s = Some p \<Longrightarrow>
    dontneed H (vm_mem (sys_vm s)) (p * PAGE_SIZE) PAGE_SIZE = Some m' \<Longrightarrow>
    lazy_step H U sha s {} {} (s\<lparr>sys_vm := (sys_vm s)\<lparr>vm_mem := m'\<rparr>, sys_drop := None\<rparr>)"
| store: "guest_store H i b (vm_mem (sys_vm s)) m' \<Longrightarrow>
    lazy_step H U sha s {i} {} (s\<lparr>sys_vm := (sys_vm s)\<lparr>vm_mem := m'\<rparr>\<rparr>)"

inductive lazy_run ::
  "'m host_ops \<Rightarrow> 'm uffd_ops \<Rightarrow> (byte list \<Rightarrow> byte list) \<Rightarrow> 'm lazy_sys \<Rightarrow> u64 set \<Rightarrow> u64 set \<Rightarrow>
   'm lazy_sys \<Rightarrow> bool"
  for H U sha s where
  start: "lazy_run H U sha s {} {} s"
| step: "lazy_run H U sha s W D s' \<Longrightarrow> lazy_step H U sha s' W' D' s'' \<Longrightarrow>
    lazy_run H U sha s (W \<union> W') (D \<union> D' - W') s''"

subsection \<open>Invariant of a run\<close>

lemma mark_pages_Some:
  assumes "set ps \<subseteq> {..<length d}"
  shows "\<exists>d'. mark_pages ps d = Some d' \<and> length d' = length d \<and>
    (\<forall>p. page_discarded d' p \<longleftrightarrow> page_discarded d p \<or> p \<in> set ps)"
  using assms
proof (induction ps arbitrary: d)
  case (Cons q ps)
  then obtain d' where "mark_pages ps (d[q := True]) = Some d'" "length d' = length d"
    "\<forall>p. page_discarded d' p \<longleftrightarrow> page_discarded (d[q := True]) p \<or> p \<in> set ps"
    using Cons.IH [of "d[q := True]"] by auto
  then show ?case using Cons.prems by (auto simp: page_discarded_def nth_list_update)
qed simp

lemma discard_mark_Some:
  assumes inv: "lazy_inv sha lz" and v: "discard_valid lz off len"
  shows "\<exists>d'. discard_mark off len lz = Some (lz\<lparr>lz_discarded := d'\<rparr>) \<and>
    length d' = length (lz_discarded lz) \<and>
    (\<forall>p. page_discarded d' p \<longleftrightarrow> page_discarded (lz_discarded lz) p \<or>
       off div PAGE_SIZE \<le> p \<and> p < (off + len) div PAGE_SIZE)"
proof -
  have "off + len \<le> lz_len lz" using v by (auto simp: discard_valid_def split: option.splits)
  then have "(off + len) div PAGE_SIZE \<le> length (lz_discarded lz)"
    using inv by (simp add: lazy_inv_def div_le_mono)
  then obtain d' where "mark_pages [off div PAGE_SIZE..<(off + len) div PAGE_SIZE] (lz_discarded lz) = Some d'"
    "length d' = length (lz_discarded lz)"
    "\<forall>p. page_discarded d' p \<longleftrightarrow> page_discarded (lz_discarded lz) p \<or>
       p \<in> set [off div PAGE_SIZE..<(off + len) div PAGE_SIZE]"
    using mark_pages_Some [of "[off div PAGE_SIZE..<(off + len) div PAGE_SIZE]" "lz_discarded lz"]
    by fastforce
  then show ?thesis by (auto simp: discard_mark_def)
qed

lemma discarded_irrelevant [simp]:
  "source_byte (lz\<lparr>lz_discarded := d\<rparr>) = source_byte lz"
  "zero_unforgeable sha (lz\<lparr>lz_discarded := d\<rparr>) = zero_unforgeable sha lz"
  "length d = length (lz_discarded lz) \<Longrightarrow> lazy_inv sha (lz\<lparr>lz_discarded := d\<rparr>) = lazy_inv sha lz"
  by (simp_all add: zero_chunk_def lazy_inv_def zero_unforgeable_def snapshot_def
      source_byte_def chunk_span_def fun_eq_iff Let_def split: option.splits)

text \<open>The page of a byte lies in an aligned range exactly if the byte does.\<close>

lemma page_in_range:
  assumes "page_aligned off" and "page_aligned len"
  shows "off div PAGE_SIZE \<le> i div PAGE_SIZE \<and> i div PAGE_SIZE < (off + len) div PAGE_SIZE \<longleftrightarrow>
    off \<le> i \<and> i < off + len"
proof -
  obtain a b where a: "off = PAGE_SIZE * a" and b: "len = PAGE_SIZE * b"
    using assms by (auto simp: page_aligned_def mod_eq_0_iff_dvd elim!: dvdE)
  have q: "off div PAGE_SIZE = a" "(off + len) div PAGE_SIZE = a + b" and o: "off + len = (a + b) * PAGE_SIZE"
    by (simp_all add: a b PAGE_SIZE_def algebra_simps flip: distrib_left)
  have "a \<le> i div PAGE_SIZE \<longleftrightarrow> off \<le> i"
    by (simp add: a PAGE_SIZE_def less_eq_div_iff_mult_less_eq mult.commute)
  moreover have "i div PAGE_SIZE < a + b \<longleftrightarrow> i < off + len"
    unfolding o by (rule div_less_iff_less_mult) (simp add: PAGE_SIZE_def)
  ultimately show ?thesis unfolding q by blast
qed

abbreviation sys_lazy :: "'m lazy_sys \<Rightarrow> lazy" where
  "sys_lazy s \<equiv> vm_lazy (sys_vm s)"

definition sys_view :: "'m host_ops \<Rightarrow> 'm lazy_sys \<Rightarrow> u64 \<Rightarrow> byte" where
  "sys_view H s i = lazy_view H (sys_lazy s) (vm_mem (sys_vm s)) i"

definition pending_pages :: "'m lazy_sys \<Rightarrow> nat set" where
  "pending_pages s = set (sys_todo s) \<union> set_option (sys_drop s)"

definition sys_inv :: "(byte list \<Rightarrow> byte list) \<Rightarrow> 'm lazy_sys \<Rightarrow> bool" where
  "sys_inv sha s \<longleftrightarrow> lazy_inv sha (sys_lazy s) \<and> zero_unforgeable sha (sys_lazy s) \<and>
     (\<forall>p \<in> pending_pages s. page_discarded (lz_discarded (sys_lazy s)) p)"

text \<open>What one step does to the logical content.\<close>

definition step_effect ::
  "'m host_ops \<Rightarrow> 'm lazy_sys \<Rightarrow> u64 set \<Rightarrow> u64 set \<Rightarrow> 'm lazy_sys \<Rightarrow> bool" where
  "step_effect H s W D s' \<longleftrightarrow>
     (\<forall>i. i \<notin> W \<longrightarrow> sys_view H s' i = sys_view H s i \<or>
        sys_view H s' i = 0 \<and> (i \<in> D \<or> i div PAGE_SIZE \<in> pending_pages s)) \<and>
     (\<forall>i. i \<in> D \<longrightarrow> i div PAGE_SIZE \<in> pending_pages s') \<and>
     (\<forall>i. i div PAGE_SIZE \<in> pending_pages s \<longrightarrow> i \<notin> W \<longrightarrow>
        i div PAGE_SIZE \<in> pending_pages s' \<or> sys_view H s' i = 0) \<and>
     (\<forall>i. i div PAGE_SIZE \<in> pending_pages s' \<longrightarrow> i \<in> D \<or> i div PAGE_SIZE \<in> pending_pages s)"

locale lazy_mm = host_mm G H + uffd_mm H U
  for G :: "'m ram_ops" and H :: "'m host_ops" and U :: "'m uffd_ops"
begin

lemma drop_page_view:
  assumes "dontneed H m (p * PAGE_SIZE) PAGE_SIZE = Some m'"
  shows "lazy_view H lz m' i = (if i div PAGE_SIZE = p then missing_byte lz i else lazy_view H lz m i)"
proof -
  have al: "page_aligned (p * PAGE_SIZE)" by (simp add: page_aligned_def)
  have d: "dropped H m (p * PAGE_SIZE) PAGE_SIZE (mapped H m) m'"
    by (rule dontneed_drops [OF assms al page_aligned_arith(5)])
  have "p * PAGE_SIZE \<le> q * PAGE_SIZE \<and> q * PAGE_SIZE < p * PAGE_SIZE + PAGE_SIZE \<longleftrightarrow> q = p" for q
    by (auto simp: PAGE_SIZE_def)
  then show ?thesis using d by (auto simp: dropped_def lazy_view_def)
qed

lemma step_mark:
  assumes inv: "sys_inv sha s" and idle: "sys_todo s = []" "sys_drop s = None"
    and v: "discard_valid (sys_lazy s) off len" and m: "discard_mark off len (sys_lazy s) = Some lz'"
    and s': "s' = s\<lparr>sys_vm := (sys_vm s)\<lparr>vm_lazy := lz'\<rparr>,
         sys_todo := [off div PAGE_SIZE..<(off + len) div PAGE_SIZE]\<rparr>"
  shows "sys_inv sha s' \<and> step_effect H s {} {off..<off + len} s'"
proof -
  have li: "lazy_inv sha (sys_lazy s)" using inv by (simp add: sys_inv_def)
  obtain d' where lz': "lz' = (sys_lazy s)\<lparr>lz_discarded := d'\<rparr>"
    and len: "length d' = length (lz_discarded (sys_lazy s))"
    and d': "\<And>p. page_discarded d' p \<longleftrightarrow> page_discarded (lz_discarded (sys_lazy s)) p \<or>
       off div PAGE_SIZE \<le> p \<and> p < (off + len) div PAGE_SIZE"
    using discard_mark_Some [OF li v] m by auto
  have rng: "off div PAGE_SIZE \<le> i div PAGE_SIZE \<and> i div PAGE_SIZE < (off + len) div PAGE_SIZE \<longleftrightarrow>
      off \<le> i \<and> i < off + len" for i
    by (rule page_in_range) (use v in \<open>auto simp: discard_valid_def\<close>)
  have pend: "pending_pages s = {}" "pending_pages s' = {off div PAGE_SIZE..<(off + len) div PAGE_SIZE}"
    using idle by (simp_all add: pending_pages_def s')
  have "sys_inv sha s'" using inv len d' pend by (auto simp: sys_inv_def s' lz')
  moreover have view: "sys_view H s' i = sys_view H s i \<or>
      sys_view H s' i = 0 \<and> off \<le> i \<and> i < off + len" for i
    using d' [of "i div PAGE_SIZE"] rng [of i]
    by (auto simp: sys_view_def s' lz' lazy_view_def missing_byte_def)
  have "step_effect H s {} {off..<off + len} s'"
    unfolding step_effect_def pend using view rng by simp
  ultimately show ?thesis by blast
qed

lemma step_ok:
  assumes "lazy_step H U sha s W D s'" and inv: "sys_inv sha s"
  shows "sys_inv sha s' \<and> step_effect H s W D s'"
  using assms(1)
proof cases
  case (handler inp flow vm')
  obtain t where t: "vm_lazy vm' = (sys_lazy s)\<lparr>lz_touched := t\<rparr>"
    using handler_iteration_lazy [of U sha "snapshot (sys_lazy s)" inp "sys_vm s"] handler(4) by auto
  have "lazy_view H (vm_lazy vm') (vm_mem vm') i = lazy_view H (sys_lazy s) (vm_mem (sys_vm s)) i" for i
    by (rule handler_iteration_view [OF _ _ handler(4)]) (use inv in \<open>simp_all add: sys_inv_def\<close>)
  then show ?thesis using inv handler t
    by (auto simp: sys_inv_def step_effect_def sys_view_def pending_pages_def)
next
  case (mark off len lz')
  then show ?thesis using step_mark [OF inv] by blast
next
  case (absent p ps)
  have "\<not> resident H (vm_mem (sys_vm s)) p" using mincore_resident absent(6) by blast
  moreover have "page_discarded (lz_discarded (sys_lazy s)) p"
    using inv absent by (simp add: sys_inv_def pending_pages_def)
  ultimately have "sys_view H s' i = 0" if "i div PAGE_SIZE = p" for i
    using that absent by (simp add: sys_view_def lazy_view_def missing_byte_def)
  then show ?thesis using inv absent
    by (auto simp: sys_inv_def step_effect_def sys_view_def pending_pages_def)
next
  case (present p ps)
  then show ?thesis using inv by (auto simp: sys_inv_def step_effect_def sys_view_def pending_pages_def)
next
  case (drop p m')
  have bit: "page_discarded (lz_discarded (sys_lazy s)) p"
    using inv drop by (simp add: sys_inv_def pending_pages_def)
  have "sys_view H s' i = (if i div PAGE_SIZE = p then 0 else sys_view H s i)" for i
    using drop_page_view [OF drop(5)] bit by (simp add: sys_view_def drop(3) missing_byte_def)
  then show ?thesis using inv drop
    by (auto simp: sys_inv_def step_effect_def pending_pages_def)
next
  case (store i b m')
  then have "sys_view H s' j = sys_view H s j" if "j \<noteq> i" for j
    using that by (simp add: sys_view_def lazy_view_def guest_store_def)
  then show ?thesis using inv store by (auto simp: sys_inv_def step_effect_def pending_pages_def)
qed

lemma run_effect:
  assumes "lazy_run H U sha s W D s'" and "sys_inv sha s" and "pending_pages s = {}"
  shows "sys_inv sha s' \<and> (\<forall>i. i \<notin> W \<union> D \<longrightarrow> sys_view H s' i = sys_view H s i) \<and>
    (\<forall>i \<in> D. i div PAGE_SIZE \<in> pending_pages s' \<or> sys_view H s' i = 0) \<and>
    (\<forall>i. i div PAGE_SIZE \<in> pending_pages s' \<longrightarrow> i \<in> W \<union> D)"
  using assms
proof induction
  case (step W D s' W' D' s'')
  then have IH: "sys_inv sha s'" "\<And>i. i \<notin> W \<union> D \<Longrightarrow> sys_view H s' i = sys_view H s i"
    "\<And>i. i \<in> D \<Longrightarrow> i div PAGE_SIZE \<in> pending_pages s' \<or> sys_view H s' i = 0"
    "\<And>i. i div PAGE_SIZE \<in> pending_pages s' \<Longrightarrow> i \<in> W \<union> D" by auto
  have inv: "sys_inv sha s''" and e: "step_effect H s' W' D' s''"
    using step_ok [OF step.hyps(2) IH(1)] by auto
  have 1: "sys_view H s'' i = sys_view H s i" if "i \<notin> W \<union> W' \<union> (D \<union> D' - W')" for i
    using e that IH(2) [of i] IH(4) [of i] by (auto simp: step_effect_def)
  have 2: "i div PAGE_SIZE \<in> pending_pages s'' \<or> sys_view H s'' i = 0" if "i \<in> D \<union> D' - W'" for i
    using e that IH(3) [of i] by (auto simp: step_effect_def) metis+
  have 3: "i \<in> W \<union> W' \<union> (D \<union> D' - W')" if "i div PAGE_SIZE \<in> pending_pages s''" for i
    using e that IH(4) [of i] by (auto simp: step_effect_def)
  show ?case using inv 1 2 3 by blast
qed auto

end

end
