(* ===== verification/LazyFacts.thy ===== *)
theory LazyFacts
  imports LazyProofs
begin

text \<open>
  More facts about lazy restore: a userfaultfd on packed RAM, no fault is lost, only
  verified bytes are installed, the host-side reader agrees with the handler, the
  sequential discard, and the set of touched chunks.
\<close>

section \<open>A concrete userfaultfd\<close>

definition packed_populate ::
  "packed_mem \<Rightarrow> usize \<Rightarrow> usize \<Rightarrow> (usize \<Rightarrow> byte) \<Rightarrow> errno option \<times> packed_mem" where
  "packed_populate m off len src =
     (if list_ex (pm_resident m) [off div PAGE_SIZE..<(off + len) div PAGE_SIZE]
      then (Some EEXIST, m)
      else (None, m\<lparr>pm_resident := (\<lambda>p. pm_resident m p \<or>
               off \<le> p * PAGE_SIZE \<and> p * PAGE_SIZE < off + len),
             pm_content := (\<lambda>i. if off \<le> i \<and> i < off + len then src i else pm_content m i)\<rparr>))"

definition packed_uffd :: "packed_mem uffd_ops" where
  "packed_uffd =
     \<lparr>uffdio_copy = (\<lambda>m off bs. packed_populate m off (length bs) (\<lambda>i. bs ! (i - off))),
      uffdio_zeropage = (\<lambda>m off len. packed_populate m off len (\<lambda>_. 0))\<rparr>"

lemma packed_populate_ok:
  assumes r: "packed_populate m off len src = (rc, m')" and al: "page_aligned off" "page_aligned len"
  shows "populates packed_host off len src m m'"
    and "rc = None \<Longrightarrow> off \<le> i \<Longrightarrow> i < off + len \<Longrightarrow> resident packed_host m' (i div PAGE_SIZE)"
proof -
  have pg: "off \<le> i div PAGE_SIZE * PAGE_SIZE \<and> i div PAGE_SIZE * PAGE_SIZE < off + len \<longleftrightarrow>
      off \<le> i \<and> i < off + len" for i by (rule page_of_aligned [OF al])
  show "populates packed_host off len src m m'"
  proof (cases "list_ex (pm_resident m) [off div PAGE_SIZE..<(off + len) div PAGE_SIZE]")
    case False
    then have "\<not> (off \<le> i \<and> i < off + len)" if "pm_resident m (i div PAGE_SIZE)" for i
      using that page_in_range [OF al, of i] by (auto simp: list_ex_iff)
    then show ?thesis using False r pg
      by (auto simp: packed_populate_def populates_def packed_host_def)
  qed (use r in \<open>simp add: packed_populate_def populates_def\<close>)
  show "rc = None \<Longrightarrow> off \<le> i \<Longrightarrow> i < off + len \<Longrightarrow> resident packed_host m' (i div PAGE_SIZE)"
    using r pg [of i] by (auto simp: packed_populate_def packed_host_def split: if_splits)
qed

lemma packed_populate_exist:
  assumes "packed_populate m off PAGE_SIZE src = (Some EEXIST, m')" and "page_aligned off"
  shows "resident packed_host m' (off div PAGE_SIZE)"
proof -
  have "(off + PAGE_SIZE) div PAGE_SIZE = Suc (off div PAGE_SIZE)" by (simp add: PAGE_SIZE_def)
  then show ?thesis using assms
    by (auto simp: packed_populate_def packed_host_def list_ex_iff split: if_splits)
qed

interpretation packed_lazy: lazy_mm packed_ops packed_host packed_uffd
  by unfold_locales
    (auto simp: packed_uffd_def intro: packed_populate_ok packed_populate_exist)

section \<open>No fault is lost\<close>

context uffd_mm
begin

lemma resolve_resident:
  assumes plan: "good_plan lz fp"
    and ok: "\<And>m off len m'. ioctl m off len = (None, m') \<Longrightarrow> page_aligned off \<Longrightarrow> page_aligned len \<Longrightarrow>
      fp_copy fp \<le> off \<Longrightarrow> off + len \<le> fp_copy fp + fp_len fp \<Longrightarrow> PAGE_SIZE \<le> len \<Longrightarrow>
      off \<le> fp_page fp \<Longrightarrow> fp_page fp < off + len \<Longrightarrow> resident H m' (fp_page fp div PAGE_SIZE)"
    and exist: "\<And>m m'. ioctl m (fp_page fp) PAGE_SIZE = (Some EEXIST, m') \<Longrightarrow>
      resident H m' (fp_page fp div PAGE_SIZE)"
    and rs: "rs = resolve ioctl False fp m" "rs_errno rs = None \<or> rs_errno rs = Some EEXIST"
  shows "resident H (rs_mem rs) (fp_page fp div PAGE_SIZE)"
proof -
  obtain rc m1 where 1: "ioctl m (fp_copy fp) (fp_len fp) = (rc, m1)" by fastforce
  obtain rc' m2 where 2: "ioctl m1 (fp_page fp) PAGE_SIZE = (rc', m2)" by fastforce
  have p: "page_aligned (fp_copy fp)" "page_aligned (fp_len fp)" "page_aligned (fp_page fp)"
    "fp_copy fp \<le> fp_page fp" "fp_page fp + PAGE_SIZE \<le> fp_copy fp + fp_len fp"
    using plan by (simp_all add: good_plan_def)
  have ps: "0 < PAGE_SIZE" by (simp add: PAGE_SIZE_def)
  have whole: "resident H m1 (fp_page fp div PAGE_SIZE)" if "rc = None"
    using ok [of m "fp_copy fp" "fp_len fp" m1] 1 p that ps by simp
  have page: "resident H m2 (fp_page fp div PAGE_SIZE)" if "rc' = None \<or> rc' = Some EEXIST"
    using ok [of m1 "fp_page fp" PAGE_SIZE m2] exist [of m1 m2] 2 p that ps
    by (auto simp: page_aligned_arith)
  have single: "fp_copy fp = fp_page fp" "fp_len fp = PAGE_SIZE" if "\<not> PAGE_SIZE < fp_len fp"
    using p that by linarith+
  show ?thesis
  proof (cases "rc = Some EEXIST \<and> PAGE_SIZE < fp_len fp")
    case True
    then have "rs = \<lparr>rs_errno = rc', rs_off = fp_page fp, rs_len = PAGE_SIZE, rs_mem = m2\<rparr>"
      using rs(1) by (simp add: resolve_def 1 2)
    then show ?thesis using page rs(2) by simp
  next
    case False
    then have eq: "rs = \<lparr>rs_errno = rc, rs_off = fp_copy fp, rs_len = fp_len fp, rs_mem = m1\<rparr>"
      using rs(1) by (auto simp: resolve_def 1)
    show ?thesis
    proof (cases "rc = None")
      case True then show ?thesis using whole eq by simp
    next
      case c: False
      then have "rc = Some EEXIST" using rs(2) eq by auto
      then have "ioctl m (fp_page fp) PAGE_SIZE = (Some EEXIST, m1)" using 1 False single by simp
      then show ?thesis using exist eq by simp
    qed
  qed
qed

lemma resolve_zero_resident:
  assumes plan: "good_plan lz fp" and "rs = resolve (uffdio_zeropage U) False fp m"
    and "rs_errno rs = None \<or> rs_errno rs = Some EEXIST"
  shows "resident H (rs_mem rs) (fp_page fp div PAGE_SIZE)"
  by (rule resolve_resident [OF plan _ _ assms(2,3)])
    (use plan in \<open>auto simp: good_plan_def intro: zero_ok zero_exist\<close>)

lemma resolve_copy_resident:
  assumes plan: "good_plan lz fp" and len: "length bs = fp_len fp"
    and rs: "rs = resolve (copy_ioctl U (fp_copy fp) bs) False fp m"
      "rs_errno rs = None \<or> rs_errno rs = Some EEXIST"
  shows "resident H (rs_mem rs) (fp_page fp div PAGE_SIZE)"
proof (rule resolve_resident [OF plan _ _ rs])
  fix m off n m'
  assume c: "copy_ioctl U (fp_copy fp) bs m off n = (None, m')"
    and al: "page_aligned off" "page_aligned n"
    and le: "fp_copy fp \<le> off" "off + n \<le> fp_copy fp + fp_len fp"
    and pg: "off \<le> fp_page fp" "fp_page fp < off + n"
  let ?bs = "take n (drop (off - fp_copy fp) bs)"
  have n: "length ?bs = n" using le len by auto
  show "resident H m' (fp_page fp div PAGE_SIZE)"
    by (rule copy_ok [of m off ?bs m']) (use c al pg n in \<open>simp_all add: copy_ioctl_def\<close>)
next
  fix m m' assume c: "copy_ioctl U (fp_copy fp) bs m (fp_page fp) PAGE_SIZE = (Some EEXIST, m')"
  show "resident H m' (fp_page fp div PAGE_SIZE)"
    by (rule copy_exist [of m "fp_page fp" "take PAGE_SIZE (drop (fp_page fp - fp_copy fp) bs)"])
      (use c plan len in \<open>auto simp: copy_ioctl_def good_plan_def\<close>)
qed

lemma finish_fault_kept:
  assumes "finish_fault a False fp rs vm = (Continue, vm')"
    and "rs_errno rs = None \<or> rs_errno rs = Some EEXIST \<Longrightarrow> resident H (rs_mem rs) p"
  shows "a \<in> set (hd_pending (vm_handler vm')) \<or> resident H (vm_mem vm') p"
  using assms by (auto simp: finish_fault_def Let_def split: option.splits if_splits)

lemma serve_kept:
  assumes inv: "lazy_inv sha (vm_lazy vm)" and len: "length snap = lz_len (vm_lazy vm)"
    and s: "serve U sha snap a False vm = (Continue, vm')"
  shows "a \<in> set (hd_pending (vm_handler vm')) \<or>
    resident H (vm_mem vm') ((a - lz_base (vm_lazy vm)) div PAGE_SIZE)"
proof -
  let ?Q = "\<lambda>vm'. a \<in> set (hd_pending (vm_handler vm')) \<or>
    resident H (vm_mem vm') ((a - lz_base (vm_lazy vm)) div PAGE_SIZE)"
  have pg: "fp_page fp div PAGE_SIZE = (a - lz_base (vm_lazy vm)) div PAGE_SIZE"
    if "plan_fault (vm_lazy vm) a = Some fp" for fp
    using plan_fault_SomeD(2) [OF inv that] by (simp add: PAGE_SIZE_def)
  have "fst r = Continue \<longrightarrow> ?Q (snd r)" if "r = serve U sha snap a False vm" for r
    unfolding that
  proof (rule serve_rule [where P = "\<lambda>r. fst r = Continue \<longrightarrow> ?Q (snd r)"])
    fix fp assume p: "plan_fault (vm_lazy vm) a = Some fp"
    note plan = plan_fault_SomeD(1) [OF inv p]
    show "fst (finish_fault a False fp (resolve (uffdio_zeropage U) False fp (vm_mem vm)) vm) = Continue \<longrightarrow>
      ?Q (snd (finish_fault a False fp (resolve (uffdio_zeropage U) False fp (vm_mem vm)) vm))"
      using finish_fault_kept resolve_zero_resident [OF plan refl] pg [OF p] by (metis prod.collapse)
    fix bs assume bs: "chunk_bytes sha snap (vm_lazy vm) fp = Some bs"
    show "fst (finish_fault a False fp (resolve (copy_ioctl U (fp_copy fp) bs) False fp (vm_mem vm)) vm) =
      Continue \<longrightarrow>
      ?Q (snd (finish_fault a False fp (resolve (copy_ioctl U (fp_copy fp) bs) False fp (vm_mem vm)) vm))"
      using finish_fault_kept resolve_copy_resident [OF plan chunk_bytes_nth(1) [OF len plan bs] refl] pg [OF p]
      by (metis prod.collapse)
  qed auto
  then show ?thesis using s by auto
qed

end

lemma finish_fault_pending:
  "set (hd_pending (vm_handler vm)) \<subseteq> set (hd_pending (vm_handler (snd (finish_fault a pf fp rs vm))))"
  by (auto simp: finish_fault_def Let_def split: option.splits)

lemma serve_pending:
  "set (hd_pending (vm_handler vm)) \<subseteq> set (hd_pending (vm_handler (snd (serve U sha snap a pf vm))))"
  by (rule serve_rule [where P = "\<lambda>r. set (hd_pending (vm_handler vm)) \<subseteq>
        set (hd_pending (vm_handler (snd r)))"])
    (use finish_fault_pending in simp_all)

lemma drain_events_prefix:
  "drain_events lz rs pending = Some q \<Longrightarrow> set pending \<subseteq> set q"
  by (induction lz rs pending rule: drain_events.induct)
    (auto simp: Let_def split: if_splits)

lemma handler_iteration_queue:
  assumes "\<And>flow. P (flow, vm)" and "P (serve_next U sha snap vm)"
    and "\<And>q. drain_events (vm_lazy vm) (pi_reads inp) (hd_pending (vm_handler vm)) = Some q \<Longrightarrow>
      P (serve_next U sha snap (vm\<lparr>vm_handler := (vm_handler vm)\<lparr>hd_pending := q\<rparr>\<rparr>))"
  shows "P (handler_iteration U sha snap inp vm)"
  using assms by (simp add: handler_iteration_def split: option.split)

context uffd_mm
begin

lemma serve_next_kept:
  assumes inv: "lazy_inv sha (vm_lazy vm)" and len: "length snap = lz_len (vm_lazy vm)"
    and s: "serve_next U sha snap vm = (Continue, vm')" and a: "a \<in> set (hd_pending (vm_handler vm))"
  shows "a \<in> set (hd_pending (vm_handler vm')) \<or>
    resident H (vm_mem vm') ((a - lz_base (vm_lazy vm)) div PAGE_SIZE)"
proof -
  obtain x rest where q: "hd_pending (vm_handler vm) = x # rest" using a by (cases "hd_pending (vm_handler vm)") auto
  let ?vm = "vm\<lparr>vm_handler := (vm_handler vm)\<lparr>hd_pending := rest\<rparr>\<rparr>"
  have sv: "serve U sha snap x False ?vm = (Continue, vm')" using s by (simp add: serve_next_def q)
  consider "a = x" | "a \<in> set rest" using a q by auto
  then show ?thesis
  proof cases
    case 1 then show ?thesis using serve_kept [OF _ _ sv] inv len by simp
  next
    case 2 then show ?thesis using serve_pending [of ?vm U sha snap x False] sv by auto
  qed
qed

lemma handler_iteration_kept:
  assumes inv: "lazy_inv sha (vm_lazy vm)" and len: "length snap = lz_len (vm_lazy vm)"
    and it: "handler_iteration U sha snap inp vm = (Continue, vm')"
    and a: "a \<in> set (hd_pending (vm_handler vm))"
  shows "a \<in> set (hd_pending (vm_handler vm')) \<or>
    resident H (vm_mem vm') ((a - lz_base (vm_lazy vm)) div PAGE_SIZE)"
proof -
  let ?Q = "\<lambda>r. fst r = Continue \<longrightarrow> a \<in> set (hd_pending (vm_handler (snd r))) \<or>
    resident H (vm_mem (snd r)) ((a - lz_base (vm_lazy vm)) div PAGE_SIZE)"
  have "?Q (handler_iteration U sha snap inp vm)"
  proof (rule handler_iteration_queue [where P = ?Q])
    show "?Q (serve_next U sha snap vm)"
      using serve_next_kept [OF inv len _ a] by (metis prod.collapse)
    fix q assume "drain_events (vm_lazy vm) (pi_reads inp) (hd_pending (vm_handler vm)) = Some q"
    then have "a \<in> set q" using drain_events_prefix a by blast
    then show "?Q (serve_next U sha snap (vm\<lparr>vm_handler := (vm_handler vm)\<lparr>hd_pending := q\<rparr>\<rparr>))"
      using serve_next_kept [of sha "vm\<lparr>vm_handler := (vm_handler vm)\<lparr>hd_pending := q\<rparr>\<rparr>" snap _ a] inv len
      by (cases "serve_next U sha snap (vm\<lparr>vm_handler := (vm_handler vm)\<lparr>hd_pending := q\<rparr>\<rparr>)") simp
  qed (use a in simp)
  then show ?thesis using it by simp
qed

end

section \<open>Only verified bytes are installed\<close>

text \<open>
  A byte that may appear at offset \<open>i\<close>: zero on a discarded page, or the byte of some
  string whose hash is the manifest's for that chunk.
\<close>

definition verified_byte ::
  "(byte list \<Rightarrow> byte list) \<Rightarrow> lazy \<Rightarrow> chunk_integrity \<Rightarrow> usize \<Rightarrow> byte \<Rightarrow> bool" where
  "verified_byte sha lz ci i b \<longleftrightarrow>
     page_discarded (lz_discarded lz) (i div PAGE_SIZE) \<and> b = 0 \<or>
     (\<exists>bs. i div ci_chunk_size ci < length (ci_hashes ci) \<and>
        sha bs = ci_hashes ci ! (i div ci_chunk_size ci) \<and>
        length bs = chunk_span lz ci (i div ci_chunk_size ci * ci_chunk_size ci) \<and>
        i mod ci_chunk_size ci < length bs \<and> b = bs ! (i mod ci_chunk_size ci))"

lemma plan_chunk_index:
  assumes plan: "good_plan lz fp" and ci: "src_integrity (lz_source lz) = Some ci"
    and i: "fp_copy fp \<le> i" "i < fp_copy fp + fp_len fp" and c: "0 < ci_chunk_size ci"
  shows "fp_copy fp div ci_chunk_size ci = i div ci_chunk_size ci" and "i mod ci_chunk_size ci = i - fp_copy fp"
proof -
  have at: "i div ci_chunk_size ci * ci_chunk_size ci = fp_copy fp" by (rule plan_chunk [OF plan ci i])
  then show "fp_copy fp div ci_chunk_size ci = i div ci_chunk_size ci"
    using c by (metis nonzero_mult_div_cancel_right less_numeral_extra(3))
  show "i mod ci_chunk_size ci = i - fp_copy fp" by (simp add: minus_div_mult_eq_mod [symmetric] at)
qed

lemma verified_byteI:
  assumes plan: "good_plan lz fp" and ci: "src_integrity (lz_source lz) = Some ci"
    and i: "fp_copy fp \<le> i" "i < fp_copy fp + fp_len fp" and c: "0 < ci_chunk_size ci"
    and h: "expected_hash ci (fp_copy fp) = Some (sha bs)" and len: "length bs = fp_len fp"
  shows "verified_byte sha lz ci i (bs ! (i - fp_copy fp))"
proof -
  note x = plan_chunk_index [OF plan ci i c]
  have "i div ci_chunk_size ci * ci_chunk_size ci = fp_copy fp" by (rule plan_chunk [OF plan ci i])
  moreover have "chunk_span lz ci (fp_copy fp) = fp_len fp" using plan ci by (simp add: good_plan_def)
  moreover have "i div ci_chunk_size ci < length (ci_hashes ci) \<and> ci_hashes ci ! (i div ci_chunk_size ci) = sha bs"
    using h by (auto simp: expected_hash_def Let_def x split: if_splits)
  ultimately show ?thesis unfolding verified_byte_def using i len x(2) by force
qed

context uffd_mm
begin

lemma serve_verified:
  assumes inv: "lazy_inv sha (vm_lazy vm)" and len: "length snap = lz_len (vm_lazy vm)"
    and ci: "src_integrity (lz_source (vm_lazy vm)) = Some ci"
    and m': "m' = vm_mem (snd (serve U sha snap a pf vm))"
    and new: "resident H m' (i div PAGE_SIZE)" "\<not> resident H (vm_mem vm) (i div PAGE_SIZE)"
  shows "verified_byte sha (vm_lazy vm) ci i (content H m' i)"
proof -
  let ?lz = "vm_lazy vm"
  let ?P = "\<lambda>m'. resident H m' (i div PAGE_SIZE) \<longrightarrow> verified_byte sha ?lz ci i (content H m' i)"
  have c: "0 < ci_chunk_size ci" and z0: "src_zero_hash (lz_source ?lz) = Some (sha (replicate (ci_chunk_size ci) 0))"
    using inv ci by (auto simp: lazy_inv_def is_power_of_two_def)
  have from_pop: "?P m'" if "populates H (fp_copy fp) (fp_len fp) (\<lambda>i. bs ! (i - fp_copy fp)) (vm_mem vm) m'"
    "\<And>i. fp_copy fp \<le> i \<Longrightarrow> i < fp_copy fp + fp_len fp \<Longrightarrow> verified_byte sha ?lz ci i (bs ! (i - fp_copy fp))"
    for fp bs m' using that new(2) by (auto simp: populates_def)
  have zero: "?P (rs_mem (resolve (uffdio_zeropage U) pf fp (vm_mem vm)))"
    if p: "plan_fault ?lz a = Some fp" and z: "zero_chunk ?lz (fp_copy fp) (fp_len fp)" for fp
  proof (rule from_pop)
    note plan = plan_fault_SomeD(1) [OF inv p]
    let ?z = "replicate (fp_len fp) 0"
    show "populates H (fp_copy fp) (fp_len fp) (\<lambda>i. ?z ! (i - fp_copy fp)) (vm_mem vm)
      (rs_mem (resolve (uffdio_zeropage U) pf fp (vm_mem vm)))"
      by (rule populates_weaken [OF resolve_zero [OF plan]]) auto
    fix i assume "fp_copy fp \<le> i" "i < fp_copy fp + fp_len fp"
    then show "verified_byte sha ?lz ci i (?z ! (i - fp_copy fp))"
      by (rule verified_byteI [OF plan ci _ _ c]) (use z z0 ci in \<open>auto simp: zero_chunk_def\<close>)
  qed
  have copy: "?P (rs_mem (resolve (copy_ioctl U (fp_copy fp) bs) pf fp (vm_mem vm)))"
    if p: "plan_fault ?lz a = Some fp" and bs: "chunk_bytes sha snap ?lz fp = Some bs" for fp bs
  proof (rule from_pop)
    note plan = plan_fault_SomeD(1) [OF inv p]
    note nth = chunk_bytes_nth [OF len plan bs]
    show "populates H (fp_copy fp) (fp_len fp) (\<lambda>i. bs ! (i - fp_copy fp)) (vm_mem vm)
      (rs_mem (resolve (copy_ioctl U (fp_copy fp) bs) pf fp (vm_mem vm)))"
      by (rule resolve_copy [OF plan nth(1)])
    let ?raw = "take (fp_len fp) (drop (fp_copy fp) snap)"
    have rl: "length ?raw = fp_len fp" using plan len by (auto simp: good_plan_def)
    fix i assume i: "fp_copy fp \<le> i" "i < fp_copy fp + fp_len fp"
    have "?raw ! (i - fp_copy fp) = snap ! i" using i plan len by (simp add: good_plan_def)
    then show "verified_byte sha ?lz ci i (bs ! (i - fp_copy fp))"
      using verified_byteI [where sha = sha and bs = ?raw, OF plan ci i c nth(3) [OF ci] rl] nth(2) [OF i]
      by (auto simp: verified_byte_def)
  qed
  have "?P (vm_mem (snd (serve U sha snap a pf vm)))"
    by (rule serve_rule [where P = "\<lambda>r. ?P (vm_mem (snd r))"])
      (use new(2) zero copy in \<open>simp_all add: finish_fault_mem\<close>)
  then show ?thesis using new m' by simp
qed

lemma handler_iteration_verified:
  assumes inv: "lazy_inv sha (vm_lazy vm)" and len: "length snap = lz_len (vm_lazy vm)"
    and ci: "src_integrity (lz_source (vm_lazy vm)) = Some ci"
    and it: "handler_iteration U sha snap inp vm = (flow, vm')"
    and new: "resident H (vm_mem vm') (i div PAGE_SIZE)" "\<not> resident H (vm_mem vm) (i div PAGE_SIZE)"
  shows "verified_byte sha (vm_lazy vm) ci i (content H (vm_mem vm') i)"
proof -
  let ?P = "\<lambda>r. resident H (vm_mem (snd r)) (i div PAGE_SIZE) \<longrightarrow>
    verified_byte sha (vm_lazy vm) ci i (content H (vm_mem (snd r)) i)"
  have "?P (handler_iteration U sha snap inp vm)"
  proof (rule handler_iteration_rule [where P = ?P])
    fix hd a pf
    show "?P (serve U sha snap a pf (vm\<lparr>vm_handler := hd\<rparr>))"
      using serve_verified [of sha "vm\<lparr>vm_handler := hd\<rparr>" snap ci _ a pf i] inv len ci new(2) by simp
  qed (use new(2) in simp_all)
  then show ?thesis using it new(1) by simp
qed

end

section \<open>The host-side reader\<close>

text \<open>A chunk as the manifest describes it: recorded as zero, or matching its hash.\<close>

definition chunk_authentic :: "(byte list \<Rightarrow> byte list) \<Rightarrow> lazy \<Rightarrow> chunk_integrity \<Rightarrow> usize \<Rightarrow> bool" where
  "chunk_authentic sha lz ci at \<longleftrightarrow>
     zero_chunk lz at (chunk_span lz ci at) \<or>
     expected_hash ci at = Some (sha (take (chunk_span lz ci at) (drop at (snapshot lz))))"

lemma read_source:
  assumes "lazy_inv sha lz" and "at + n \<le> lz_len lz"
  shows "read_exact_at (src_file (lz_source lz)) (src_offset (lz_source lz) + at) n =
    Ok (take n (drop at (snapshot lz)))"
proof -
  have "src_offset (lz_source lz) + lz_len lz \<le> length (src_file (lz_source lz))"
    using assms(1) by (simp add: lazy_inv_def)
  then show ?thesis using assms(2)
    by (simp add: read_exact_at_def snapshot_def drop_take take_drop [symmetric] min_def ac_simps)
qed

lemma chunk_index_bound:
  assumes "0 < c" and "at mod c = 0" and "at < len"
  shows "at div c < div_ceil len c"
proof -
  have "at div c * c < len" using assms(2,3) by (metis div_mult_mod_eq add_0_right)
  then show ?thesis using assms(1) by (simp add: less_div_ceil_iff)
qed

lemma read_chunk_ok:
  assumes inv: "lazy_inv sha lz" and ci: "src_integrity (lz_source lz) = Some ci"
    and at: "at mod ci_chunk_size ci = 0" "at < lz_len lz" and n: "n = chunk_span lz ci at"
  shows "read_chunk sha (lz_source lz) ci at n =
    (if chunk_authentic sha lz ci at then Ok (map (source_byte lz) [at..<at + n]) else Err Uffd)"
proof -
  have c: "0 < ci_chunk_size ci" and hl: "length (ci_hashes ci) = div_ceil (lz_len lz) (ci_chunk_size ci)"
    using inv ci by (auto simp: lazy_inv_def is_power_of_two_def)
  have idx: "\<not> length (ci_hashes ci) \<le> at div ci_chunk_size ci"
    using chunk_index_bound [OF c at] hl by simp
  have le: "at + n \<le> lz_len lz" using n at(2) by (simp add: chunk_span_def)
  have own: "i div ci_chunk_size ci * ci_chunk_size ci = at" if "at \<le> i" "i < at + n" for i
  proof -
    obtain k where k: "at = ci_chunk_size ci * k" using at(1) by (auto simp: mod_eq_0_iff_dvd)
    have "i < ci_chunk_size ci * k + ci_chunk_size ci" using that n by (simp add: chunk_span_def k)
    then have "i div ci_chunk_size ci = k" using that(1) k by (intro div_nat_eqI) (simp_all add: mult.commute)
    then show ?thesis by (simp add: k mult.commute)
  qed
  have zc: "zero_chunk lz at n \<longleftrightarrow> n = ci_chunk_size ci \<and>
      src_zero_hash (lz_source lz) = Some (ci_hashes ci ! (at div ci_chunk_size ci))"
    using idx by (auto simp: zero_chunk_def ci expected_hash_def Let_def)
  have eh: "expected_hash ci at = Some (ci_hashes ci ! (at div ci_chunk_size ci))"
    using idx by (simp add: expected_hash_def Let_def)
  let ?raw = "take n (drop at (snapshot lz))"
  have src: "map (source_byte lz) [at..<at + n] = (if zero_chunk lz at n then replicate n 0 else ?raw)"
    by (rule nth_equalityI)
      (use own le n length_snapshot [OF inv] in \<open>auto simp: source_byte_def ci Let_def\<close>)
  show ?thesis
    using idx read_source [OF inv le]
    by (auto simp: read_chunk_def Let_def zc [symmetric] src chunk_authentic_def n [symmetric] eh
        chunk_sha256_matches_def)
qed

text \<open>Every chunk that meets the range is authentic.\<close>

definition range_authentic ::
  "(byte list \<Rightarrow> byte list) \<Rightarrow> lazy \<Rightarrow> chunk_integrity \<Rightarrow> usize \<Rightarrow> usize \<Rightarrow> bool" where
  "range_authentic sha lz ci at len \<longleftrightarrow>
     (\<forall>i. at \<le> i \<and> i < at + len \<longrightarrow>
        chunk_authentic sha lz ci (i div ci_chunk_size ci * ci_chunk_size ci))"

lemma range_authentic_split:
  assumes "n \<le> len"
  shows "range_authentic sha lz ci at len \<longleftrightarrow>
     range_authentic sha lz ci at n \<and> range_authentic sha lz ci (at + n) (len - n)"
proof -
  have "at \<le> i \<and> i < at + len \<longleftrightarrow>
      at \<le> i \<and> i < at + n \<or> at + n \<le> i \<and> i < at + n + (len - n)" for i
    using assms by linarith
  then show ?thesis unfolding range_authentic_def by blast
qed

lemma range_authentic_chunk:
  assumes "0 < n" "n \<le> ci_chunk_size ci" and "at mod ci_chunk_size ci = 0"
  shows "range_authentic sha lz ci at n \<longleftrightarrow> chunk_authentic sha lz ci at"
proof -
  have "i div ci_chunk_size ci * ci_chunk_size ci = at" if "at \<le> i" "i < at + n" for i
  proof -
    obtain k where k: "at = ci_chunk_size ci * k" using assms(3) by (auto simp: mod_eq_0_iff_dvd)
    have "i < ci_chunk_size ci * k + ci_chunk_size ci" using that assms(2) by (simp add: k)
    then have "i div ci_chunk_size ci = k" using that(1) k by (intro div_nat_eqI) (simp_all add: mult.commute)
    then show ?thesis by (simp add: k mult.commute)
  qed
  moreover have "at < at + n" using assms(1) by simp
  ultimately show ?thesis unfolding range_authentic_def by (metis order_refl)
qed

lemma read_chunks_ok:
  assumes inv: "lazy_inv sha lz" and ci: "src_integrity (lz_source lz) = Some ci"
    and "at mod ci_chunk_size ci = 0" "at + len \<le> lz_len lz"
    and "len mod ci_chunk_size ci = 0 \<or> at + len = lz_len lz"
  shows "read_chunks sha (lz_source lz) ci at len =
    (if range_authentic sha lz ci at len then Ok (map (source_byte lz) [at..<at + len]) else Err Uffd)"
  using assms(3-5)
proof (induction len arbitrary: at rule: less_induct)
  case (less len)
  let ?c = "ci_chunk_size ci"
  have c: "0 < ?c" using inv ci by (auto simp: lazy_inv_def is_power_of_two_def)
  show ?case
  proof (cases "len = 0")
    case True
    then show ?thesis by (simp add: read_chunks.simps range_authentic_def)
  next
    case False
    define n where "n = min ?c len"
    have "?c \<le> len \<or> at + len = lz_len lz"
      using less.prems False by (metis mod_less not_le_imp_less)
    then have n: "n = chunk_span lz ci at" using less.prems(2) by (auto simp: n_def chunk_span_def)
    have n0: "0 < n" "n \<le> len" "n \<le> ?c" using c False by (simp_all add: n_def)
    have rest: "read_chunks sha (lz_source lz) ci (at + n) (len - n) =
      (if range_authentic sha lz ci (at + n) (len - n)
       then Ok (map (source_byte lz) [at + n..<at + len]) else Err Uffd)"
    proof (cases "len - n = 0")
      case True
      then show ?thesis by (simp add: read_chunks.simps range_authentic_def)
    next
      case nz: False
      then have nc: "n = ?c" by (simp add: n_def min_def split: if_splits)
      have "(len - n) mod ?c = 0 \<or> at + n + (len - n) = lz_len lz"
        using less.prems(3) n0 nc by (auto simp: mod_eq_0_iff_dvd)
      then show ?thesis
        using less.IH [of "len - n" "at + n"] less.prems n0 nc by simp
    qed
    have split: "[at..<at + len] = [at..<at + n] @ [at + n..<at + len]"
      using upt_add_eq_append [of at "at + n" "len - n"] n0 by simp
    have "read_chunk sha (lz_source lz) ci at n =
      (if chunk_authentic sha lz ci at then Ok (map (source_byte lz) [at..<at + n]) else Err Uffd)"
      by (rule read_chunk_ok [OF inv ci less.prems(1) _ n]) (use less.prems(2) False in simp)
    then show ?thesis
      unfolding range_authentic_split [OF n0(2)] range_authentic_chunk [OF n0(1,3) less.prems(1)]
      using False c rest
      by (subst read_chunks.simps) (simp add: Let_def n_def [symmetric] split)
  qed
qed

text \<open>The whole read: what it checks, and that it returns the bytes a fault would install.\<close>

lemma read_untouched_eq:
  assumes inv: "lazy_inv sha lz"
    and r: "off + len \<le> lz_len lz" "off mod untouched_chunk lz = 0"
      "len mod untouched_chunk lz = 0 \<or> off + len = lz_len lz"
  shows "read_untouched sha lz off len =
    (if \<forall>ci. src_integrity (lz_source lz) = Some ci \<longrightarrow> range_authentic sha lz ci off len
     then Ok (map (missing_byte lz) [off..<off + len]) else Err Uffd)"
proof -
  have ov: "off + len < 2 ^ 64" using inv r(1) by (simp add: lazy_inv_def)
  have al: "page_aligned off"
  proof (cases "src_integrity (lz_source lz)")
    case None
    then have "PAGE_SIZE * 512 dvd off" using r(2)
      by (simp add: untouched_chunk_def UNTOUCHED_READ_CHUNK_def PAGE_SIZE_def mod_eq_0_iff_dvd)
    then show ?thesis by (simp add: page_aligned_def mod_eq_0_iff_dvd dvd_mult_left)
  next
    case (Some ci)
    then show ?thesis using r(2) inv
      by (auto simp: untouched_chunk_def lazy_inv_def page_aligned_def mod_eq_0_iff_dvd intro: dvd_trans)
  qed
  have pg: "off div PAGE_SIZE + k div PAGE_SIZE = (off + k) div PAGE_SIZE" for k
    using page_of_offset [OF al, of "off + k"] by simp
  have zd: "zero_discarded (lz_discarded lz) (off div PAGE_SIZE) (map (source_byte lz) [off..<off + len]) =
      map (missing_byte lz) [off..<off + len]"
    by (rule nth_equalityI)
      (simp_all add: nth_zero_discarded missing_byte_def pg)
  have raw: "take len (drop off (snapshot lz)) = map (source_byte lz) [off..<off + len]"
    if "src_integrity (lz_source lz) = None"
    by (rule nth_equalityI)
      (use that r(1) length_snapshot [OF inv] in \<open>auto simp: source_byte_def\<close>)
  show ?thesis
  proof (cases "src_integrity (lz_source lz)")
    case None
    then show ?thesis using r ov read_source [OF inv r(1)] zd raw
      by (auto simp: read_untouched_def checked_add_def Let_def)
  next
    case (Some ci)
    then have "untouched_chunk lz = ci_chunk_size ci" by (simp add: untouched_chunk_def)
    then show ?thesis using r ov zd read_chunks_ok [OF inv Some, of off len] Some
      by (auto simp: read_untouched_def checked_add_def Let_def)
  qed
qed

section \<open>The sequential discard\<close>

context lazy_mm
begin

lemma discard_page_view:
  assumes "discard_page H p m = Ok m'" and "page_discarded (lz_discarded lz) p"
  shows "lazy_view H lz m' i = (if i div PAGE_SIZE = p then 0 else lazy_view H lz m i)"
proof -
  consider "mincore H m p = Some False" "m' = m"
    | "dontneed H m (p * PAGE_SIZE) PAGE_SIZE = Some m'"
    using assms(1)
    by (auto simp: discard_page_def ok_or_def split: option.splits bool.splits)
  then show ?thesis
  proof cases
    case 1
    then have "\<not> resident H m p" using mincore_resident by blast
    then show ?thesis using 1 assms(2) by (auto simp: lazy_view_def missing_byte_def)
  next
    case 2
    then show ?thesis using drop_page_view [OF 2] assms(2) by (simp add: missing_byte_def)
  qed
qed

lemma discard_pages_view:
  assumes "discard_pages H base ps m = (r, m')" and "\<forall>p \<in> set ps. page_discarded (lz_discarded lz) p"
  shows "(r = Ok () \<longrightarrow> i div PAGE_SIZE \<in> set ps \<longrightarrow> lazy_view H lz m' i = 0) \<and>
    (lazy_view H lz m' i = lazy_view H lz m i \<or>
     i div PAGE_SIZE \<in> set ps \<and> lazy_view H lz m' i = 0)"
  using assms
proof (induction ps arbitrary: m)
  case (Cons p ps)
  show ?case
  proof (cases "2 ^ 64 \<le> base + p * PAGE_SIZE")
    case True
    then show ?thesis using Cons.prems by auto
  next
    case ok: False
    show ?thesis
    proof (cases "discard_page H p m")
      case (Inl e)
      then show ?thesis using Cons.prems ok by auto
    next
      case (Inr m1)
      have v: "lazy_view H lz m1 i = (if i div PAGE_SIZE = p then 0 else lazy_view H lz m i)"
        by (rule discard_page_view [OF Inr]) (use Cons.prems in simp)
      have "discard_pages H base ps m1 = (r, m')" using Cons.prems Inr ok by simp
      then show ?thesis using Cons.IH [of m1] Cons.prems(2) v by (auto split: if_splits)
    qed
  qed
qed simp

text \<open>A discard zeroes its range and only its range; an error leaves each byte alone or zero.\<close>

lemma discard_view:
  assumes inv: "lazy_inv sha lz" and v: "discard_valid lz off len"
  shows "\<exists>r lz' m'. discard H off len lz m = Some (r, lz', m') \<and> lazy_inv sha lz' \<and>
    (\<forall>i. (r = Ok () \<longrightarrow> off \<le> i \<longrightarrow> i < off + len \<longrightarrow> lazy_view H lz' m' i = 0) \<and>
      (lazy_view H lz' m' i = lazy_view H lz m i \<or>
       off \<le> i \<and> i < off + len \<and> lazy_view H lz' m' i = 0))"
proof -
  let ?ps = "[off div PAGE_SIZE..<(off + len) div PAGE_SIZE]"
  obtain d' where mk: "discard_mark off len lz = Some (lz\<lparr>lz_discarded := d'\<rparr>)"
    and l: "length d' = length (lz_discarded lz)"
    and d': "\<And>p. page_discarded d' p \<longleftrightarrow> page_discarded (lz_discarded lz) p \<or>
       off div PAGE_SIZE \<le> p \<and> p < (off + len) div PAGE_SIZE"
    using discard_mark_Some [OF inv v] by blast
  let ?lz = "lz\<lparr>lz_discarded := d'\<rparr>"
  obtain r m' where p: "discard_pages H (lz_base lz) ?ps m = (r, m')" by fastforce
  have rng: "i div PAGE_SIZE \<in> set ?ps \<longleftrightarrow> off \<le> i \<and> i < off + len" for i
    using page_in_range [of off len i] v by (simp add: discard_valid_def)
  have mark: "lazy_view H ?lz m i = lazy_view H lz m i \<or>
      off \<le> i \<and> i < off + len \<and> lazy_view H ?lz m i = 0" for i
    using d' [of "i div PAGE_SIZE"] rng [of i] by (auto simp: lazy_view_def missing_byte_def)
  have walk: "(r = Ok () \<longrightarrow> off \<le> i \<and> i < off + len \<longrightarrow> lazy_view H ?lz m' i = 0) \<and>
     (lazy_view H ?lz m' i = lazy_view H ?lz m i \<or>
      (off \<le> i \<and> i < off + len) \<and> lazy_view H ?lz m' i = 0)" for i
    by (rule discard_pages_view [OF p, of ?lz i, unfolded rng]) (simp add: d')
  have "discard H off len lz m = Some (r, ?lz, m')" using v by (simp add: discard_def mk p)
  moreover have "lazy_inv sha ?lz" using inv l by simp
  ultimately show ?thesis using walk mark by (intro exI [of _ r] exI [of _ ?lz] exI [of _ m']) metis
qed

end

section \<open>The set of touched chunks\<close>

lemma trailing_zeros_bit:
  assumes "w \<noteq> 0"
  shows "trailing_zeros w < 64" "bit w (trailing_zeros w)" "\<And>k. k < trailing_zeros w \<Longrightarrow> \<not> bit w k"
proof -
  obtain n where n: "bit w n" using assms by (auto simp: bit_eq_iff)
  then have "n < 64" using bit_imp_le_length [OF n] by simp
  then obtain k where k: "find (bit w) [0..<64] = Some k"
    using n by (cases "find (bit w) [0..<64]") (auto simp: find_None_iff)
  then have t: "trailing_zeros w = k" by (simp add: trailing_zeros_def)
  obtain j where j: "j < 64" "bit w ([0..<64] ! j)" "k = [0..<64] ! j" "\<forall>i<j. \<not> bit w ([0..<64] ! i)"
    using k by (auto simp: find_Some_iff)
  then have "k = j" by (metis nth_upt add_0 diff_zero)
  then show "trailing_zeros w < 64" "bit w (trailing_zeros w)" "\<And>i. i < trailing_zeros w \<Longrightarrow> \<not> bit w i"
    using j t by auto
qed

text \<open>\<open>w & (w - 1)\<close> clears the lowest set bit.\<close>

lemma bit_minus_one:
  assumes "w \<noteq> (0 :: 64 word)"
  shows "bit (w AND (w - 1)) k \<longleftrightarrow> bit w k \<and> k \<noteq> trailing_zeros w"
proof -
  let ?t = "trailing_zeros w"
  note t = trailing_zeros_bit [OF assms]
  define hi where "hi = w AND NOT (mask (Suc ?t))"
  have hi: "bit hi k \<longleftrightarrow> bit w k \<and> ?t < k" for k
    by (auto simp: hi_def bit_and_iff bit_not_iff bit_mask_iff dest: bit_imp_le_length)
  have p: "bit ((2 :: 64 word) ^ ?t) k \<longleftrightarrow> k = ?t" for k
    using t(1) by (auto simp: bit_exp_iff)
  have m: "bit (mask ?t :: 64 word) k \<longleftrightarrow> k < ?t" for k
    using t(1) by (auto simp: bit_mask_iff)
  have w: "w = hi OR 2 ^ ?t"
  proof (rule bit_eqI)
    fix k show "bit w k \<longleftrightarrow> bit (hi OR 2 ^ ?t) k"
      using t(2) t(3) [of k] by (cases k ?t rule: linorder_cases) (simp_all add: bit_or_iff hi p)
  qed
  have "hi AND 2 ^ ?t = 0" by (rule bit_eqI) (auto simp: bit_and_iff hi p)
  then have sum: "w = hi + 2 ^ ?t"
    using word_plus_and_or [of hi "2 ^ ?t"] w by simp
  have "hi AND mask ?t = 0" by (rule bit_eqI) (auto simp: bit_and_iff hi m)
  moreover have "w - 1 = hi + mask ?t" by (subst sum) (simp add: mask_eq_exp_minus_1)
  ultimately have v: "w - 1 = hi OR mask ?t" using word_plus_and_or [of hi "mask ?t"] by simp
  show ?thesis unfolding v using t(2) t(3) [of k] by (cases k ?t rule: linorder_cases) (simp_all add: bit_and_iff bit_or_iff hi m)
qed

lemma filter_bit_step:
  assumes "w \<noteq> (0 :: 64 word)"
  shows "filter (bit w) [0..<64] = trailing_zeros w # filter (bit (w AND (w - 1))) [0..<64]"
proof -
  let ?t = "trailing_zeros w"
  note t = trailing_zeros_bit [OF assms]
  have "[0..<64] = [0..<?t] @ [?t..<64]" using upt_add_eq_append [of 0 ?t "64 - ?t"] t(1) by simp
  then have split: "[0..<64] = [0..<?t] @ ?t # [Suc ?t..<64]" using upt_conv_Cons [OF t(1)] by simp
  have "filter (bit w) [Suc ?t..<64] = filter (bit (w AND (w - 1))) [Suc ?t..<64]"
    by (rule filter_cong) (auto simp: bit_minus_one [OF assms])
  moreover have "filter (bit w) [0..<?t] = []" "filter (bit (w AND (w - 1))) [0..<?t] = []"
    using t(3) by (auto simp: filter_empty_conv bit_minus_one [OF assms])
  ultimately show ?thesis using t(2) unfolding split by (simp add: bit_minus_one [OF assms])
qed

lemma word_indices_eq:
  assumes "wi * 64 + 64 \<le> 2 ^ 32"
  shows "word_indices wi w = map (\<lambda>k. wi * 64 + k) (filter (bit w) [0..<64])"
  using assms
proof (induction wi w rule: word_indices.induct)
  case (1 wi w)
  show ?case
  proof (cases "w = 0")
    case False
    have "wi * 64 + trailing_zeros w < 2 ^ 32" using 1(2) trailing_zeros_bit(1) [OF False] by simp
    then show ?thesis
      by (subst word_indices.simps) (simp add: False Let_def filter_bit_step [OF False] 1)
  qed (simp add: word_indices.simps)
qed

text \<open>Membership in the set, as the bits record it.\<close>

definition is_touched :: "touched_chunks \<Rightarrow> nat \<Rightarrow> bool" where
  "is_touched t c \<longleftrightarrow> c div 64 < length (tc_bits t) \<and> bit (tc_bits t ! (c div 64)) (c mod 64)"

definition touched_inv :: "touched_chunks \<Rightarrow> bool" where
  "touched_inv t \<longleftrightarrow> length (tc_bits t) = div_ceil (tc_chunks t) 64 \<and> length (tc_bits t) * 64 \<le> 2 ^ 32"

lemma touched_mark_correct:
  assumes "touched_inv t"
  shows "touched_inv (touched_mark c t)"
    and "is_touched (touched_mark c t) k \<longleftrightarrow> is_touched t k \<or> k = c \<and> c < tc_chunks t"
proof -
  show "touched_inv (touched_mark c t)" using assms by (simp add: touched_mark_def touched_inv_def)
  have bound: "c div 64 < length (tc_bits t)" if "c < tc_chunks t"
  proof -
    have "c div 64 * 64 \<le> c" by (rule div_times_less_eq_dividend)
    then show ?thesis using assms that by (simp add: touched_inv_def less_div_ceil_iff)
  qed
  have same: "k div 64 = c div 64 \<Longrightarrow> k mod 64 = c mod 64 \<Longrightarrow> k = c"
    by (metis div_mult_mod_eq)
  show "is_touched (touched_mark c t) k \<longleftrightarrow> is_touched t k \<or> k = c \<and> c < tc_chunks t"
    using bound same
    by (auto simp: touched_mark_def is_touched_def nth_list_update bit_simps)
qed

lemma touched_new_correct:
  assumes "div_ceil n 64 * 64 \<le> 2 ^ 32"
  shows "touched_inv (touched_new n cs) \<and>
    (\<forall>k. is_touched (touched_new n cs) k \<longleftrightarrow> k \<in> set cs \<and> k < n)"
proof -
  have gen: "touched_inv (fold touched_mark cs t) \<and> tc_chunks (fold touched_mark cs t) = tc_chunks t \<and>
     (\<forall>k. is_touched (fold touched_mark cs t) k \<longleftrightarrow> is_touched t k \<or> k \<in> set cs \<and> k < tc_chunks t)"
    if "touched_inv t" for t
    using that
  proof (induction cs arbitrary: t)
    case (Cons c cs)
    have "tc_chunks (touched_mark c t) = tc_chunks t" by (simp add: touched_mark_def)
    then show ?case
      using Cons.IH [of "touched_mark c t"] touched_mark_correct [OF Cons.prems, of c] by auto
  qed simp
  let ?t = "\<lparr>tc_bits = replicate (div_ceil n 64) 0, tc_chunks = n\<rparr>"
  have "touched_inv ?t" using assms by (simp add: touched_inv_def)
  moreover have "\<not> is_touched ?t k" for k by (simp add: is_touched_def)
  ultimately show ?thesis using gen [of ?t] by (simp add: touched_new_def)
qed

lemma sorted_concat_blocks:
  "sorted_wrt (<) (concat (map (\<lambda>(wi, w). map (\<lambda>k. wi * 64 + k) (filter (bit w) [0..<64])) (enumerate n ws))) \<and>
   (\<forall>x \<in> set (concat (map (\<lambda>(wi, w). map (\<lambda>k. wi * 64 + k) (filter (bit w) [0..<64])) (enumerate n ws))).
      n * 64 \<le> x)" for ws :: "64 word list"
proof (induction ws arbitrary: n)
  case (Cons w ws)
  have "sorted_wrt (<) (map (\<lambda>k. n * 64 + k) (filter (bit w) [0..<64]))"
    by (auto simp: sorted_wrt_map intro!: sorted_wrt_filter)
  then show ?case using Cons.IH [of "Suc n"] by (fastforce simp: sorted_wrt_append)
qed simp

lemma touched_indices_correct:
  assumes "touched_inv t"
  shows "sorted_wrt (<) (touched_indices t) \<and> (\<forall>k. k \<in> set (touched_indices t) \<longleftrightarrow> is_touched t k)"
proof -
  let ?f = "\<lambda>(wi, w). map (\<lambda>k. wi * 64 + k) (filter (bit w) [0..<64])"
  have "word_indices wi w = ?f (wi, w)" if "(wi, w) \<in> set (enumerate 0 (tc_bits t))" for wi w
  proof -
    have "wi < length (tc_bits t)" using that by (simp add: in_set_enumerate_eq)
    then have "(wi + 1) * 64 \<le> length (tc_bits t) * 64" by simp
    then show ?thesis using assms word_indices_eq [of wi w] by (simp add: touched_inv_def)
  qed
  then have eq: "touched_indices t = concat (map ?f (enumerate 0 (tc_bits t)))"
    unfolding touched_indices_def by (intro arg_cong [where f = concat] map_cong) auto
  have "k \<in> set (concat (map ?f (enumerate 0 (tc_bits t)))) \<longleftrightarrow> is_touched t k" for k
  proof
    assume "is_touched t k"
    then have "(k div 64, tc_bits t ! (k div 64)) \<in> set (enumerate 0 (tc_bits t))"
      "bit (tc_bits t ! (k div 64)) (k mod 64)" by (simp_all add: is_touched_def in_set_enumerate_eq)
    moreover have "k = k div 64 * 64 + k mod 64" by simp
    ultimately show "k \<in> set (concat (map ?f (enumerate 0 (tc_bits t))))" by force
  next
    assume "k \<in> set (concat (map ?f (enumerate 0 (tc_bits t))))"
    then show "is_touched t k" by (auto simp: is_touched_def in_set_enumerate_eq)
  qed
  then show ?thesis unfolding eq using sorted_concat_blocks [of 0 "tc_bits t"] by blast
qed

end
