(* ===== verification/LazyClaims.thy ===== *)
theory LazyClaims
  imports LazyFacts
begin

text \<open>
  The properties of lazy restore on the parametric model, each at a concrete restore too.
\<close>

section \<open>A concrete restore\<close>

text \<open>
  Two pages of a snapshot filled with 7, without a manifest (\<open>ex_lazy\<close>) and with one
  (\<open>ex_manifest\<close>); the second page was discarded. Nothing is resident, and a fault
  on the first page waits.
\<close>

definition ex_sha :: "byte list \<Rightarrow> byte list" where
  "ex_sha bs = (if list_all (\<lambda>b. b = 0) bs then [0] else [1])"

definition ex_lazy :: lazy where
  "ex_lazy = \<lparr>lz_base = 0x10000, lz_len = 8192, lz_discarded = [False, True],
     lz_source = \<lparr>src_file = replicate 8192 7, src_offset = 0, src_integrity = None, src_zero_hash = None\<rparr>,
     lz_touched = None\<rparr>"

definition ex_manifest :: lazy where
  "ex_manifest = ex_lazy\<lparr>
     lz_source := \<lparr>src_file = replicate 8192 7, src_offset = 0,
       src_integrity = Some \<lparr>ci_chunk_size = 4096, ci_hashes = [[1], [1]], ci_prefetch = []\<rparr>,
       src_zero_hash = Some [0]\<rparr>,
     lz_touched := Some (touched_new 2 [])\<rparr>"

definition ex_mem :: packed_mem where
  "ex_mem = \<lparr>pm_size = 8192, pm_resident = (\<lambda>_. False), pm_content = (\<lambda>_. 0), pm_mapped = (\<lambda>_. None)\<rparr>"

definition ex_vm :: "lazy \<Rightarrow> packed_mem lazy_vm" where
  "ex_vm lz = \<lparr>vm_lazy = lz,
     vm_handler = (handler_init (Some {}) lz)\<lparr>hd_pending := [0x10005]\<rparr>, vm_mem = ex_mem\<rparr>"

definition ex_poll :: poll_input where
  "ex_poll = \<lparr>pi_shutdown = False, pi_rc = 0, pi_eintr = False, pi_wake = False,
     pi_wake_shutdown = False, pi_hangup = False, pi_readable = False, pi_reads = []\<rparr>"

lemma ex_lazy_inv: "lazy_inv sha ex_lazy" "zero_unforgeable sha ex_lazy"
  by (simp_all add: lazy_inv_def zero_unforgeable_def ex_lazy_def page_aligned_def PAGE_SIZE_def)

lemma ex_manifest_inv: "lazy_inv ex_sha ex_manifest"
  by (simp add: lazy_inv_def ex_manifest_def ex_lazy_def page_aligned_def PAGE_SIZE_def
      is_power_of_two_def ex_sha_def div_ceil_def list_all_iff)

lemma ex_plan:
  "plan_fault ex_lazy 0x10005 = Some \<lparr>fp_page = 0, fp_copy = 0, fp_len = 4096\<rparr>"
  "plan_fault ex_manifest 0x10005 = Some \<lparr>fp_page = 0, fp_copy = 0, fp_len = 4096\<rparr>"
  by (simp_all add: plan_fault_def ex_manifest_def ex_lazy_def align_down_def PAGE_SIZE_def)

text \<open>The iteration resolves the waiting fault.\<close>

lemma ex_chunk:
  "chunk_bytes sha (snapshot ex_lazy) ex_lazy \<lparr>fp_page = 0, fp_copy = 0, fp_len = 4096\<rparr> = Some (replicate 4096 7)"
  "chunk_bytes ex_sha (snapshot ex_manifest) ex_manifest \<lparr>fp_page = 0, fp_copy = 0, fp_len = 4096\<rparr> =
     Some (replicate 4096 7)"
  "zero_chunk ex_lazy 0 4096 = False" "zero_chunk ex_manifest 0 4096 = False"
  by (simp_all add: chunk_bytes_def any_discarded_def page_discarded_def snapshot_def zero_chunk_def
      expected_hash_def chunk_sha256_matches_def ex_sha_def list_all_iff ex_manifest_def ex_lazy_def
      PAGE_SIZE_def)

lemma ex_resolve:
  "resolve (copy_ioctl packed_uffd 0 (replicate 4096 7)) False \<lparr>fp_page = 0, fp_copy = 0, fp_len = 4096\<rparr> ex_mem =
     \<lparr>rs_errno = None, rs_off = 0, rs_len = 4096,
      rs_mem = snd (packed_populate ex_mem 0 4096 (\<lambda>i. replicate 4096 7 ! i))\<rparr>"
  by (simp add: resolve_def copy_ioctl_def packed_uffd_def packed_populate_def ex_mem_def list_ex_iff
      fun_eq_iff)

lemma ex_serve:
  assumes "lz = ex_lazy \<or> lz = ex_manifest \<and> sha = ex_sha" and "hd_zeropage h"
  shows "serve packed_uffd sha (snapshot lz) 0x10005 False \<lparr>vm_lazy = lz, vm_handler = h, vm_mem = ex_mem\<rparr> =
    finish_fault 0x10005 False \<lparr>fp_page = 0, fp_copy = 0, fp_len = 4096\<rparr>
      \<lparr>rs_errno = None, rs_off = 0, rs_len = 4096,
       rs_mem = snd (packed_populate ex_mem 0 4096 (\<lambda>i. replicate 4096 7 ! i))\<rparr>
      \<lparr>vm_lazy = lz, vm_handler = h, vm_mem = ex_mem\<rparr>"
  using assms by (auto simp: serve_def Let_def ex_plan ex_chunk ex_resolve)

lemma ex_iteration:
  "fst (handler_iteration packed_uffd sha (snapshot ex_lazy) ex_poll (ex_vm ex_lazy)) = Continue"
  "pm_resident (vm_mem (snd (handler_iteration packed_uffd ex_sha (snapshot ex_manifest) ex_poll
     (ex_vm ex_manifest)))) 0"
proof -
  have s: "handler_iteration packed_uffd sha snap ex_poll (ex_vm lz) =
      serve packed_uffd sha snap 0x10005 False
        \<lparr>vm_lazy = lz, vm_handler = handler_init (Some {}) lz, vm_mem = ex_mem\<rparr>" for sha snap lz
    by (simp add: handler_iteration_def serve_next_def ex_poll_def ex_vm_def handler_init_def)
  have z: "hd_zeropage (handler_init (Some {}) lz)" for lz by (simp add: handler_init_def)
  show "fst (handler_iteration packed_uffd sha (snapshot ex_lazy) ex_poll (ex_vm ex_lazy)) = Continue"
    unfolding s by (subst ex_serve) (simp_all add: z finish_fault_def Let_def)
  show "pm_resident (vm_mem (snd (handler_iteration packed_uffd ex_sha (snapshot ex_manifest) ex_poll
     (ex_vm ex_manifest)))) 0"
    unfolding s
    by (subst ex_serve) (simp_all add: z finish_fault_mem packed_populate_def ex_mem_def list_ex_iff)
qed

text \<open>
  The discard of the first page begins, finds the page missing, and then the handler
  resolves the fault on it.
\<close>

definition ex_sys :: "packed_mem lazy_sys" where
  "ex_sys = \<lparr>sys_vm = ex_vm ex_lazy, sys_todo = [], sys_drop = None\<rparr>"

definition ex_marked :: "packed_mem lazy_sys" where
  "ex_marked = ex_sys\<lparr>sys_vm := (ex_vm ex_lazy)\<lparr>vm_lazy := ex_lazy\<lparr>lz_discarded := [True, True]\<rparr>\<rparr>,
     sys_todo := [0]\<rparr>"

definition ex_done :: "packed_mem lazy_sys" where
  "ex_done = (ex_marked\<lparr>sys_todo := []\<rparr>)\<lparr>sys_vm := snd (handler_iteration packed_uffd ex_sha
     (snapshot (sys_lazy ex_marked)) ex_poll (sys_vm ex_marked))\<rparr>"

lemma ex_run: "lazy_run packed_host packed_uffd ex_sha ex_sys {} {0..<4096} ex_done"
proof -
  have 1: "lazy_step packed_host packed_uffd ex_sha ex_sys {} {0..<0 + 4096} ex_marked"
    unfolding ex_marked_def
    by (rule lazy_step.mark [where off = 0 and len = 4096, THEN back_subst [where P = "lazy_step _ _ _ _ _ _"]])
      (simp_all add: ex_sys_def ex_vm_def ex_lazy_def discard_valid_def discard_mark_def page_aligned_def
        PAGE_SIZE_def checked_add_def)
  have 2: "lazy_step packed_host packed_uffd ex_sha ex_marked {} {} (ex_marked\<lparr>sys_todo := []\<rparr>)"
    by (rule lazy_step.absent [where p = 0])
      (simp_all add: ex_marked_def ex_sys_def ex_vm_def ex_mem_def packed_host_def)
  have 3: "lazy_step packed_host packed_uffd ex_sha (ex_marked\<lparr>sys_todo := []\<rparr>) {} {} ex_done"
    unfolding ex_done_def
    by (rule lazy_step.handler [where inp = ex_poll and flow = "fst (handler_iteration packed_uffd ex_sha
          (snapshot (sys_lazy ex_marked)) ex_poll (sys_vm ex_marked))"]) simp
  show ?thesis
    using lazy_run.step [OF lazy_run.step [OF lazy_run.step [OF lazy_run.start 1] 2] 3] by simp
qed

section \<open>Properties\<close>





text \<open>
  C13: while the handler keeps running, a waiting fault stays queued until its page is
  resident: an iteration never drops one.
\<close>

theorem no_fault_lost:
  assumes "uffd_mm H U" and "lazy_inv sha (vm_lazy vm)" and "length snap = lz_len (vm_lazy vm)"
    and "handler_iteration U sha snap inp vm = (Continue, vm')"
    and "a \<in> set (hd_pending (vm_handler vm))"
  shows "a \<in> set (hd_pending (vm_handler vm')) \<or>
    resident H (vm_mem vm') ((a - lz_base (vm_lazy vm)) div PAGE_SIZE)"
  by (rule uffd_mm.handler_iteration_kept [OF assms])

theorem no_fault_lost_witness:
  "0x10005 \<in> set (hd_pending (vm_handler (snd (handler_iteration packed_uffd ex_sha (snapshot ex_lazy)
      ex_poll (ex_vm ex_lazy))))) \<or>
   resident packed_host (vm_mem (snd (handler_iteration packed_uffd ex_sha (snapshot ex_lazy)
      ex_poll (ex_vm ex_lazy)))) 0"
  using no_fault_lost [OF packed_lazy.uffd_mm_axioms, of ex_sha "ex_vm ex_lazy" "snapshot ex_lazy" ex_poll
      "snd (handler_iteration packed_uffd ex_sha (snapshot ex_lazy) ex_poll (ex_vm ex_lazy))" "0x10005"]
    ex_iteration(1) [of ex_sha] ex_lazy_inv length_snapshot [OF ex_lazy_inv(1)]
  by (simp add: prod_eq_iff ex_vm_def) (simp add: ex_lazy_def PAGE_SIZE_def)

text \<open>
  C6: with an integrity manifest, and even if the snapshot file has changed since the
  manifest was made, every byte the handler makes resident is zero on a discarded page or
  belongs to a chunk whose SHA-256 is the one in the manifest.
\<close>

theorem only_verified_bytes:
  assumes "uffd_mm H U" and "lazy_inv sha (vm_lazy vm)" and "length snap = lz_len (vm_lazy vm)"
    and "src_integrity (lz_source (vm_lazy vm)) = Some ci"
    and "handler_iteration U sha snap inp vm = (flow, vm')"
    and "resident H (vm_mem vm') (i div PAGE_SIZE)" and "\<not> resident H (vm_mem vm) (i div PAGE_SIZE)"
  shows "verified_byte sha (vm_lazy vm) ci i (content H (vm_mem vm') i)"
  by (rule uffd_mm.handler_iteration_verified [OF assms])

theorem only_verified_bytes_witness:
  "verified_byte ex_sha ex_manifest \<lparr>ci_chunk_size = 4096, ci_hashes = [[1], [1]], ci_prefetch = []\<rparr> 5
     (content packed_host (vm_mem (snd (handler_iteration packed_uffd ex_sha (snapshot ex_manifest)
        ex_poll (ex_vm ex_manifest)))) 5)"
  using only_verified_bytes [OF packed_lazy.uffd_mm_axioms, of ex_sha "ex_vm ex_manifest"
      "snapshot ex_manifest" "\<lparr>ci_chunk_size = 4096, ci_hashes = [[1], [1]], ci_prefetch = []\<rparr>" ex_poll
      "fst (handler_iteration packed_uffd ex_sha (snapshot ex_manifest) ex_poll (ex_vm ex_manifest))"
      "snd (handler_iteration packed_uffd ex_sha (snapshot ex_manifest) ex_poll (ex_vm ex_manifest))" 5]
    ex_iteration(2) ex_manifest_inv length_snapshot [OF ex_manifest_inv]
  by (simp add: ex_vm_def PAGE_SIZE_def packed_host_def ex_mem_def)
    (simp add: ex_manifest_def)

text \<open>
  C27: the host-side reader of untouched pages succeeds exactly when every chunk it meets is
  authentic, and then returns the bytes the fault handler would install there, discarded
  pages as zeros.
\<close>

theorem read_untouched_agrees:
  assumes "lazy_inv sha lz" and "off + len \<le> lz_len lz" and "off mod untouched_chunk lz = 0"
    and "len mod untouched_chunk lz = 0 \<or> off + len = lz_len lz"
    and "\<And>i. i \<in> {off..<off + len} \<Longrightarrow> \<not> resident H m (i div PAGE_SIZE)"
  shows "read_untouched sha lz off len =
    (if \<forall>ci. src_integrity (lz_source lz) = Some ci \<longrightarrow> range_authentic sha lz ci off len
     then Ok (map (lazy_view H lz m) [off..<off + len]) else Err Uffd)"
proof -
  have "map (missing_byte lz) [off..<off + len] = map (lazy_view H lz m) [off..<off + len]"
    using assms(5) by (auto simp: lazy_view_def)
  then show ?thesis using read_untouched_eq [OF assms(1-4)] by simp
qed

theorem read_untouched_agrees_witness:
  "read_untouched ex_sha ex_lazy 0 8192 = Ok (map (lazy_view packed_host ex_lazy ex_mem) [0..<8192])"
  using read_untouched_agrees [of ex_sha ex_lazy 0 8192 packed_host ex_mem] ex_lazy_inv(1)
  by (simp add: ex_lazy_def ex_mem_def packed_host_def)

text \<open>
  The recorded working set is the ascending list of exactly the in-range chunks the
  restore began with and those marked since.
\<close>

theorem working_set_exact:
  assumes "div_ceil n 64 * 64 \<le> 2 ^ 32"
    and "t = fold touched_mark later (touched_new n initial)"
  shows "sorted_wrt (<) (touched_indices t) \<and>
    set (touched_indices t) = {k \<in> set initial \<union> set later. k < n}"
proof -
  have "t = touched_new n (initial @ later)" by (simp add: assms(2) touched_new_def)
  then show ?thesis
    using touched_indices_correct [of t] touched_new_correct [OF assms(1), of "initial @ later"] by auto
qed

theorem working_set_exact_witness:
  "sorted_wrt (<) (touched_indices (fold touched_mark [64, 200] (touched_new 130 [3, 129]))) \<and>
   set (touched_indices (fold touched_mark [64, 200] (touched_new 130 [3, 129]))) = {3, 64, 129}"
proof -
  have "div_ceil 130 64 * 64 \<le> (2 :: nat) ^ 32" by (simp add: div_ceil_def)
  note * = working_set_exact [OF this refl, of "[64, 200]" "[3, 129]"]
  have "{k \<in> set [3, 129] \<union> set [64, 200]. k < 130} = {3, 64, 129 :: nat}" by auto
  with * show ?thesis by (simp only:)
qed

end
