(* ===== verification/Memory.thy ===== *)
theory Memory
  imports LazyFacts
begin

text \<open>
  \<open>GuestMemory\<close> (\<open>vmm-memory-backend/src/backend.rs\<close>): guest RAM together with the
  host-side dirty bitmap, the lazy-restore hook and the record of file-backed runs. Each
  operation is a function on the record; the host calls and the byte accesses are the
  parameters \<open>H\<close> and \<open>G\<close>. The results say what the guest reads after each operation,
  what is marked dirty, and that the record of file-backed runs is the host's mapping.
\<close>

datatype memory_error = Region | Assembly | OutOfBounds u64 u64

record 'm guest_memory =
  gm_mem :: 'm
  gm_size :: u64
  gm_dirty :: dirty_bitmap
  gm_lazy :: "lazy option"
  gm_file_backed :: bool
  gm_ranges :: file_ranges

section \<open>Construction\<close>

text \<open>
  \<open>mk\<close> builds the host mapping and its one or two regions for a size; huge pages round
  the size up to 2 MiB.
\<close>

definition actual_size :: "u64 \<Rightarrow> bool \<Rightarrow> u64" where
  "actual_size size_bytes huge_pages =
     (if huge_pages then
        let hp_size = 2 * 1024 * 1024 in
        if size_bytes mod hp_size \<noteq> 0
        then wrapping_mul 64 (size_bytes div hp_size + 1) hp_size else size_bytes
      else size_bytes)"

definition new_with_flags ::
  "(usize \<Rightarrow> 'm option) \<Rightarrow> u64 \<Rightarrow> bool \<Rightarrow> memory_error + 'm guest_memory" where
  "new_with_flags mk size_bytes huge_pages =
     (if size_bytes = 0 \<or> size_bytes mod 4096 \<noteq> 0 then Err Region
      else
        case mk (actual_size size_bytes huge_pages) of
          None \<Rightarrow> Err Assembly
        | Some m \<Rightarrow>
            Ok \<lparr>gm_mem = m, gm_size = actual_size size_bytes huge_pages, gm_dirty = {},
                gm_lazy = None, gm_file_backed = False, gm_ranges = empty_ranges\<rparr>)"

section \<open>File-backed RAM\<close>

text \<open>
  The result pairs with the state: a failed \<open>record\<close> leaves the new mapping in place.
  \<open>None\<close> is the panic of \<open>FileRanges::forget\<close>.
\<close>

definition map_file_range_private ::
  "'m host_ops \<Rightarrow> file_id list \<Rightarrow> bool \<Rightarrow> bool \<Rightarrow> file_id \<Rightarrow> u64 \<Rightarrow> u64 \<Rightarrow> u64 \<Rightarrow> 'm guest_memory \<Rightarrow>
   ((memory_error + unit) \<times> 'm guest_memory) option" where
  "map_file_range_private H held metadata_ok clone_ok f file_offset ram_offset len gm =
     (if file_offset mod 4096 \<noteq> 0 \<or> ram_offset mod 4096 \<noteq> 0 \<or> len mod 4096 \<noteq> 0 \<or> len = 0
      then Some (Err Region, gm)
      else if (case checked_add 64 ram_offset len of None \<Rightarrow> True | Some fin \<Rightarrow> gm_size gm < fin)
      then Some (Err (OutOfBounds ram_offset len), gm)
      else if 2 ^ 63 \<le> file_offset then Some (Err Region, gm)
      else
        case mmap_file H (gm_mem gm) ram_offset len f file_offset of
          None \<Rightarrow> Some (Err Region, gm)
        | Some m \<Rightarrow>
            let gm' = gm\<lparr>gm_mem := m, gm_file_backed := True\<rparr> in
            (case record_range held (if metadata_ok then Some f else None) clone_ok ram_offset len
                    file_offset (gm_ranges gm) of
               None \<Rightarrow> None
             | Some (Inl _) \<Rightarrow> Some (Err Region, gm')
             | Some (Inr fr) \<Rightarrow> Some (Ok (), gm'\<lparr>gm_ranges := fr\<rparr>)))"

definition map_file_private ::
  "'m host_ops \<Rightarrow> file_id list \<Rightarrow> bool \<Rightarrow> bool \<Rightarrow> file_id \<Rightarrow> u64 \<Rightarrow> 'm guest_memory \<Rightarrow>
   ((memory_error + unit) \<times> 'm guest_memory) option" where
  "map_file_private H held metadata_ok clone_ok f offset gm =
     map_file_range_private H held metadata_ok clone_ok f offset 0 (gm_size gm) gm"

record file_backed_range =
  fbr_ram :: u64
  fbr_len :: u64
  fbr_file :: file_id
  fbr_off :: u64

definition file_backed_ranges :: "'m guest_memory \<Rightarrow> file_backed_range list" where
  "file_backed_ranges gm =
     map (\<lambda>(ram, r). \<lparr>fbr_ram = ram, fbr_len = run_len r, fbr_file = run_file r, fbr_off = run_off r\<rparr>)
       (fr_runs (gm_ranges gm))"

section \<open>Access\<close>

definition read_phys ::
  "'m ram_ops \<Rightarrow> u64 \<Rightarrow> usize \<Rightarrow> 'm guest_memory \<Rightarrow> memory_error + byte list" where
  "read_phys G gpa n gm = ok_or (rd G (gm_mem gm) gpa n) (OutOfBounds gpa n)"

definition mark_host_dirty :: "u64 \<Rightarrow> u64 \<Rightarrow> 'm guest_memory \<Rightarrow> 'm guest_memory" where
  "mark_host_dirty offset len gm = gm\<lparr>gm_dirty := mark_range offset len (gm_dirty gm)\<rparr>"

definition drain_host_dirty :: "'m guest_memory \<Rightarrow> dirty_bitmap \<times> 'm guest_memory" where
  "drain_host_dirty gm =
     (case drain (gm_dirty gm) of (taken, left) \<Rightarrow> (taken, gm\<lparr>gm_dirty := left\<rparr>))"

definition write_phys ::
  "'m ram_ops \<Rightarrow> u64 \<Rightarrow> byte list \<Rightarrow> 'm guest_memory \<Rightarrow> (memory_error + unit) \<times> 'm guest_memory" where
  "write_phys G gpa buf gm =
     (case wr G (gm_mem gm) gpa buf of
        (False, m) \<Rightarrow> (Err (OutOfBounds gpa (length buf)), gm\<lparr>gm_mem := m\<rparr>)
      | (True, m) \<Rightarrow>
          let gm' = gm\<lparr>gm_mem := m\<rparr> in
          (Ok (), (case gpa_range_to_offset (gm_size gm) gpa (length buf) of
             None \<Rightarrow> gm'
           | Some offset \<Rightarrow> mark_host_dirty offset (length buf) gm')))"

definition set_lazy_page_discard :: "lazy \<Rightarrow> 'm guest_memory \<Rightarrow> 'm guest_memory" where
  "set_lazy_page_discard lz gm = gm\<lparr>gm_lazy := Some lz\<rparr>"

definition clear_lazy_page_discard :: "'m guest_memory \<Rightarrow> 'm guest_memory" where
  "clear_lazy_page_discard gm = gm\<lparr>gm_lazy := None\<rparr>"

text \<open>The range \<open>advise_huge_pages\<close> hands to \<open>madvise\<close>, rounded out to 2 MiB.\<close>

definition huge_advice_range :: "u64 \<Rightarrow> u64 \<Rightarrow> 'm guest_memory \<Rightarrow> (u64 \<times> u64) option" where
  "huge_advice_range gpa len gm =
     (let HUGE = 2 * 1024 * 1024; start = gpa div HUGE * HUGE in
      Option.bind (Option.bind (checked_add 64 gpa len) (\<lambda>e. checked_add 64 e (HUGE - 1))) (\<lambda>e.
      let fin = e div HUGE * HUGE in
      map_option (\<lambda>offset. (offset, fin - start))
        (gpa_range_to_offset (gm_size gm) start (fin - start))))"

section \<open>Discarding pages\<close>

definition discard_range ::
  "'m host_ops \<Rightarrow> file_id list \<Rightarrow> u64 \<Rightarrow> u64 \<Rightarrow> 'm guest_memory \<Rightarrow>
   ((memory_error + unit) \<times> 'm guest_memory) option" where
  "discard_range H held gpa len gm =
     (if len = 0 \<or> gpa mod 4096 \<noteq> 0 \<or> len mod 4096 \<noteq> 0 then Some (Err (OutOfBounds gpa len), gm)
      else
        case gpa_range_to_offset (gm_size gm) gpa len of
          None \<Rightarrow> Some (Err (OutOfBounds gpa len), gm)
        | Some offset \<Rightarrow>
            (case gm_lazy gm of
               Some lz \<Rightarrow>
                 map_option (\<lambda>(r, lz', m).
                   let gm' = gm\<lparr>gm_lazy := Some lz', gm_mem := m\<rparr> in
                   case r of
                     Inl _ \<Rightarrow> (Err Region, gm')
                   | Inr _ \<Rightarrow> (Ok (), mark_host_dirty offset len gm'))
                   (discard H offset len lz (gm_mem gm))
             | None \<Rightarrow>
                 if gm_file_backed gm then
                   (case mmap_anon H (gm_mem gm) offset len of
                      None \<Rightarrow> Some (Err Region, gm)
                    | Some m \<Rightarrow>
                        map_option (\<lambda>fr.
                          (Ok (), mark_host_dirty offset len (gm\<lparr>gm_mem := m, gm_ranges := fr\<rparr>)))
                          (forget held offset len (gm_ranges gm)))
                 else
                   (case dontneed H (gm_mem gm) offset len of
                      None \<Rightarrow> Some (Err Region, gm)
                    | Some m \<Rightarrow> Some (Ok (), mark_host_dirty offset len (gm\<lparr>gm_mem := m\<rparr>)))))"

text \<open>\<open>populated_pages\<close>: the entries of \<open>/proc/self/pagemap\<close>, present or swapped out.\<close>

fun pagemap_entries :: "byte list \<Rightarrow> u64 list" where
  "pagemap_entries raw = (if length raw < 8 then [] else from_le (take 8 raw) # pagemap_entries (drop 8 raw))"

declare pagemap_entries.simps [simp del]

definition populated_pages :: "byte list \<Rightarrow> bool list" where
  "populated_pages raw = map (\<lambda>e. e AND (2 ^ 63 OR 2 ^ 62) \<noteq> 0) (pagemap_entries raw)"

section \<open>The invariant\<close>

text \<open>
  The recorded runs are the host's mapping, byte for byte, and RAM that was never mapped
  from a file has none. Sizes stay below 8 EiB, so guest addresses fit.
\<close>

definition gm_inv :: "'m host_ops \<Rightarrow> 'm guest_memory \<Rightarrow> bool" where
  "gm_inv H gm \<longleftrightarrow>
     ranges_inv (gm_ranges gm) \<and> ram_size H (gm_mem gm) = gm_size gm \<and>
     page_aligned (gm_size gm) \<and> gm_size gm \<le> 2 ^ 63 \<and>
     mapped H (gm_mem gm) = backing (fr_runs (gm_ranges gm)) \<and>
     (\<not> gm_file_backed gm \<longrightarrow> fr_runs (gm_ranges gm) = [])"

lemma backing_empty: "backing [] = (\<lambda>_. None)"
  by (simp add: backing_def fun_eq_iff)

lemma ranges_inv_empty: "ranges_inv empty_ranges"
  by (simp add: ranges_inv_def empty_ranges_def runs_inv_def bt_inv_def)

text \<open>The offsets of a translated range are the images of its addresses.\<close>

lemma range_image:
  assumes r: "gpa_range_to_offset sz gpa len = Some off" and "0 < len"
    and g: "gpa_to_offset sz g = Some i"
  shows "off \<le> i \<and> i < off + len \<longleftrightarrow> gpa \<le> g \<and> g < gpa + len"
proof -
  have tr: "\<And>k. k < len \<Longrightarrow> gpa_to_offset sz (gpa + k) = Some (off + k)"
    using r assms(2) by (simp add: gpa_range_to_offset_iff)
  show ?thesis
  proof
    assume "off \<le> i \<and> i < off + len"
    moreover from this have "i - off < len" by linarith
    ultimately have "gpa_to_offset sz (gpa + (i - off)) = Some i" using tr [of "i - off"] by simp
    then have "g = gpa + (i - off)" using gpa_to_offset_inj [OF g] by blast
    then show "gpa \<le> g \<and> g < gpa + len" using \<open>off \<le> i \<and> i < off + len\<close> by linarith
  next
    assume "gpa \<le> g \<and> g < gpa + len"
    then obtain k where k: "g = gpa + k" "k < len" by (metis le_Suc_ex nat_add_left_cancel_less)
    then show "off \<le> i \<and> i < off + len" using tr [of k] g by simp
  qed
qed

lemma gpa_offset_aligned:
  assumes "gpa_to_offset sz gpa = Some off" and "gpa mod 4096 = 0"
  shows "page_aligned off"
proof -
  have "4096 dvd gpa" using assms(2) by (simp add: mod_eq_0_iff_dvd)
  moreover have "4096 dvd MMIO_GAP_START" "4096 dvd MMIO_GAP_END" by (simp_all add: gap_defs)
  ultimately have "4096 dvd off" using assms(1) by (auto simp: gpa_to_offset_iff)
  then show ?thesis by (simp add: page_aligned_def PAGE_SIZE_def mod_eq_0_iff_dvd)
qed

lemma range_offset_aligned:
  assumes "gpa_range_to_offset sz gpa len = Some off" and "gpa mod 4096 = 0" and "0 < len"
  shows "page_aligned off"
proof (rule gpa_offset_aligned [OF _ assms(2)])
  show "gpa_to_offset sz gpa = Some off"
    using assms(1,3) gpa_range_to_offset_iff [OF assms(3), of sz gpa off] by (metis add_0_right)
qed

lemma range_offset_bound:
  assumes "gpa_range_to_offset sz gpa len = Some off" and "0 < len"
  shows "off + len \<le> sz"
proof -
  have "len - 1 < len" using assms(2) by simp
  then have "gpa_to_offset sz (gpa + (len - 1)) = Some (off + (len - 1))"
    using assms(1) gpa_range_to_offset_iff [OF assms(2), of sz gpa off] by blast
  then have "off + (len - 1) < sz" by (rule gpa_to_offset_bound)
  then show ?thesis using assms(2) by simp
qed

context host_mm
begin

lemma rd_byte_zero:
  assumes "gpa_to_offset (ram_size H m) g = Some i" and "view H m i = b" and "g + 1 < 2 ^ 64"
  shows "rd G m g 1 = Some [b]"
  using assms rd_view [of g m] by simp

lemma rd_byte_same:
  assumes "ram_size H m' = ram_size H m" and "g + 1 < 2 ^ 64"
    and "\<And>i. gpa_to_offset (ram_size H m) g = Some i \<Longrightarrow> view H m' i = view H m i"
  shows "rd G m' g 1 = rd G m g 1"
  using assms rd_view [of g m] rd_view [of g m'] by (cases "gpa_to_offset (ram_size H m) g") simp_all

text \<open>What the guest reads after its range has been dropped.\<close>

lemma dropped_rd:
  assumes d: "dropped H m off len src m'" and al: "page_aligned off" "page_aligned len"
    and r: "gpa_range_to_offset (ram_size H m) gpa len = Some off" and len: "0 < len" and g: "g + 1 < 2 ^ 64"
  shows "rd G m' g 1 =
    (if gpa \<le> g \<and> g < gpa + len then Some [backed_byte H (src (off + (g - gpa)))] else rd G m g 1)"
proof -
  have sz: "ram_size H m' = ram_size H m" using d by (simp add: dropped_def)
  note v = dropped_view [OF d al]
  show ?thesis
  proof (cases "gpa \<le> g \<and> g < gpa + len")
    case True
    then obtain k where k: "g = gpa + k" "k < len" by (metis le_Suc_ex nat_add_left_cancel_less)
    then have "gpa_to_offset (ram_size H m) g = Some (off + k)"
      using r len gpa_range_to_offset_iff [OF len, of "ram_size H m" gpa off] by blast
    then show ?thesis using k g sz rd_view [of g m'] v [of "off + k"] by simp
  next
    case False
    then have "rd G m' g 1 = rd G m g 1"
      by (intro rd_byte_same [OF sz g]) (use range_image [OF r len] v in auto)
    then show ?thesis using False by auto
  qed
qed

text \<open>
  The two ways \<open>discard_range\<close> drops a range, with what happens to the recorded runs.
\<close>

lemma discard_effect:
  assumes inv: "gm_inv H gm" and r: "gpa_range_to_offset (gm_size gm) gpa len = Some off"
    and len: "0 < len" and al: "page_aligned off" "page_aligned len"
    and d: "dropped H (gm_mem gm) off len src (gm_mem gm')"
    and src: "\<And>i. off \<le> i \<Longrightarrow> i < off + len \<Longrightarrow> src i = None"
    and gm': "gm_size gm' = gm_size gm" "gm_file_backed gm' = gm_file_backed gm"
    and fr: "ranges_inv (gm_ranges gm')"
      "backing (fr_runs (gm_ranges gm')) = (backing (fr_runs (gm_ranges gm))) |` (- {off..<off + len})"
      "\<not> gm_file_backed gm \<longrightarrow> fr_runs (gm_ranges gm') = []"
  shows "gm_inv H gm'"
    and "g + 1 < 2 ^ 64 \<Longrightarrow> rd G (gm_mem gm') g 1 =
      (if gpa \<le> g \<and> g < gpa + len then Some [0] else rd G (gm_mem gm) g 1)"
proof -
  have sz: "ram_size H (gm_mem gm) = gm_size gm" using inv by (simp add: gm_inv_def)
  have "mapped H (gm_mem gm') = backing (fr_runs (gm_ranges gm'))"
    using d inv src unfolding fr(2) gm_inv_def dropped_def by (auto simp: fun_eq_iff restrict_map_def)
  moreover have "ram_size H (gm_mem gm') = gm_size gm" using d sz by (simp add: dropped_def)
  ultimately show "gm_inv H gm'" using inv gm' fr by (simp add: gm_inv_def)
  assume g: "g + 1 < 2 ^ 64"
  have "src (off + (g - gpa)) = None" if "gpa \<le> g \<and> g < gpa + len"
    by (rule src) (use that in linarith)+
  then show "rd G (gm_mem gm') g 1 =
      (if gpa \<le> g \<and> g < gpa + len then Some [0] else rd G (gm_mem gm) g 1)"
    using dropped_rd [OF d al _ len g, of gpa] r sz by (simp add: backed_byte_def)
qed

lemma discard_range_cases:
  assumes inv: "gm_inv H gm" and lazy: "gm_lazy gm = None"
    and d: "discard_range H held gpa len gm = Some (Ok (), gm')"
  shows "\<exists>off src. gpa_range_to_offset (gm_size gm) gpa len = Some off \<and> 0 < len \<and>
    page_aligned off \<and> page_aligned len \<and> dropped H (gm_mem gm) off len src (gm_mem gm') \<and>
    (\<forall>i. off \<le> i \<and> i < off + len \<longrightarrow> src i = None) \<and> gm_size gm' = gm_size gm \<and>
    gm_lazy gm' = None \<and> gm_file_backed gm' = gm_file_backed gm \<and>
    gm_dirty gm' = mark_range off len (gm_dirty gm) \<and> ranges_inv (gm_ranges gm') \<and>
    backing (fr_runs (gm_ranges gm')) = (backing (fr_runs (gm_ranges gm))) |` (- {off..<off + len}) \<and>
    (\<not> gm_file_backed gm \<longrightarrow> fr_runs (gm_ranges gm') = [])"
proof -
  have len: "0 < len" "page_aligned len" and gpa: "gpa mod 4096 = 0"
    using d by (auto simp: discard_range_def page_aligned_def PAGE_SIZE_def split: if_splits)
  obtain off where r: "gpa_range_to_offset (gm_size gm) gpa len = Some off"
    using d by (cases "gpa_range_to_offset (gm_size gm) gpa len") (auto simp: discard_range_def split: if_splits)
  have al: "page_aligned off" by (rule range_offset_aligned [OF r gpa len(1)])
  have bound: "off + len < 2 ^ 64"
    using range_offset_bound [OF r len(1)] inv by (simp add: gm_inv_def)
  note run = discard_range_def [of H held gpa len gm, unfolded r lazy option.case]
  show ?thesis
  proof (cases "gm_file_backed gm")
    case True
    obtain m where m: "mmap_anon H (gm_mem gm) off len = Some m"
      using d run True by (cases "mmap_anon H (gm_mem gm) off len") (auto split: if_splits)
    obtain fr where fr: "forget held off len (gm_ranges gm) = Some fr" "ranges_inv fr"
      "backing (fr_runs fr) = (backing (fr_runs (gm_ranges gm))) |` (- {off..<off + len})"
      using forget_backing [OF _ len(1) bound, of "gm_ranges gm" held] inv by (auto simp: gm_inv_def)
    then have gm': "gm' = mark_host_dirty off len (gm\<lparr>gm_mem := m, gm_ranges := fr\<rparr>)"
      using d run True m by (simp split: if_splits)
    show ?thesis
      by (rule exI [of _ off], rule exI [of _ "\<lambda>_. None"])
        (use gm' fr True lazy r len al mmap_anon_drops [OF m al len(2)] in \<open>simp add: mark_host_dirty_def\<close>)
  next
    case False
    obtain m where m: "dontneed H (gm_mem gm) off len = Some m"
      using d run False by (cases "dontneed H (gm_mem gm) off len") (auto split: if_splits)
    have gm': "gm' = mark_host_dirty off len (gm\<lparr>gm_mem := m\<rparr>)" using d run False m by (simp split: if_splits)
    have e: "fr_runs (gm_ranges gm) = []" "mapped H (gm_mem gm) = (\<lambda>_. None)"
      using inv False by (simp_all add: gm_inv_def backing_empty)
    show ?thesis
      by (rule exI [of _ off], rule exI [of _ "mapped H (gm_mem gm)"])
        (use gm' inv e False lazy r len al dontneed_drops [OF m al len(2)] in
          \<open>simp add: mark_host_dirty_def backing_empty gm_inv_def\<close>)
  qed
qed

lemma map_file_range_correct:
  assumes inv: "gm_inv H gm"
    and ok: "map_file_range_private H held meta clone f foff ram len gm = Some (Ok (), gm')"
  shows "gm_inv H gm'" and "gm_file_backed gm'" and "gm_size gm' = gm_size gm"
    and "gm_dirty gm' = gm_dirty gm" and "gm_lazy gm' = gm_lazy gm"
    and "view H (gm_mem gm') i =
      (if ram \<le> i \<and> i < ram + len then file_byte H f (foff + (i - ram)) else view H (gm_mem gm) i)"
    and "backing (fr_runs (gm_ranges gm')) i =
      (if ram \<le> i \<and> i < ram + len then Some (f, foff + (i - ram))
       else backing (fr_runs (gm_ranges gm)) i)"
proof -
  have al: "page_aligned ram" "page_aligned len" "0 < len" and le: "ram + len \<le> gm_size gm"
    and fo: "foff < 2 ^ 63"
    using ok by (auto simp: map_file_range_private_def page_aligned_def PAGE_SIZE_def
        split: if_splits option.splits)
  obtain m where m: "mmap_file H (gm_mem gm) ram len f foff = Some m"
    using ok by (cases "mmap_file H (gm_mem gm) ram len f foff")
      (auto simp: map_file_range_private_def split: if_splits)
  have b: "ram + len < 2 ^ 64" "foff + len < 2 ^ 64" using le fo inv by (simp_all add: gm_inv_def)
  obtain fr where rec: "record_range held (if meta then Some f else None) clone ram len foff (gm_ranges gm) =
      Some (Inr fr)" and gm': "gm' = gm\<lparr>gm_mem := m, gm_file_backed := True, gm_ranges := fr\<rparr>"
    using ok m by (auto simp: map_file_range_private_def Let_def split: if_splits option.splits sum.splits)
  then have "meta" and "f \<in> set (fr_files (gm_ranges gm)) \<or> clone"
    by (auto simp: record_range_def split: if_splits)
  then have fr: "ranges_inv fr" "backing (fr_runs fr) =
      (\<lambda>i. if ram \<le> i \<and> i < ram + len then Some (f, foff + (i - ram)) else backing (fr_runs (gm_ranges gm)) i)"
    using record_range_backing [OF _ al(3) b, of "gm_ranges gm" f clone held] rec inv
    by (auto simp: gm_inv_def)
  have d: "dropped H (gm_mem gm) ram len (\<lambda>i. Some (f, foff + (i - ram))) m"
    by (rule mmap_file_drops [OF m al(1,2)])
  then have "mapped H m = backing (fr_runs fr)"
    using inv fr(2) by (auto simp: dropped_def gm_inv_def fun_eq_iff)
  then show "gm_inv H gm'" using inv fr d gm' by (simp add: gm_inv_def dropped_def)
  show "gm_file_backed gm'" "gm_size gm' = gm_size gm" "gm_dirty gm' = gm_dirty gm" "gm_lazy gm' = gm_lazy gm"
    "backing (fr_runs (gm_ranges gm')) i =
      (if ram \<le> i \<and> i < ram + len then Some (f, foff + (i - ram))
       else backing (fr_runs (gm_ranges gm)) i)"
    using gm' fr by simp_all
  show "view H (gm_mem gm') i =
      (if ram \<le> i \<and> i < ram + len then file_byte H f (foff + (i - ram)) else view H (gm_mem gm) i)"
    using dropped_view [OF d al(1,2)] gm' by (simp add: backed_byte_def)
qed

lemma write_phys_correct:
  assumes inv: "gm_inv H gm" and w: "write_phys G gpa buf gm = (r, gm')"
  shows "gm_inv H gm'" and "gm_size gm' = gm_size gm" and "gm_lazy gm' = gm_lazy gm"
    and "gm_ranges gm' = gm_ranges gm" and "gm_file_backed gm' = gm_file_backed gm"
    and "r = Ok () \<Longrightarrow> rd G (gm_mem gm') gpa (length buf) = Some buf"
    and "b + n \<le> gpa \<or> gpa + length buf \<le> b \<Longrightarrow> rd G (gm_mem gm') b n = rd G (gm_mem gm) b n"
    and "r = Ok () \<Longrightarrow> gpa_range_to_offset (gm_size gm) gpa (length buf) = Some off \<Longrightarrow>
      gm_dirty gm' = mark_range off (length buf) (gm_dirty gm)"
    and "gm_dirty gm \<subseteq> gm_dirty gm'"
proof -
  obtain ok m where m: "wr G (gm_mem gm) gpa buf = (ok, m)" by fastforce
  have f: "gm_mem gm' = m" "gm_size gm' = gm_size gm" "gm_lazy gm' = gm_lazy gm"
    "gm_ranges gm' = gm_ranges gm" "gm_file_backed gm' = gm_file_backed gm"
    "gm_dirty gm \<subseteq> gm_dirty gm'" "r = Ok () \<Longrightarrow> ok"
    "r = Ok () \<Longrightarrow> gpa_range_to_offset (gm_size gm) gpa (length buf) = Some off \<Longrightarrow>
      gm_dirty gm' = mark_range off (length buf) (gm_dirty gm)"
    using w m
    by (auto simp: write_phys_def Let_def mark_host_dirty_def subsetD [OF mark_range_mono]
        split: bool.splits option.splits)
  then show "gm_size gm' = gm_size gm" "gm_lazy gm' = gm_lazy gm"
    "gm_ranges gm' = gm_ranges gm" "gm_file_backed gm' = gm_file_backed gm"
    "gm_dirty gm \<subseteq> gm_dirty gm'"
    "r = Ok () \<Longrightarrow> gpa_range_to_offset (gm_size gm) gpa (length buf) = Some off \<Longrightarrow>
      gm_dirty gm' = mark_range off (length buf) (gm_dirty gm)" by simp_all
  show "gm_inv H gm'" using inv f wr_mapped [OF m] by (simp add: gm_inv_def)
  show "r = Ok () \<Longrightarrow> rd G (gm_mem gm') gpa (length buf) = Some buf" using f wr_same m by simp
  show "b + n \<le> gpa \<or> gpa + length buf \<le> b \<Longrightarrow> rd G (gm_mem gm') b n = rd G (gm_mem gm) b n"
    using wr_frame [OF m] f by simp
qed

end

section \<open>Sequences of operations\<close>

text \<open>
  What can happen to guest RAM between restore and snapshot, with the packed offsets that
  were written since their run was mapped. A vCPU or a device stores bytes; the control
  plane writes through \<open>write_phys\<close>; the balloon discards; restore maps file runs.
\<close>

definition stored_offsets :: "u64 \<Rightarrow> u64 \<Rightarrow> nat \<Rightarrow> u64 set" where
  "stored_offsets sz gpa n = {i. \<exists>g. gpa \<le> g \<and> g < gpa + n \<and> gpa_to_offset sz g = Some i}"

inductive gm_step ::
  "'m ram_ops \<Rightarrow> 'm host_ops \<Rightarrow> 'm guest_memory \<Rightarrow> u64 set \<Rightarrow> 'm guest_memory \<Rightarrow> u64 set \<Rightarrow> bool"
  for G H where
  store: "wr G (gm_mem gm) gpa bs = (ok, m') \<Longrightarrow>
    gm_step G H gm W (gm\<lparr>gm_mem := m'\<rparr>) (W \<union> stored_offsets (gm_size gm) gpa (length bs))"
| phys_write: "write_phys G gpa bs gm = (r, gm') \<Longrightarrow>
    gm_step G H gm W gm' (W \<union> stored_offsets (gm_size gm) gpa (length bs))"
| discard: "gm_lazy gm = None \<Longrightarrow> discard_range H held gpa len gm = Some (Ok (), gm') \<Longrightarrow>
    gm_step G H gm W gm' W"
| map_file: "map_file_range_private H held meta clone f foff ram len gm = Some (Ok (), gm') \<Longrightarrow>
    gm_step G H gm W gm' (W - {ram..<ram + len})"

inductive gm_run ::
  "'m ram_ops \<Rightarrow> 'm host_ops \<Rightarrow> 'm guest_memory \<Rightarrow> 'm guest_memory \<Rightarrow> u64 set \<Rightarrow> bool"
  for G H gm0 where
  start: "gm_run G H gm0 gm0 {}"
| step: "gm_run G H gm0 gm W \<Longrightarrow> gm_step G H gm W gm' W' \<Longrightarrow> gm_run G H gm0 gm' W'"

text \<open>Every recorded byte that was not written since still reads as the file's byte.\<close>

definition unwritten_backed :: "'m host_ops \<Rightarrow> 'm guest_memory \<Rightarrow> u64 set \<Rightarrow> bool" where
  "unwritten_backed H gm W \<longleftrightarrow>
     (\<forall>i f off. i < gm_size gm \<longrightarrow> i \<notin> W \<longrightarrow> backing (fr_runs (gm_ranges gm)) i = Some (f, off) \<longrightarrow>
        view H (gm_mem gm) i = file_byte H f off)"

lemma offset_has_gpa:
  assumes "i < sz" and "sz \<le> 2 ^ 63"
  shows "\<exists>g. gpa_to_offset sz g = Some i \<and> g + 1 < 2 ^ 64"
proof (cases "i < MMIO_GAP_START")
  case True
  then show ?thesis using assms by (intro exI [of _ i]) (simp add: gpa_to_offset_iff gap_defs)
next
  case False
  then show ?thesis using assms
    by (intro exI [of _ "MMIO_GAP_END + (i - MMIO_GAP_START)"]) (simp add: gpa_to_offset_iff gap_defs)
qed

context host_mm
begin

lemma stored_view:
  assumes "wr G m gpa bs = (ok, m')" and "i < ram_size H m" and "ram_size H m \<le> 2 ^ 63"
    and "i \<notin> stored_offsets (ram_size H m) gpa (length bs)"
  shows "view H m' i = view H m i"
proof -
  obtain g where g: "gpa_to_offset (ram_size H m) g = Some i" "g + 1 < 2 ^ 64"
    using offset_has_gpa [OF assms(2,3)] by blast
  then have "\<not> (gpa \<le> g \<and> g < gpa + length bs)" using assms(4) by (auto simp: stored_offsets_def)
  then show ?thesis by (rule wr_view [OF assms(1) g(1) _ g(2)])
qed

lemma gm_step_inv:
  assumes "gm_step G H gm W gm' W'" and "gm_inv H gm" and "unwritten_backed H gm W"
  shows "gm_inv H gm' \<and> unwritten_backed H gm' W'"
  using assms(1)
proof cases
  case (store gpa bs ok m')
  have "gm_inv H gm'" using store assms(2) wr_mapped [OF store(3)] by (simp add: gm_inv_def)
  then show ?thesis using store assms(2,3) stored_view [OF store(3)]
    by (simp add: unwritten_backed_def gm_inv_def)
next
  case (phys_write gpa bs r)
  obtain ok m' where m: "wr G (gm_mem gm) gpa bs = (ok, m')" by fastforce
  have "gm_mem gm' = m'" using phys_write(2) m
    by (auto simp: write_phys_def Let_def mark_host_dirty_def split: bool.splits option.splits)
  then show ?thesis using phys_write assms(2,3) stored_view [OF m] write_phys_correct [OF assms(2) phys_write(2)]
    by (simp add: unwritten_backed_def gm_inv_def)
next
  case (discard held gpa len)
  obtain off src where d: "dropped H (gm_mem gm) off len src (gm_mem gm')" "page_aligned off" "page_aligned len"
    and sz: "gm_size gm' = gm_size gm"
    and b: "backing (fr_runs (gm_ranges gm')) = (backing (fr_runs (gm_ranges gm))) |` (- {off..<off + len})"
    and inv: "gm_inv H gm'"
    using discard_range_cases [OF assms(2) discard(2,3)] discard_effect(1) [OF assms(2)] by metis
  then show ?thesis using assms(3) discard(1) dropped_view [OF d]
    by (auto simp: unwritten_backed_def restrict_map_def split: if_splits)
next
  case (map_file held meta clone f foff ram len)
  note c = map_file_range_correct [OF assms(2) map_file(2)]
  show ?thesis using c(1) assms(3) map_file(1)
    by (auto simp: unwritten_backed_def c(3,6,7))
qed

lemma gm_run_inv:
  assumes "gm_run G H gm0 gm W" and "gm_inv H gm0" and "fr_runs (gm_ranges gm0) = []"
  shows "gm_inv H gm \<and> unwritten_backed H gm W"
  using assms
proof induction
  case start
  then show ?case by (simp add: unwritten_backed_def backing_empty)
next
  case (step gm W gm' W')
  then show ?case using gm_step_inv by blast
qed

end

section \<open>Properties\<close>

text \<open>RAM for the witnesses: two pages, all bytes 9, not file-backed.\<close>

definition ex_ram :: packed_mem where
  "ex_ram = \<lparr>pm_size = 8192, pm_resident = (\<lambda>_. True), pm_content = (\<lambda>_. 9), pm_mapped = (\<lambda>_. None)\<rparr>"

definition ex_gm :: "packed_mem guest_memory" where
  "ex_gm = \<lparr>gm_mem = ex_ram, gm_size = 8192, gm_dirty = {}, gm_lazy = None, gm_file_backed = False,
     gm_ranges = empty_ranges\<rparr>"

lemma ex_gm_inv: "gm_inv packed_host ex_gm"
  by (simp add: gm_inv_def ex_gm_def ex_ram_def packed_host_def ranges_inv_empty [unfolded empty_ranges_def]
      backing_empty empty_ranges_def page_aligned_def PAGE_SIZE_def)




definition ex_mapped :: "packed_mem guest_memory" where
  "ex_mapped = ex_gm\<lparr>gm_mem := packed_drop ex_ram 4096 4096 (\<lambda>i. Some (FileId 1 2, 0 + (i - 4096))),
     gm_file_backed := True,
     gm_ranges := \<lparr>fr_runs = [(4096, \<lparr>run_len = 4096, run_file = FileId 1 2, run_off = 0\<rparr>)],
                  fr_files = [FileId 1 2]\<rparr>\<rparr>"




end
