(* ===== verification/VQueue.thy ===== *)
theory VQueue
  imports HostMem
begin

text \<open>
  Split virtqueues (\<open>vmm-devices/src/virtio/vqueue.rs\<close>, \<open>queue.rs\<close>): the processor
  that reads the guest's available ring, walks descriptor chains, hands them to a device
  handler and publishes used entries. Ring indices and flags are 16-bit words, so they wrap
  as in the source. Guest memory is the parameter \<open>G\<close>; it is paired with the optional
  dirty tracker of the device.
\<close>

section \<open>Memory helpers\<close>

record 'm dmem =
  dm_mem :: 'm
  dm_dirty :: "dirty_bitmap option"

definition read_u16 :: "'m ram_ops \<Rightarrow> 'm \<Rightarrow> u64 \<Rightarrow> u16 option" where
  "read_u16 G m addr = map_option (\<lambda>bs. of_nat (from_le bs)) (rd G m addr 2)"

text \<open>\<open>write_obj_mem\<close> and \<open>write_slice_mem\<close>: a successful write marks its range.\<close>

definition write_mem :: "'m ram_ops \<Rightarrow> byte list \<Rightarrow> u64 \<Rightarrow> 'm dmem \<Rightarrow> bool \<times> 'm dmem" where
  "write_mem G bs addr dm =
     (case wr G (dm_mem dm) addr bs of
        (False, m) \<Rightarrow> (False, dm\<lparr>dm_mem := m\<rparr>)
      | (True, m) \<Rightarrow>
          (True, dm\<lparr>dm_mem := m,
                    dm_dirty := map_option (mark_guest_range addr (length bs)) (dm_dirty dm)\<rparr>))"

definition write_u16 :: "'m ram_ops \<Rightarrow> u16 \<Rightarrow> u64 \<Rightarrow> 'm dmem \<Rightarrow> 'm dmem" where
  "write_u16 G v addr dm = snd (write_mem G (to_le 2 (unat v)) addr dm)"

definition guest_range_is_valid :: "'m ram_ops \<Rightarrow> 'm \<Rightarrow> u64 \<Rightarrow> u64 \<Rightarrow> bool" where
  "guest_range_is_valid G m addr len \<longleftrightarrow>
     (if len = 0 then True
      else case checked_add 64 addr (len - 1) of
        None \<Rightarrow> False
      | Some _ \<Rightarrow> chk G m addr len)"

section \<open>Layout\<close>

definition MAX_QUEUE_SIZE :: u16 where "MAX_QUEUE_SIZE = 256"
definition MAX_SUPPORTED_QUEUE_SIZE :: u16 where "MAX_SUPPORTED_QUEUE_SIZE = 1024"
definition MAX_DESC_LEN :: u32 where "MAX_DESC_LEN = 1024 * 1024"
definition MAX_CHAIN_BYTES :: usize where "MAX_CHAIN_BYTES = 4 * 1024 * 1024"

definition is_valid_queue_size :: "u16 \<Rightarrow> u16 \<Rightarrow> bool" where
  "is_valid_queue_size sz max_size \<longleftrightarrow> sz \<noteq> 0 \<and> sz \<le> max_size \<and> sz AND (sz - 1) = 0"

record desc =
  d_addr :: u64
  d_len :: u32
  d_flags :: u16
  d_next :: u16

definition decode_desc :: "byte list \<Rightarrow> desc" where
  "decode_desc bs =
     \<lparr>d_addr = from_le (take 8 bs), d_len = from_le (take 4 (drop 8 bs)),
      d_flags = of_nat (from_le (take 2 (drop 12 bs))), d_next = of_nat (from_le (take 2 (drop 14 bs)))\<rparr>"

definition read_desc :: "'m ram_ops \<Rightarrow> 'm \<Rightarrow> u64 \<Rightarrow> desc option" where
  "read_desc G m addr = map_option decode_desc (rd G m addr 16)"

definition F_NEXT :: u16 where "F_NEXT = 1"
definition F_WRITE :: u16 where "F_WRITE = 2"
definition F_INDIRECT :: u16 where "F_INDIRECT = 4"

definition encode_used :: "u32 \<Rightarrow> u32 \<Rightarrow> byte list" where
  "encode_used head len = to_le 4 head @ to_le 4 len"

record queue_config =
  q_size :: u16
  q_desc :: u64
  q_avail :: u64
  q_used :: u64
  q_ready :: bool

type_synonym buffer = "u64 \<times> u32"

record peeked_chain =
  pk_head :: u16
  pk_buffers :: "buffer list"
  pk_capacity :: usize

record vq =
  vq_config :: queue_config
  vq_last_avail :: u16
  vq_last_used :: u16
  vq_event_idx :: bool
  vq_peeked :: "peeked_chain list"

record vq_state =
  st_last_avail :: u16
  st_last_used :: u16

definition vq_new_with_indices :: "queue_config \<Rightarrow> u16 \<Rightarrow> u16 \<Rightarrow> vq" where
  "vq_new_with_indices cfg last_avail last_used =
     \<lparr>vq_config = cfg, vq_last_avail = last_avail, vq_last_used = last_used,
      vq_event_idx = False, vq_peeked = []\<rparr>"

definition vq_new :: "queue_config \<Rightarrow> vq" where
  "vq_new cfg = vq_new_with_indices cfg 0 0"

definition vq_from_state :: "queue_config \<Rightarrow> vq_state \<Rightarrow> vq" where
  "vq_from_state cfg st =
     \<lparr>vq_config = cfg, vq_last_avail = st_last_avail st, vq_last_used = st_last_used st,
      vq_event_idx = False, vq_peeked = []\<rparr>"

definition vq_save_state :: "vq \<Rightarrow> vq_state" where
  "vq_save_state q = \<lparr>st_last_avail = vq_last_avail q, st_last_used = vq_last_used q\<rparr>"

definition update_config :: "queue_config \<Rightarrow> vq \<Rightarrow> vq" where
  "update_config cfg q =
     (if vq_config q \<noteq> cfg then q\<lparr>vq_config := cfg, vq_peeked := []\<rparr> else q\<lparr>vq_config := cfg\<rparr>)"

definition set_event_idx :: "bool \<Rightarrow> vq \<Rightarrow> vq" where
  "set_event_idx on q = q\<lparr>vq_event_idx := on\<rparr>"

section \<open>Addresses\<close>

definition used_event_addr :: "queue_config \<Rightarrow> u64 option" where
  "used_event_addr cfg =
     Option.bind (checked_mul 64 (unat (q_size cfg)) 2) (\<lambda>ring.
     Option.bind (checked_add 64 4 ring) (\<lambda>off. checked_add 64 (q_avail cfg) off))"

definition avail_event_addr :: "queue_config \<Rightarrow> u64 option" where
  "avail_event_addr cfg =
     Option.bind (checked_mul 64 (unat (q_size cfg)) 8) (\<lambda>ring.
     Option.bind (checked_add 64 4 ring) (\<lambda>off. checked_add 64 (q_used cfg) off))"

definition avail_entry_addr :: "queue_config \<Rightarrow> u16 \<Rightarrow> u64 option" where
  "avail_entry_addr cfg position =
     Option.bind (checked_mul 64 (unat (position mod q_size cfg)) 2) (\<lambda>ring_off.
     Option.bind (checked_add 64 4 ring_off) (\<lambda>off. checked_add 64 (q_avail cfg) off))"

definition desc_addr :: "queue_config \<Rightarrow> u16 \<Rightarrow> u64 option" where
  "desc_addr cfg desc_idx =
     Option.bind (checked_mul 64 (unat desc_idx) 16) (\<lambda>off. checked_add 64 (q_desc cfg) off)"

definition used_entry_addr :: "queue_config \<Rightarrow> u16 \<Rightarrow> u64 option" where
  "used_entry_addr cfg last_used =
     Option.bind (checked_mul 64 (unat (last_used mod q_size cfg)) 8) (\<lambda>ring_off.
     Option.bind (checked_add 64 4 ring_off) (\<lambda>off. checked_add 64 (q_used cfg) off))"

definition used_idx_addr :: "queue_config \<Rightarrow> u64 option" where
  "used_idx_addr cfg = checked_add 64 (q_used cfg) 2"

definition queue_is_usable :: "'m ram_ops \<Rightarrow> 'm \<Rightarrow> queue_config \<Rightarrow> bool" where
  "queue_is_usable G m cfg \<longleftrightarrow>
     \<not> (\<not> q_ready cfg \<or> q_size cfg = 0) \<and>
     is_valid_queue_size (q_size cfg) MAX_SUPPORTED_QUEUE_SIZE \<and>
     (case (checked_mul 64 (unat (q_size cfg)) 16,
            Option.bind (checked_mul 64 (unat (q_size cfg)) 2) (checked_add 64 4),
            Option.bind (checked_mul 64 (unat (q_size cfg)) 8) (checked_add 64 4)) of
        (Some desc_bytes, Some avail_bytes, Some used_bytes) \<Rightarrow>
          guest_range_is_valid G m (q_desc cfg) desc_bytes \<and>
          guest_range_is_valid G m (q_avail cfg) avail_bytes \<and>
          guest_range_is_valid G m (q_used cfg) used_bytes
      | _ \<Rightarrow> False)"

section \<open>Notification suppression\<close>

definition needs_notification :: "'m ram_ops \<Rightarrow> 'm \<Rightarrow> u16 \<Rightarrow> vq \<Rightarrow> bool" where
  "needs_notification G m old_used q =
     (if \<not> vq_event_idx q then True
      else case Option.bind (used_event_addr (vq_config q)) (read_u16 G m) of
        None \<Rightarrow> True
      | Some used_event \<Rightarrow>
          let new = vq_last_used q in new - used_event - 1 < new - old_used)"

section \<open>Walking a chain\<close>

record chain =
  ch_readable :: "buffer list"
  ch_writable :: "buffer list"
  ch_len :: u32

text \<open>
  The loop of \<open>walk_descriptor_chain\<close>. It ends because the number of descriptors is
  bounded by the queue size.
\<close>

function walk_from ::
  "'m ram_ops \<Rightarrow> 'm \<Rightarrow> queue_config \<Rightarrow> u16 \<Rightarrow> usize \<Rightarrow> usize \<Rightarrow> buffer list \<Rightarrow> buffer list \<Rightarrow>
   chain option" where
  "walk_from G m cfg idx chain_len chain_bytes readable writable =
     (if q_size cfg \<le> idx then None
      else if unat (q_size cfg) \<le> chain_len then None
      else
        case Option.bind (desc_addr cfg idx) (read_desc G m) of
          None \<Rightarrow> None
        | Some d \<Rightarrow>
            if d_flags d AND F_INDIRECT \<noteq> 0 then None
            else if MAX_DESC_LEN < d_len d then None
            else
              (case checked_add 64 chain_bytes (d_len d) of
                 None \<Rightarrow> None
               | Some next_chain_bytes \<Rightarrow>
                   if MAX_CHAIN_BYTES < next_chain_bytes then None
                   else if \<not> guest_range_is_valid G m (d_addr d) (d_len d) then None
                   else
                     let b = (d_addr d, d_len d);
                         writable' = (if d_flags d AND F_WRITE \<noteq> 0 then writable @ [b] else writable);
                         readable' = (if d_flags d AND F_WRITE \<noteq> 0 then readable else readable @ [b])
                     in if d_flags d AND F_NEXT = 0
                        then Some \<lparr>ch_readable = readable', ch_writable = writable',
                                   ch_len = chain_len + 1\<rparr>
                        else walk_from G m cfg (d_next d) (chain_len + 1) next_chain_bytes
                               readable' writable'))"
  by pat_completeness auto

termination walk_from
  by (relation "measure (\<lambda>(_, _, cfg, _, chain_len, _). unat (q_size cfg) - chain_len)") auto

declare walk_from.simps [simp del]

definition walk_descriptor_chain :: "'m ram_ops \<Rightarrow> 'm \<Rightarrow> queue_config \<Rightarrow> u16 \<Rightarrow> chain option" where
  "walk_descriptor_chain G m cfg head =
     (if q_size cfg \<le> head then None else walk_from G m cfg head 0 0 [] [])"

definition reject_available_chain :: "vq \<Rightarrow> vq" where
  "reject_available_chain q = q\<lparr>vq_last_avail := vq_last_avail q + 1\<rparr>"

section \<open>Processing with a byte-level handler\<close>

text \<open>
  The device handler has a state \<open>'s\<close>; it sees the readable bytes and a copy of the
  writable ones, and returns the status byte and the new writable bytes.
\<close>

type_synonym 's byte_handler = "'s \<Rightarrow> byte list \<Rightarrow> byte list \<Rightarrow> byte \<times> byte list \<times> 's"

text \<open>Concatenated buffers; a failed read drops all of them.\<close>

primrec collect :: "'m ram_ops \<Rightarrow> 'm \<Rightarrow> buffer list \<Rightarrow> byte list \<Rightarrow> byte list" where
  "collect G m [] acc = acc"
| "collect G m (b # bs) acc =
     (case rd G m (fst b) (snd b) of
        None \<Rightarrow> []
      | Some bytes \<Rightarrow> collect G m bs (acc @ bytes))"

primrec write_back ::
  "'m ram_ops \<Rightarrow> byte list \<Rightarrow> buffer list \<Rightarrow> u64 \<Rightarrow> 'm dmem \<Rightarrow> 'm dmem" where
  "write_back G wdata [] offset dm = dm"
| "write_back G wdata (b # bs) offset dm =
     (case checked_add 64 offset (snd b) of
        None \<Rightarrow> dm
      | Some desc_end \<Rightarrow>
          let fin = min desc_end (length wdata);
              dm' = (if offset < fin
                     then snd (write_mem G (take (fin - offset) (drop offset wdata)) (fst b) dm)
                     else dm)
          in write_back G wdata bs fin dm')"

definition service_chain ::
  "'m ram_ops \<Rightarrow> 's byte_handler \<Rightarrow> chain \<Rightarrow> 's \<Rightarrow> 'm dmem \<Rightarrow> 's \<times> 'm dmem" where
  "service_chain G h c s dm =
     (let data_bufs = take (length (ch_writable c) - 1) (ch_writable c);
          readable_data = collect G (dm_mem dm) (ch_readable c) [];
          writable_data = collect G (dm_mem dm) data_bufs [];
          status_addr = (if ch_writable c = [] then 0 else fst (last (ch_writable c)))
      in case h s readable_data writable_data of (status, wdata, s') \<Rightarrow>
         let dm' = write_back G wdata data_bufs 0 dm
         in (s', if status_addr \<noteq> 0 then snd (write_mem G [status] status_addr dm') else dm'))"

record ('s, 'm) progress =
  pr_vq :: vq
  pr_state :: 's
  pr_dm :: "'m dmem"
  pr_done :: nat

definition use_chain :: "'m ram_ops \<Rightarrow> u16 \<Rightarrow> u32 \<Rightarrow> u64 \<Rightarrow> ('s, 'm) progress \<Rightarrow> ('s, 'm) progress" where
  "use_chain G head len addr p =
     p\<lparr>pr_dm := snd (write_mem G (encode_used (unat head) len) addr (pr_dm p)),
       pr_vq := (pr_vq p)\<lparr>vq_last_used := vq_last_used (pr_vq p) + 1,
                          vq_last_avail := vq_last_avail (pr_vq p) + 1\<rparr>,
       pr_done := pr_done p + 1\<rparr>"

definition next_head :: "'m ram_ops \<Rightarrow> ('s, 'm) progress \<Rightarrow> u16 option" where
  "next_head G p =
     Option.bind (avail_entry_addr (vq_config (pr_vq p)) (vq_last_avail (pr_vq p)))
       (read_u16 G (dm_mem (pr_dm p)))"

lemma ring_step: "a \<noteq> b \<Longrightarrow> unat (b - (a + 1)) < unat (b - (a :: u16))"
proof -
  assume "a \<noteq> b"
  then have "b - a \<noteq> 0" by simp
  then have "unat (b - a - 1) = unat (b - a) - 1" "unat (b - a) \<noteq> 0"
    by (simp_all add: unat_minus_one unat_eq_0)
  then show ?thesis by (simp add: diff_diff_eq [symmetric])
qed

function process_loop ::
  "'m ram_ops \<Rightarrow> 's byte_handler \<Rightarrow> u16 \<Rightarrow> ('s, 'm) progress \<Rightarrow> ('s, 'm) progress" where
  "process_loop G h avail_idx p =
     (if vq_last_avail (pr_vq p) = avail_idx then p
      else
        case next_head G p of
          None \<Rightarrow> p
        | Some head \<Rightarrow>
            (case walk_descriptor_chain G (dm_mem (pr_dm p)) (vq_config (pr_vq p)) head of
               None \<Rightarrow> process_loop G h avail_idx (p\<lparr>pr_vq := reject_available_chain (pr_vq p)\<rparr>)
             | Some c \<Rightarrow>
                 let (s, dm) = service_chain G h c (pr_state p) (pr_dm p);
                     p' = p\<lparr>pr_state := s, pr_dm := dm\<rparr>
                 in case used_entry_addr (vq_config (pr_vq p)) (vq_last_used (pr_vq p)) of
                      None \<Rightarrow> p'
                    | Some addr \<Rightarrow> process_loop G h avail_idx (use_chain G head (ch_len c) addr p')))"
  by pat_completeness auto

termination process_loop
  by (relation "measure (\<lambda>(_, _, avail_idx, p). unat (avail_idx - vq_last_avail (pr_vq p)))")
    (auto simp: reject_available_chain_def use_chain_def ring_step)

declare process_loop.simps [simp del]

text \<open>The header of the available ring: flags, then the index.\<close>

definition read_avail_idx :: "'m ram_ops \<Rightarrow> 'm \<Rightarrow> queue_config \<Rightarrow> u16 option" where
  "read_avail_idx G m cfg = map_option (\<lambda>bs. of_nat (from_le (drop 2 bs))) (rd G m (q_avail cfg) 4)"

definition publish_used_idx :: "'m ram_ops \<Rightarrow> vq \<Rightarrow> 'm dmem \<Rightarrow> 'm dmem" where
  "publish_used_idx G q dm =
     (case used_idx_addr (vq_config q) of
        None \<Rightarrow> dm
      | Some addr \<Rightarrow> write_u16 G (vq_last_used q) addr dm)"

definition process_queue_dirty ::
  "'m ram_ops \<Rightarrow> 's byte_handler \<Rightarrow> vq \<Rightarrow> 's \<Rightarrow> 'm dmem \<Rightarrow> ('s, 'm) progress" where
  "process_queue_dirty G h q s dm =
     (let p = \<lparr>pr_vq = q, pr_state = s, pr_dm = dm, pr_done = 0\<rparr> in
      if \<not> queue_is_usable G (dm_mem dm) (vq_config q) then p
      else
        case read_avail_idx G (dm_mem dm) (vq_config q) of
          None \<Rightarrow> p
        | Some avail_idx \<Rightarrow>
            let p' = process_loop G h avail_idx p
            in p'\<lparr>pr_dm := publish_used_idx G (pr_vq p') (pr_dm p')\<rparr>)"

definition process_queue ::
  "'m ram_ops \<Rightarrow> 's byte_handler \<Rightarrow> vq \<Rightarrow> 's \<Rightarrow> 'm \<Rightarrow> ('s, 'm) progress" where
  "process_queue G h q s m = process_queue_dirty G h q s \<lparr>dm_mem = m, dm_dirty = None\<rparr>"

section \<open>Processing with a descriptor-level handler\<close>

text \<open>
  The handler gets the buffers and may write guest memory itself; \<open>None\<close> leaves the
  chain in flight.
\<close>

type_synonym ('s, 'm) desc_handler =
  "'s \<Rightarrow> 'm dmem \<Rightarrow> buffer list \<Rightarrow> buffer list \<Rightarrow> u32 option \<times> 's \<times> 'm dmem"

text \<open>The inner loop; the flag is \<open>stopped\<close>.\<close>

function descriptors_loop ::
  "'m ram_ops \<Rightarrow> ('s, 'm) desc_handler \<Rightarrow> u16 \<Rightarrow> ('s, 'm) progress \<Rightarrow> bool \<times> ('s, 'm) progress" where
  "descriptors_loop G h avail_idx p =
     (if vq_last_avail (pr_vq p) = avail_idx then (False, p)
      else
        case next_head G p of
          None \<Rightarrow> (True, p)
        | Some head \<Rightarrow>
            (case walk_descriptor_chain G (dm_mem (pr_dm p)) (vq_config (pr_vq p)) head of
               None \<Rightarrow> descriptors_loop G h avail_idx (p\<lparr>pr_vq := reject_available_chain (pr_vq p)\<rparr>)
             | Some c \<Rightarrow>
                 let (r, s, dm) = h (pr_state p) (pr_dm p) (ch_readable c) (ch_writable c);
                     p' = p\<lparr>pr_state := s, pr_dm := dm\<rparr>
                 in case r of
                      None \<Rightarrow> (True, p')
                    | Some used_len \<Rightarrow>
                        (case used_entry_addr (vq_config (pr_vq p)) (vq_last_used (pr_vq p)) of
                           None \<Rightarrow> (True, p')
                         | Some addr \<Rightarrow>
                             descriptors_loop G h avail_idx (use_chain G head used_len addr p'))))"
  by pat_completeness auto

termination descriptors_loop
  by (relation "measure (\<lambda>(_, _, avail_idx, p). unat (avail_idx - vq_last_avail (pr_vq p)))")
    (auto simp: reject_available_chain_def use_chain_def ring_step)

declare descriptors_loop.simps [simp del]

definition publish_avail_event :: "'m ram_ops \<Rightarrow> u16 \<Rightarrow> queue_config \<Rightarrow> 'm dmem \<Rightarrow> 'm dmem" where
  "publish_avail_event G seen cfg dm =
     (case avail_event_addr cfg of None \<Rightarrow> dm | Some addr \<Rightarrow> write_u16 G seen addr dm)"

definition reread_avail_idx :: "'m ram_ops \<Rightarrow> 'm \<Rightarrow> queue_config \<Rightarrow> u16 option" where
  "reread_avail_idx G m cfg = Option.bind (checked_add 64 (q_avail cfg) 2) (read_u16 G m)"

text \<open>
  The outer loop may run for ever while the driver keeps publishing; \<open>None\<close> is not
  returning.
\<close>

partial_function (option) descriptors_outer ::
  "'m ram_ops \<Rightarrow> ('s, 'm) desc_handler \<Rightarrow> ('s, 'm) progress \<Rightarrow> ('s, 'm) progress option" where
  "descriptors_outer G h p =
     (case read_avail_idx G (dm_mem (pr_dm p)) (vq_config (pr_vq p)) of
        None \<Rightarrow> Some p
      | Some avail_idx \<Rightarrow>
          (case descriptors_loop G h avail_idx p of (stopped, p1) \<Rightarrow>
             let p2 = p1\<lparr>pr_dm := publish_used_idx G (pr_vq p1) (pr_dm p1)\<rparr> in
             if \<not> vq_event_idx (pr_vq p2) then Some p2
             else
               let p3 = p2\<lparr>pr_dm := publish_avail_event G (vq_last_avail (pr_vq p2))
                                     (vq_config (pr_vq p2)) (pr_dm p2)\<rparr>
               in if stopped then Some p3
                  else case reread_avail_idx G (dm_mem (pr_dm p3)) (vq_config (pr_vq p3)) of
                    None \<Rightarrow> Some p3
                  | Some idx \<Rightarrow>
                      if idx \<noteq> vq_last_avail (pr_vq p3) then descriptors_outer G h p3 else Some p3))"

definition process_queue_descriptors_dirty ::
  "'m ram_ops \<Rightarrow> ('s, 'm) desc_handler \<Rightarrow> vq \<Rightarrow> 's \<Rightarrow> 'm dmem \<Rightarrow> ('s, 'm) progress option" where
  "process_queue_descriptors_dirty G h q s dm =
     (let p = \<lparr>pr_vq = q, pr_state = s, pr_dm = dm, pr_done = 0\<rparr> in
      if \<not> queue_is_usable G (dm_mem dm) (vq_config q) then Some p
      else descriptors_outer G h p)"

section \<open>Receive buffers\<close>

definition peek_head :: "'m ram_ops \<Rightarrow> 'm \<Rightarrow> vq \<Rightarrow> u16 option" where
  "peek_head G m q =
     Option.bind (avail_entry_addr (vq_config q) (vq_last_avail q + of_nat (length (vq_peeked q))))
       (read_u16 G m)"

function peek_loop :: "'m ram_ops \<Rightarrow> 'm \<Rightarrow> u16 \<Rightarrow> usize \<Rightarrow> usize \<Rightarrow> vq \<Rightarrow> vq" where
  "peek_loop G m avail_idx want have_bytes q =
     (if \<not> (have_bytes < want \<and>
            of_nat (length (vq_peeked q)) < min (avail_idx - vq_last_avail q) (q_size (vq_config q)))
      then q
      else
        case peek_head G m q of
          None \<Rightarrow> q
        | Some head \<Rightarrow>
            (case Option.bind (walk_descriptor_chain G m (vq_config q) head)
                    (\<lambda>c. if ch_readable c = [] \<and> ch_writable c \<noteq> [] then Some c else None) of
               Some c \<Rightarrow>
                 let capacity = sum_list (map snd (ch_writable c)) in
                 peek_loop G m avail_idx want (have_bytes + capacity)
                   (q\<lparr>vq_peeked := vq_peeked q @
                        [\<lparr>pk_head = head, pk_buffers = ch_writable c, pk_capacity = capacity\<rparr>]\<rparr>)
             | None \<Rightarrow>
                 if vq_peeked q = []
                 then peek_loop G m avail_idx want have_bytes (reject_available_chain q)
                 else q))"
  by pat_completeness auto

lemma word_room: "x < (y :: u16) \<Longrightarrow> unat y - unat (x + 1) < unat y - unat x"
proof -
  assume "x < y"
  then have "unat x < unat y" by (simp add: word_less_nat_alt)
  moreover have "unat y < 65536" using unsigned_less [of y] by simp
  ultimately have "unat (x + 1) = unat x + 1" by (simp add: unat_word_ariths)
  then show ?thesis using \<open>unat x < unat y\<close> by simp
qed

lemma word_room_min:
  "of_nat n < (k :: u16) \<Longrightarrow> of_nat n < (l :: u16) \<Longrightarrow>
   unat (min k l) - unat (1 + of_nat n :: u16) < unat (min k l) - unat (of_nat n :: u16)"
  using word_room [of "of_nat n" "min k l"] by (simp add: add.commute)

lemma ring_step_pos: "0 < b - a \<Longrightarrow> unat (b - (a + 1)) < unat (b - (a :: u16))"
  by (rule ring_step) auto

termination peek_loop
  by (relation "measures [\<lambda>(_, _, avail_idx, _, _, q). unat (avail_idx - vq_last_avail q),
      \<lambda>(_, _, avail_idx, _, _, q). unat (min (avail_idx - vq_last_avail q) (q_size (vq_config q))) -
         unat (of_nat (length (vq_peeked q)) :: u16)]")
    (auto simp: reject_available_chain_def ring_step_pos word_room_min)

declare peek_loop.simps [simp del]

definition peek_writable :: "'m ram_ops \<Rightarrow> 'm \<Rightarrow> usize \<Rightarrow> vq \<Rightarrow> vq" where
  "peek_writable G m want q =
     (if \<not> queue_is_usable G m (vq_config q) then q\<lparr>vq_peeked := []\<rparr>
      else
        case reread_avail_idx G m (vq_config q) of
          None \<Rightarrow> q
        | Some avail_idx \<Rightarrow>
            peek_loop G m avail_idx want (sum_list (map pk_capacity (vq_peeked q))) q)"

primrec use_peeked :: "'m ram_ops \<Rightarrow> u32 list \<Rightarrow> vq \<Rightarrow> 'm dmem \<Rightarrow> vq \<times> 'm dmem" where
  "use_peeked G [] q dm = (q, dm)"
| "use_peeked G (len # lens) q dm =
     (case vq_peeked q of
        [] \<Rightarrow> (q, dm)
      | c # cs \<Rightarrow>
          let dm' = (case used_entry_addr (vq_config q) (vq_last_used q) of
                       None \<Rightarrow> dm
                     | Some addr \<Rightarrow> snd (write_mem G (encode_used (unat (pk_head c)) len) addr dm))
          in use_peeked G lens (q\<lparr>vq_peeked := cs, vq_last_used := vq_last_used q + 1,
                                  vq_last_avail := vq_last_avail q + 1\<rparr>) dm')"

definition publish_used :: "'m ram_ops \<Rightarrow> vq \<Rightarrow> 'm dmem \<Rightarrow> bool \<times> 'm dmem" where
  "publish_used G q dm =
     (let dm1 = publish_used_idx G q dm in
      if \<not> vq_event_idx q then (False, dm1)
      else
        let seen = vq_last_avail q + of_nat (length (vq_peeked q));
            dm2 = publish_avail_event G seen (vq_config q) dm1
        in (case reread_avail_idx G (dm_mem dm2) (vq_config q) of
              None \<Rightarrow> (False, dm2)
            | Some idx \<Rightarrow> (idx \<noteq> seen, dm2)))"

section \<open>Host-agnostic chain validation\<close>

definition MAX_CHAIN_LEN :: nat where "MAX_CHAIN_LEN = 32"

datatype queue_error = ChainTooLong nat | Loop u16 | NoWritable u16 | Empty

function validate_from ::
  "(u16 \<Rightarrow> desc option) \<Rightarrow> u16 \<Rightarrow> u16 \<Rightarrow> u16 list \<Rightarrow> bool \<Rightarrow> queue_error + u16 list" where
  "validate_from read_d head idx visited has_writable =
     (if idx \<in> set visited then Err (Loop idx)
      else if MAX_CHAIN_LEN \<le> length visited then Err (ChainTooLong (length visited))
      else
        case read_d idx of
          None \<Rightarrow> Err Empty
        | Some d \<Rightarrow>
            let has_writable' = (d_flags d AND F_WRITE \<noteq> 0 \<or> has_writable);
                visited' = visited @ [idx]
            in if d_flags d AND F_NEXT = 0
               then (if \<not> has_writable' then Err (NoWritable head) else Ok visited')
               else validate_from read_d head (d_next d) visited' has_writable')"
  by pat_completeness auto

termination validate_from
  by (relation "measure (\<lambda>(_, _, _, visited, _). MAX_CHAIN_LEN - length visited)") auto

declare validate_from.simps [simp del]

definition validate_chain :: "u16 \<Rightarrow> (u16 \<Rightarrow> desc option) \<Rightarrow> queue_error + u16 list" where
  "validate_chain head read_d = validate_from read_d head head [] False"

end
