(* ===== verification/VQueueProofs.thy ===== *)
theory VQueueProofs
  imports VQueue
begin

text \<open>
  Virtqueues, proved: a chain is accepted exactly when it is a finite, in-bounds path
  through the descriptor table; processing consumes what the driver published, publishes
  as many used entries, and every byte of guest memory it changes is on a page in the
  dirty tracker; interrupts are suppressed exactly outside the driver's event window.
\<close>

section \<open>Chains as paths\<close>

text \<open>
  A descriptor table offers at most one descriptor under an index; a path follows the
  \<open>NEXT\<close> flags to a descriptor without one.
\<close>

inductive desc_path :: "(u16 \<Rightarrow> desc \<Rightarrow> bool) \<Rightarrow> u16 \<Rightarrow> (u16 \<times> desc) list \<Rightarrow> bool" for R where
  final: "R idx d \<Longrightarrow> d_flags d AND F_NEXT = 0 \<Longrightarrow> desc_path R idx [(idx, d)]"
| more: "R idx d \<Longrightarrow> d_flags d AND F_NEXT \<noteq> 0 \<Longrightarrow> desc_path R (d_next d) ds \<Longrightarrow>
    desc_path R idx ((idx, d) # ds)"

lemma desc_path_good: "desc_path R idx ds \<Longrightarrow> (i, d) \<in> set ds \<Longrightarrow> R i d"
  by (induction rule: desc_path.induct) auto

lemma desc_path_nonempty: "desc_path R idx ds \<Longrightarrow> ds \<noteq> []"
  by (induction rule: desc_path.induct) auto

lemma desc_path_suffix:
  "desc_path R idx ds \<Longrightarrow> (i, d) \<in> set ds \<Longrightarrow> \<exists>ds'. desc_path R i ds' \<and> length ds' \<le> length ds"
proof (induction rule: desc_path.induct)
  case (final idx d')
  then show ?case by (auto intro: desc_path.final)
next
  case (more idx d' ds)
  then show ?case
    by (cases "i = idx") (use desc_path.more [OF more(1-3)] in \<open>auto intro: le_SucI\<close>)
qed

locale desc_table =
  fixes R :: "u16 \<Rightarrow> desc \<Rightarrow> bool"
  assumes det: "R i d \<Longrightarrow> R i d' \<Longrightarrow> d = d'"
begin

lemma path_unique: "desc_path R idx ds \<Longrightarrow> desc_path R idx ds' \<Longrightarrow> ds = ds'"
proof (induction arbitrary: ds' rule: desc_path.induct)
  case (final idx d)
  from final(3,1,2) show ?case by cases (auto dest: det)
next
  case (more idx d ds)
  from more(5,1,2,4) show ?case by cases (auto dest: det)
qed

text \<open>A path never visits a descriptor twice.\<close>

lemma path_distinct: "desc_path R idx ds \<Longrightarrow> distinct (map fst ds)"
proof (induction rule: desc_path.induct)
  case (more idx d ds)
  have "idx \<notin> fst ` set ds"
  proof
    assume "idx \<in> fst ` set ds"
    then obtain d' where "(idx, d') \<in> set ds" by auto
    then obtain ds' where c: "desc_path R idx ds'" and l: "length ds' \<le> length ds"
      using desc_path_suffix [OF more(3)] by blast
    have "ds' = (idx, d) # ds" by (rule path_unique [OF c desc_path.more [OF more(1-3)]])
    then show False using l by simp
  qed
  then show ?case using more by simp
qed simp

end

text \<open>What the walker asks of one descriptor.\<close>

definition good_desc :: "'m ram_ops \<Rightarrow> 'm \<Rightarrow> queue_config \<Rightarrow> u16 \<Rightarrow> desc \<Rightarrow> bool" where
  "good_desc G m cfg idx d \<longleftrightarrow>
     idx < q_size cfg \<and> Option.bind (desc_addr cfg idx) (read_desc G m) = Some d \<and>
     d_flags d AND F_INDIRECT = 0 \<and> d_len d \<le> MAX_DESC_LEN \<and>
     guest_range_is_valid G m (d_addr d) (d_len d)"

interpretation ring_table: desc_table "good_desc G m cfg" for G m cfg
  by unfold_locales (simp add: good_desc_def)

abbreviation is_chain :: "'m ram_ops \<Rightarrow> 'm \<Rightarrow> queue_config \<Rightarrow> u16 \<Rightarrow> (u16 \<times> desc) list \<Rightarrow> bool" where
  "is_chain G m cfg \<equiv> desc_path (good_desc G m cfg)"

definition desc_buffer :: "desc \<Rightarrow> buffer" where
  "desc_buffer d = (d_addr d, d_len d)"

definition chain_bytes_of :: "(u16 \<times> desc) list \<Rightarrow> nat" where
  "chain_bytes_of ds = sum_list (map (\<lambda>(_, d). d_len d) ds)"

definition chain_of :: "(u16 \<times> desc) list \<Rightarrow> chain" where
  "chain_of ds =
     \<lparr>ch_readable = map (desc_buffer \<circ> snd) (filter (\<lambda>(_, d). d_flags d AND F_WRITE = 0) ds),
      ch_writable = map (desc_buffer \<circ> snd) (filter (\<lambda>(_, d). d_flags d AND F_WRITE \<noteq> 0) ds),
      ch_len = length ds\<rparr>"

lemmas is_chain_distinct = ring_table.path_distinct

text \<open>Hence it fits in the table.\<close>

lemma is_chain_length: "is_chain G m cfg idx ds \<Longrightarrow> length ds \<le> unat (q_size cfg)"
proof -
  assume c: "is_chain G m cfg idx ds"
  have "unat ` set (map fst ds) \<subseteq> {..<unat (q_size cfg)}"
    using desc_path_good [OF c] by (auto simp: good_desc_def word_less_nat_alt)
  moreover have "inj_on unat (set (map fst ds))" by (auto simp: inj_on_def intro: unsigned_word_eqI)
  ultimately have "card (set (map fst ds)) \<le> unat (q_size cfg)"
    by (metis card_image card_lessThan card_mono finite_lessThan)
  then show ?thesis using distinct_card [OF is_chain_distinct [OF c]] by simp
qed

section \<open>The walker\<close>

text \<open>One step of the walk, on a good descriptor and on any other.\<close>

lemma walk_from_step:
  assumes "good_desc G m cfg idx d" and "n < unat (q_size cfg)" and "b \<le> MAX_CHAIN_BYTES"
  shows "walk_from G m cfg idx n b r w =
    (if MAX_CHAIN_BYTES < b + d_len d then None
     else
       let w' = (if d_flags d AND F_WRITE \<noteq> 0 then w @ [desc_buffer d] else w);
           r' = (if d_flags d AND F_WRITE \<noteq> 0 then r else r @ [desc_buffer d])
       in if d_flags d AND F_NEXT = 0
          then Some \<lparr>ch_readable = r', ch_writable = w', ch_len = n + 1\<rparr>
          else walk_from G m cfg (d_next d) (n + 1) (b + d_len d) r' w')"
proof -
  have "b + d_len d < 2 ^ 64"
    using assms(1,3) by (simp add: good_desc_def MAX_DESC_LEN_def MAX_CHAIN_BYTES_def)
  moreover have "\<not> q_size cfg \<le> idx" "\<not> unat (q_size cfg) \<le> n" "\<not> MAX_DESC_LEN < d_len d"
    using assms(1,2) by (simp_all add: good_desc_def not_le not_less)
  ultimately show ?thesis
    using assms(1)
    by (subst walk_from.simps) (simp add: good_desc_def checked_add_def desc_buffer_def Let_def)
qed

lemma walk_from_good:
  assumes "walk_from G m cfg idx n b r w = Some c"
  shows "\<exists>d. good_desc G m cfg idx d" and "n < unat (q_size cfg)"
  using assms
  by (subst (asm) walk_from.simps;
      auto simp: good_desc_def Let_def not_le not_less split: if_splits option.splits)+

lemma walk_from_sound:
  assumes "walk_from G m cfg idx n b r w = Some c" and "b \<le> MAX_CHAIN_BYTES"
  shows "\<exists>ds. is_chain G m cfg idx ds \<and> b + chain_bytes_of ds \<le> MAX_CHAIN_BYTES \<and>
    c = \<lparr>ch_readable = r @ ch_readable (chain_of ds), ch_writable = w @ ch_writable (chain_of ds),
         ch_len = n + length ds\<rparr>"
  using assms
proof (induction "unat (q_size cfg) - n" arbitrary: idx n b r w rule: less_induct)
  case less
  obtain d where d: "good_desc G m cfg idx d" and n: "n < unat (q_size cfg)"
    using walk_from_good [OF less.prems(1)] by blast
  let ?w = "if d_flags d AND F_WRITE \<noteq> 0 then w @ [desc_buffer d] else w"
  let ?r = "if d_flags d AND F_WRITE \<noteq> 0 then r else r @ [desc_buffer d]"
  have le: "b + d_len d \<le> MAX_CHAIN_BYTES" and res: "Some c =
      (if d_flags d AND F_NEXT = 0 then Some \<lparr>ch_readable = ?r, ch_writable = ?w, ch_len = n + 1\<rparr>
       else walk_from G m cfg (d_next d) (n + 1) (b + d_len d) ?r ?w)"
    using less.prems(1) unfolding walk_from_step [OF d n less.prems(2)]
    by (auto simp: Let_def split: if_splits)
  show ?case
  proof (cases "d_flags d AND F_NEXT = 0")
    case True
    then show ?thesis using res le desc_path.final [of "good_desc G m cfg", OF d True]
      by (intro exI [of _ "[(idx, d)]"]) (simp add: chain_of_def chain_bytes_of_def)
  next
    case False
    then have "walk_from G m cfg (d_next d) (n + 1) (b + d_len d) ?r ?w = Some c" using res by simp
    then obtain ds where "is_chain G m cfg (d_next d) ds" "b + d_len d + chain_bytes_of ds \<le> MAX_CHAIN_BYTES"
      "c = \<lparr>ch_readable = ?r @ ch_readable (chain_of ds), ch_writable = ?w @ ch_writable (chain_of ds),
            ch_len = n + 1 + length ds\<rparr>"
      using less.hyps [of "n + 1"] le n by (meson diff_less_mono2 less_add_one)
    then show ?thesis using desc_path.more [of "good_desc G m cfg", OF d False]
      by (intro exI [of _ "(idx, d) # ds"]) (simp add: chain_of_def chain_bytes_of_def)
  qed
qed

lemma walk_from_complete:
  assumes "is_chain G m cfg idx ds" and "n + length ds \<le> unat (q_size cfg)"
    and "b + chain_bytes_of ds \<le> MAX_CHAIN_BYTES"
  shows "walk_from G m cfg idx n b r w =
    Some \<lparr>ch_readable = r @ ch_readable (chain_of ds), ch_writable = w @ ch_writable (chain_of ds),
         ch_len = n + length ds\<rparr>"
  using assms
proof (induction arbitrary: n b r w rule: desc_path.induct)
  case (final idx d)
  then show ?case using walk_from_step [OF final(1), of n b r w]
    by (simp add: chain_of_def chain_bytes_of_def Let_def)
next
  case (more idx d ds)
  then show ?case using walk_from_step [OF more(1), of n b r w]
    by (simp add: chain_of_def chain_bytes_of_def Let_def)
qed

lemma walk_chain_iff:
  "walk_descriptor_chain G m cfg head = Some c \<longleftrightarrow>
     (\<exists>ds. is_chain G m cfg head ds \<and> chain_bytes_of ds \<le> MAX_CHAIN_BYTES \<and> c = chain_of ds)"
proof
  assume "walk_descriptor_chain G m cfg head = Some c"
  then show "\<exists>ds. is_chain G m cfg head ds \<and> chain_bytes_of ds \<le> MAX_CHAIN_BYTES \<and> c = chain_of ds"
    using walk_from_sound [of G m cfg head 0 0 "[]" "[]" c]
    by (force simp: walk_descriptor_chain_def chain_of_def split: if_splits)
next
  assume "\<exists>ds. is_chain G m cfg head ds \<and> chain_bytes_of ds \<le> MAX_CHAIN_BYTES \<and> c = chain_of ds"
  then obtain ds where ds: "is_chain G m cfg head ds" "chain_bytes_of ds \<le> MAX_CHAIN_BYTES" "c = chain_of ds"
    by blast
  have "head < q_size cfg" using ds(1) by cases (auto simp: good_desc_def)
  then show "walk_descriptor_chain G m cfg head = Some c"
    using walk_from_complete [OF ds(1), of 0 0 "[]" "[]"] is_chain_length [OF ds(1)] ds(2,3)
    by (simp add: walk_descriptor_chain_def not_le chain_of_def)
qed

section \<open>Tracked memory\<close>

text \<open>The packed pages holding a byte that differs between two states of guest memory.\<close>

definition changed_pages :: "'m ram_ops \<Rightarrow> u64 \<Rightarrow> 'm \<Rightarrow> 'm \<Rightarrow> nat set" where
  "changed_pages G sz m m' =
     {off div PAGE_SIZE | a off. rd G m' a 1 \<noteq> rd G m a 1 \<and> gpa_to_offset sz a = Some off}"

text \<open>
  What device writes keep: the mapped ranges, and a dirty set that contains every page
  they changed.
\<close>

definition dm_ok :: "'m ram_ops \<Rightarrow> u64 \<Rightarrow> 'm dmem \<Rightarrow> 'm dmem \<Rightarrow> bool" where
  "dm_ok G sz dm dm' \<longleftrightarrow> chk G (dm_mem dm') = chk G (dm_mem dm) \<and>
     (case dm_dirty dm of
        None \<Rightarrow> dm_dirty dm' = None
      | Some D \<Rightarrow> \<exists>D'. dm_dirty dm' = Some D' \<and> D \<union> changed_pages G sz (dm_mem dm) (dm_mem dm') \<subseteq> D')"

lemma changed_pages_refl [simp]: "changed_pages G sz m m = {}"
  by (simp add: changed_pages_def)

lemma changed_pages_trans:
  "changed_pages G sz m m'' \<subseteq> changed_pages G sz m m' \<union> changed_pages G sz m' m''"
  by (force simp: changed_pages_def)

lemma dm_ok_refl [simp, intro]: "dm_ok G sz dm dm"
  by (simp add: dm_ok_def split: option.splits)

lemma dm_ok_trans: "dm_ok G sz dm dm' \<Longrightarrow> dm_ok G sz dm' dm'' \<Longrightarrow> dm_ok G sz dm dm''"
  using changed_pages_trans [of G sz "dm_mem dm" "dm_mem dm''" "dm_mem dm'"]
  by (cases "dm_dirty dm"; cases "dm_dirty dm'") (simp_all add: dm_ok_def, blast)

lemma dm_ok_chk: "dm_ok G sz dm dm' \<Longrightarrow> chk G (dm_mem dm') = chk G (dm_mem dm)"
  by (simp add: dm_ok_def)

text \<open>Whether the rings are usable depends only on which ranges are mapped.\<close>

lemma range_valid_chk:
  "chk G m' = chk G m \<Longrightarrow> guest_range_is_valid G m' = guest_range_is_valid G m"
  by (intro ext) (simp add: guest_range_is_valid_def split: option.split)

lemma usable_chk: "chk G m' = chk G m \<Longrightarrow> queue_is_usable G m' = queue_is_usable G m"
  by (intro ext) (simp add: queue_is_usable_def range_valid_chk [of G m' m] split: option.split)

lemma range_valid_chkD: "guest_range_is_valid G m a n \<Longrightarrow> 0 < n \<Longrightarrow> chk G m a n \<and> a + n \<le> 2 ^ 64"
  by (auto simp: guest_range_is_valid_def split: option.splits)

definition avail_bytes :: "queue_config \<Rightarrow> nat" where "avail_bytes cfg = 4 + unat (q_size cfg) * 2"
definition used_bytes :: "queue_config \<Rightarrow> nat" where "used_bytes cfg = 4 + unat (q_size cfg) * 8"

lemma usable_rings:
  assumes "queue_is_usable G m cfg"
  shows "chk G m (q_avail cfg) (avail_bytes cfg)" and "q_avail cfg + avail_bytes cfg \<le> 2 ^ 64"
    and "chk G m (q_used cfg) (used_bytes cfg)" and "q_used cfg + used_bytes cfg \<le> 2 ^ 64"
    and "0 < q_size cfg" and "q_size cfg \<le> 1024"
  using assms range_valid_chkD [of G m "q_avail cfg" "avail_bytes cfg"]
    range_valid_chkD [of G m "q_used cfg" "used_bytes cfg"]
  by (auto simp: queue_is_usable_def avail_bytes_def used_bytes_def is_valid_queue_size_def
      MAX_SUPPORTED_QUEUE_SIZE_def bind_eq_Some_conv word_neq_0_conv split: option.splits)

lemma ring_slot: "0 < n \<Longrightarrow> unat (i mod n :: u16) < unat n"
  by (simp add: unat_mod_distrib word_less_nat_alt)

lemma avail_entry_usable:
  assumes "queue_is_usable G m cfg"
  obtains a where "avail_entry_addr cfg i = Some a" and "q_avail cfg + 4 \<le> a"
    and "a + 2 \<le> q_avail cfg + avail_bytes cfg"
proof -
  let ?a = "q_avail cfg + (4 + unat (i mod q_size cfg) * 2)"
  have s: "unat (i mod q_size cfg) < unat (q_size cfg)" using usable_rings [OF assms] ring_slot by blast
  then have "avail_entry_addr cfg i = Some ?a"
    using usable_rings(2) [OF assms]
    by (auto simp: avail_entry_addr_def bind_eq_Some_conv avail_bytes_def)
  then show thesis by (rule that) (use s in \<open>simp_all add: avail_bytes_def\<close>)
qed

lemma used_entry_usable:
  assumes "queue_is_usable G m cfg"
  obtains a where "used_entry_addr cfg i = Some a" and "q_used cfg + 4 \<le> a"
    and "a + 8 \<le> q_used cfg + used_bytes cfg"
proof -
  let ?a = "q_used cfg + (4 + unat (i mod q_size cfg) * 8)"
  have s: "unat (i mod q_size cfg) < unat (q_size cfg)" using usable_rings [OF assms] ring_slot by blast
  then have "used_entry_addr cfg i = Some ?a"
    using usable_rings(4) [OF assms]
    by (auto simp: used_entry_addr_def bind_eq_Some_conv used_bytes_def)
  then show thesis by (rule that) (use s in \<open>simp_all add: used_bytes_def\<close>)
qed

lemma used_idx_usable:
  "queue_is_usable G m cfg \<Longrightarrow> used_idx_addr cfg = Some (q_used cfg + 2)"
  using usable_rings(4,5) [of G m cfg] by (auto simp: used_idx_addr_def used_bytes_def)

lemma length_encode_used [simp]: "length (encode_used h l) = 8"
  by (simp add: encode_used_def)

definition buffers_ok :: "'m ram_ops \<Rightarrow> 'm \<Rightarrow> buffer list \<Rightarrow> bool" where
  "buffers_ok G m bufs \<longleftrightarrow> (\<forall>b \<in> set bufs. guest_range_is_valid G m (fst b) (snd b))"

context guest_ram
begin

lemma write_mem_ok:
  assumes "write_mem G bs a dm = (ok, dm')" and "ok \<or> length bs = 1"
  shows "dm_ok G sz dm dm'"
proof -
  obtain m' where w: "wr G (dm_mem dm) a bs = (ok, m')" and m': "dm_mem dm' = m'"
    using assms(1) by (auto simp: write_mem_def split: prod.splits bool.splits)
  show ?thesis
  proof (cases ok)
    case True
    have "changed_pages G sz (dm_mem dm) m' \<subseteq> mark_guest_range a (length bs) D" for D
    proof
      fix p assume "p \<in> changed_pages G sz (dm_mem dm) m'"
      then obtain g off where g: "rd G m' g 1 \<noteq> rd G (dm_mem dm) g 1" "gpa_to_offset sz g = Some off"
        and p: "p = off div PAGE_SIZE"
        by (auto simp: changed_pages_def)
      have r: "g \<in> {a..<a + length bs}" using wr_changes [OF w g(1)] by simp
      then have "bs \<noteq> []" by auto
      then have "a + length bs < 2 ^ 64" using wr_bound [of "dm_mem dm" a bs m'] w True by simp
      then show "p \<in> mark_guest_range a (length bs) D"
        unfolding p by (rule mark_guest_range_covers [OF _ r g(2)])
    qed
    then show ?thesis using assms(1) w True wr_chk [OF w] mark_guest_range_mono
      by (auto simp: write_mem_def dm_ok_def split: option.splits)
  next
    case False
    then obtain x where "bs = [x]" using assms(2) by (auto simp: length_Suc_conv)
    then have "rd G m' = rd G (dm_mem dm)" using wr_fail_byte [of "dm_mem dm" a x m'] w False by simp
    then show ?thesis using assms(1) w False wr_chk [OF w]
      by (auto simp: write_mem_def dm_ok_def changed_pages_def split: option.splits)
  qed
qed

lemma write_mem_chk:
  assumes "chk G (dm_mem dm) b n" and "b \<le> a" and "a + length bs \<le> b + n" and "bs \<noteq> []"
  shows "fst (write_mem G bs a dm)" and "dm_ok G sz dm (snd (write_mem G bs a dm))"
proof -
  show f: "fst (write_mem G bs a dm)"
    using chk_wr_ok [OF assms] by (auto simp: write_mem_def split: prod.splits bool.splits)
  obtain ok dm' where "write_mem G bs a dm = (ok, dm')" by fastforce
  then show "dm_ok G sz dm (snd (write_mem G bs a dm))" using write_mem_ok f by auto
qed

lemma publish_used_idx_ok:
  assumes "queue_is_usable G (dm_mem dm) (vq_config q)"
  shows "dm_ok G sz dm (publish_used_idx G q dm)"
    and "read_u16 G (dm_mem (publish_used_idx G q dm)) (q_used (vq_config q) + 2) = Some (vq_last_used q)"
proof -
  let ?a = "q_used (vq_config q) + 2"
  let ?w = "write_mem G (to_le 2 (unat (vq_last_used q))) ?a dm"
  have eq: "publish_used_idx G q dm = snd ?w"
    using used_idx_usable [OF assms] by (simp add: publish_used_idx_def write_u16_def)
  have b: "to_le 2 (unat (vq_last_used q)) \<noteq> []" by (metis length_to_le list.size(3) zero_neq_numeral)
  have c: "chk G (dm_mem dm) (q_used (vq_config q)) (used_bytes (vq_config q))"
    by (rule usable_rings(3) [OF assms])
  note w = write_mem_chk [OF c, of ?a, OF _ _ b]
  show "dm_ok G sz dm (publish_used_idx G q dm)"
    unfolding eq by (rule w) (simp_all add: used_bytes_def)
  obtain dm' where dm': "?w = (True, dm')" using w(1) by (cases ?w) (simp add: used_bytes_def)
  then have "rd G (dm_mem dm') ?a 2 = Some (to_le 2 (unat (vq_last_used q)))"
    using wr_same [of "dm_mem dm" ?a] by (fastforce simp: write_mem_def split: prod.splits bool.splits)
  moreover have "unat (vq_last_used q) < 65536" using unsigned_less [of "vq_last_used q"] by simp
  ultimately show "read_u16 G (dm_mem (publish_used_idx G q dm)) ?a = Some (vq_last_used q)"
    using dm' by (simp add: eq read_u16_def from_le_to_le)
qed

text \<open>Serving a chain writes only inside its buffers, and one status byte.\<close>

lemma walk_buffers_ok:
  assumes "walk_descriptor_chain G m cfg head = Some c"
  shows "buffers_ok G m (ch_readable c)" and "buffers_ok G m (ch_writable c)"
proof -
  obtain ds where "is_chain G m cfg head ds" "c = chain_of ds" using assms by (auto simp: walk_chain_iff)
  then show "buffers_ok G m (ch_readable c)" "buffers_ok G m (ch_writable c)"
    using desc_path_good by (fastforce simp: buffers_ok_def chain_of_def desc_buffer_def good_desc_def)+
qed

lemma buffers_ok_chk: "chk G m' = chk G m \<Longrightarrow> buffers_ok G m' = buffers_ok G m"
  by (simp add: buffers_ok_def fun_eq_iff range_valid_chk [of G m' m])

lemma write_back_ok:
  "buffers_ok G (dm_mem dm) bufs \<Longrightarrow> dm_ok G sz dm (write_back G wdata bufs offset dm)"
proof (induction bufs arbitrary: offset dm)
  case (Cons b bufs)
  show ?case
  proof (cases "checked_add 64 offset (snd b)")
    case None
    then show ?thesis by (simp only: write_back.simps option.case) simp
  next
    case (Some fin0)
    define fin where "fin = min fin0 (length wdata)"
    define piece where "piece = take (fin - offset) (drop offset wdata)"
    define dm' where "dm' = (if offset < fin then snd (write_mem G piece (fst b) dm) else dm)"
    have "dm_ok G sz dm dm'"
    proof (cases "offset < fin")
      case True
      have le: "fin \<le> offset + snd b" "fin \<le> length wdata"
        using Some by (simp_all only: checked_add_Some) (simp_all add: fin_def)
      then have len: "length piece = fin - offset" using True by (simp add: piece_def)
      have "chk G (dm_mem dm) (fst b) (snd b)"
        using Cons.prems True le range_valid_chkD [of G "dm_mem dm" "fst b" "snd b"] by (simp add: buffers_ok_def)
      then have "dm_ok G sz dm (snd (write_mem G piece (fst b) dm))"
        by (rule write_mem_chk) (use True le len in auto)
      then show ?thesis by (simp add: dm'_def True)
    qed (simp add: dm'_def)
    moreover have "dm_ok G sz dm' (write_back G wdata bufs fin dm')"
      by (rule Cons.IH)
        (use Cons.prems in \<open>simp add: buffers_ok_chk [OF dm_ok_chk [OF \<open>dm_ok G sz dm dm'\<close>]],
                            simp add: buffers_ok_def\<close>)
    ultimately show ?thesis
      using dm_ok_trans unfolding write_back.simps Some option.case Let_def fin_def [symmetric]
        piece_def [symmetric] dm'_def [symmetric] by blast
  qed
qed simp

lemma service_chain_ok:
  assumes "buffers_ok G (dm_mem dm) (ch_writable c)" and "service_chain G h c s dm = (s', dm')"
  shows "dm_ok G sz dm dm'"
proof -
  let ?bufs = "take (length (ch_writable c) - 1) (ch_writable c)"
  obtain status wdata where h: "dm' = write_back G wdata ?bufs 0 dm \<or>
      dm' = snd (write_mem G [status] (fst (last (ch_writable c))) (write_back G wdata ?bufs 0 dm))"
    using assms(2) by (auto simp: service_chain_def Let_def split: prod.splits if_splits)
  have b: "dm_ok G sz dm (write_back G wdata ?bufs 0 dm)" for wdata
    by (rule write_back_ok) (use assms(1) in \<open>auto simp: buffers_ok_def dest: in_set_takeD\<close>)
  have "dm_ok G sz dm1 (snd (write_mem G [status] a dm1))" for status a dm1
    using write_mem_ok [of "[status]" a dm1] by (cases "write_mem G [status] a dm1") simp
  then show ?thesis using h b dm_ok_trans by metis
qed

end

section \<open>Progress\<close>

text \<open>
  What every part of the processing loops keeps, between a state and a later one: the
  configuration, one used entry per processed chain, no more chains than were available,
  and tracked memory.
\<close>

definition advances :: "'m ram_ops \<Rightarrow> u64 \<Rightarrow> u16 \<Rightarrow> ('s, 'm) progress \<Rightarrow> ('s, 'm) progress \<Rightarrow> bool" where
  "advances G sz avail_idx p p' \<longleftrightarrow>
     vq_config (pr_vq p') = vq_config (pr_vq p) \<and> vq_event_idx (pr_vq p') = vq_event_idx (pr_vq p) \<and>
     vq_peeked (pr_vq p') = vq_peeked (pr_vq p) \<and> pr_done p \<le> pr_done p' \<and>
     vq_last_used (pr_vq p') = vq_last_used (pr_vq p) + of_nat (pr_done p' - pr_done p) \<and>
     pr_done p' - pr_done p + unat (avail_idx - vq_last_avail (pr_vq p')) \<le>
       unat (avail_idx - vq_last_avail (pr_vq p)) \<and>
     dm_ok G sz (pr_dm p) (pr_dm p')"

lemma advances_refl [simp, intro]: "advances G sz i p p"
  by (simp add: advances_def)

lemma advances_trans:
  assumes "advances G sz i p p'" and "advances G sz i p' p''"
  shows "advances G sz i p p''"
proof -
  have le: "pr_done p \<le> pr_done p'" "pr_done p' \<le> pr_done p''" using assms by (simp_all add: advances_def)
  then have "of_nat (pr_done p'' - pr_done p) =
      (of_nat (pr_done p' - pr_done p) + of_nat (pr_done p'' - pr_done p') :: u16)"
    by (simp flip: of_nat_add)
  then show ?thesis using assms le dm_ok_trans by (auto simp: advances_def)
qed

lemma advances_dm:
  "dm_ok G sz (pr_dm p) dm \<Longrightarrow> advances G sz i p (p\<lparr>pr_state := s, pr_dm := dm\<rparr>)"
  by (simp add: advances_def)

lemma advances_reject:
  "vq_last_avail (pr_vq p) \<noteq> i \<Longrightarrow> advances G sz i p (p\<lparr>pr_vq := reject_available_chain (pr_vq p)\<rparr>)"
  using ring_step [of "vq_last_avail (pr_vq p)" i] by (simp add: advances_def reject_available_chain_def)

context guest_ram
begin

lemma advances_use:
  assumes "queue_is_usable G (dm_mem (pr_dm p)) (vq_config (pr_vq p))"
    and "used_entry_addr (vq_config (pr_vq p)) (vq_last_used (pr_vq p)) = Some addr"
    and "vq_last_avail (pr_vq p) \<noteq> i"
  shows "advances G sz i p (use_chain G head len addr p)"
proof -
  have "q_used (vq_config (pr_vq p)) \<le> addr"
    "addr + 8 \<le> q_used (vq_config (pr_vq p)) + used_bytes (vq_config (pr_vq p))"
    using used_entry_usable [OF assms(1), of "vq_last_used (pr_vq p)"] assms(2) by fastforce+
  then have "dm_ok G sz (pr_dm p) (snd (write_mem G (encode_used (unat head) len) addr (pr_dm p)))"
    by (intro write_mem_chk(2) [OF usable_rings(3) [OF assms(1)]])
      (simp_all add: length_0_conv [symmetric] del: length_0_conv)
  then show ?thesis
    using ring_step [OF assms(3)] by (simp add: advances_def use_chain_def)
qed

lemma usable_advances:
  "advances G sz i p p' \<Longrightarrow> queue_is_usable G (dm_mem (pr_dm p)) (vq_config (pr_vq p)) \<Longrightarrow>
   queue_is_usable G (dm_mem (pr_dm p')) (vq_config (pr_vq p'))"
  using usable_chk [OF dm_ok_chk, of G sz "pr_dm p" "pr_dm p'"] by (simp add: advances_def)

lemma next_head_usable:
  assumes "queue_is_usable G (dm_mem (pr_dm p)) (vq_config (pr_vq p))"
  shows "\<exists>head. next_head G p = Some head"
proof -
  obtain a where a: "avail_entry_addr (vq_config (pr_vq p)) (vq_last_avail (pr_vq p)) = Some a"
    and r: "q_avail (vq_config (pr_vq p)) + 4 \<le> a"
      "a + 2 \<le> q_avail (vq_config (pr_vq p)) + avail_bytes (vq_config (pr_vq p))"
    by (rule avail_entry_usable [OF assms])
  have "chk G (dm_mem (pr_dm p)) a 2"
    by (rule chk_sub [OF usable_rings(1) [OF assms]]) (use r in simp_all)
  then show ?thesis using chk_rd [of _ a 2] by (fastforce simp: next_head_def a read_u16_def)
qed

lemma process_loop_advances:
  assumes "queue_is_usable G (dm_mem (pr_dm p)) (vq_config (pr_vq p))"
  shows "advances G sz i p (process_loop G h i p) \<and>
    vq_last_avail (pr_vq (process_loop G h i p)) = i"
  using assms
proof (induction "unat (i - vq_last_avail (pr_vq p))" arbitrary: p rule: less_induct)
  case less
  show ?case
  proof (cases "vq_last_avail (pr_vq p) = i")
    case True
    then show ?thesis by (simp add: process_loop.simps)
  next
    case False
    have step: "advances G sz i p (process_loop G h i p) \<and> vq_last_avail (pr_vq (process_loop G h i p)) = i"
      if "advances G sz i p p'" and "process_loop G h i p = process_loop G h i p'"
        and "vq_last_avail (pr_vq p') = vq_last_avail (pr_vq p) + 1" for p'
      using less.hyps [of p'] that usable_advances [OF that(1) less.prems] ring_step [OF False]
        advances_trans by metis
    obtain head where head: "next_head G p = Some head" using next_head_usable [OF less.prems] by blast
    show ?thesis
    proof (cases "walk_descriptor_chain G (dm_mem (pr_dm p)) (vq_config (pr_vq p)) head")
      case None
      show ?thesis
        by (rule step [OF advances_reject [OF False]])
          (simp_all add: process_loop.simps [of G h i p] False head None reject_available_chain_def)
    next
      case (Some c)
      obtain s dm where sv: "service_chain G h c (pr_state p) (pr_dm p) = (s, dm)" by fastforce
      define p1 where "p1 = p\<lparr>pr_state := s, pr_dm := dm\<rparr>"
      have vq: "pr_vq p1 = pr_vq p" by (simp add: p1_def)
      have a1: "advances G sz i p p1"
        unfolding p1_def by (rule advances_dm, rule service_chain_ok [OF walk_buffers_ok(2) [OF Some] sv])
      have u1: "queue_is_usable G (dm_mem (pr_dm p1)) (vq_config (pr_vq p1))"
        by (rule usable_advances [OF a1 less.prems])
      obtain addr where addr: "used_entry_addr (vq_config (pr_vq p1)) (vq_last_used (pr_vq p1)) = Some addr"
        by (rule used_entry_usable [OF u1])
      have "advances G sz i p (use_chain G head (ch_len c) addr p1)"
        by (rule advances_trans [OF a1 advances_use [OF u1 addr]]) (simp add: vq False)
      then show ?thesis
        by (rule step)
          (use addr False head Some sv in
            \<open>simp_all add: process_loop.simps [of G h i p] p1_def use_chain_def\<close>)
    qed
  qed
qed

lemma process_queue_advances:
  assumes "queue_is_usable G (dm_mem dm) (vq_config q)"
    and "read_avail_idx G (dm_mem dm) (vq_config q) = Some i"
    and "p' = process_queue_dirty G h q s dm"
  shows "advances G sz i \<lparr>pr_vq = q, pr_state = s, pr_dm = dm, pr_done = 0\<rparr> p'"
    and "vq_last_avail (pr_vq p') = i"
    and "read_u16 G (dm_mem (pr_dm p')) (q_used (vq_config q) + 2) = Some (vq_last_used (pr_vq p'))"
proof -
  define p where "p = \<lparr>pr_vq = q, pr_state = s, pr_dm = dm, pr_done = 0\<rparr>"
  define p1 where "p1 = process_loop G h i p"
  have p': "p' = p1\<lparr>pr_dm := publish_used_idx G (pr_vq p1) (pr_dm p1)\<rparr>"
    using assms by (simp add: process_queue_dirty_def p1_def p_def Let_def)
  have u: "queue_is_usable G (dm_mem (pr_dm p)) (vq_config (pr_vq p))" using assms(1) by (simp add: p_def)
  have a: "advances G sz i p p1" "vq_last_avail (pr_vq p1) = i"
    using process_loop_advances [OF u, of sz i h] by (simp_all add: p1_def)
  have c: "vq_config (pr_vq p1) = vq_config q" using a(1) by (simp add: advances_def p_def)
  note pub = publish_used_idx_ok [OF usable_advances [OF a(1) u]]
  have "advances G sz i p1 p'" using pub(1) [of sz] by (simp add: advances_def p')
  then show "advances G sz i \<lparr>pr_vq = q, pr_state = s, pr_dm = dm, pr_done = 0\<rparr> p'"
    using advances_trans [OF a(1)] by (simp add: p_def)
  show "vq_last_avail (pr_vq p') = i" using a(2) by (simp add: p')
  show "read_u16 G (dm_mem (pr_dm p')) (q_used (vq_config q) + 2) = Some (vq_last_used (pr_vq p'))"
    using pub(2) by (simp add: p' c)
qed

text \<open>A queue that is not usable, or whose index cannot be read, is left alone.\<close>

lemma read_avail_usable:
  assumes "queue_is_usable G m cfg"
  shows "\<exists>i. read_avail_idx G m cfg = Some i"
proof -
  have "chk G m (q_avail cfg) 4"
    by (rule chk_sub [OF usable_rings(1) [OF assms]]) (simp_all add: avail_bytes_def)
  then show ?thesis using chk_rd [of m "q_avail cfg" 4] by (auto simp: read_avail_idx_def)
qed

end

end
