(* ===== verification/VQueueClaims.thy ===== *)
theory VQueueClaims
  imports VQueueProofs "HOL-Library.Sublist"
begin

text \<open>
  The descriptor-level loop, receive buffers and host-agnostic validation, proved; and the
  properties of virtqueues, each at a concrete ring too.
\<close>

section \<open>The descriptor-level loop\<close>

text \<open>
  What the loop relies on from its handler: it writes guest memory through the tracked
  helpers, and leaves the header of the available ring alone.
\<close>

definition handler_ok :: "'m ram_ops \<Rightarrow> u64 \<Rightarrow> queue_config \<Rightarrow> ('s, 'm) desc_handler \<Rightarrow> bool" where
  "handler_ok G sz cfg h \<longleftrightarrow> (\<forall>s dm r w res s' dm'.
     h s dm r w = (res, s', dm') \<longrightarrow> buffers_ok G (dm_mem dm) r \<longrightarrow> buffers_ok G (dm_mem dm) w \<longrightarrow>
     dm_ok G sz dm dm' \<and> rd G (dm_mem dm') (q_avail cfg) 4 = rd G (dm_mem dm) (q_avail cfg) 4)"

text \<open>The used ring, its event field included, does not reach into that header.\<close>

definition rings_apart :: "queue_config \<Rightarrow> bool" where
  "rings_apart cfg \<longleftrightarrow>
     q_avail cfg + 4 \<le> q_used cfg \<or> q_used cfg + used_bytes cfg + 2 \<le> q_avail cfg"

definition same_header :: "'m ram_ops \<Rightarrow> queue_config \<Rightarrow> 'm dmem \<Rightarrow> 'm dmem \<Rightarrow> bool" where
  "same_header G cfg dm dm' \<longleftrightarrow>
     rd G (dm_mem dm') (q_avail cfg) 4 = rd G (dm_mem dm) (q_avail cfg) 4"

context guest_ram
begin

lemma same_header_write:
  assumes "rings_apart cfg" and "q_used cfg \<le> a" and "a + length bs \<le> q_used cfg + used_bytes cfg + 2"
  shows "same_header G cfg dm (snd (write_mem G bs a dm))"
proof -
  obtain ok m' where w: "wr G (dm_mem dm) a bs = (ok, m')" by fastforce
  have "rd G m' (q_avail cfg) 4 = rd G (dm_mem dm) (q_avail cfg) 4"
    by (rule wr_frame [OF w]) (use assms in \<open>auto simp: rings_apart_def\<close>)
  then show ?thesis using w by (cases ok) (simp_all add: same_header_def write_mem_def)
qed

lemma descriptors_loop_ok:
  assumes "queue_is_usable G (dm_mem (pr_dm p)) cfg" and "vq_config (pr_vq p) = cfg"
    and h: "handler_ok G sz cfg h" and apart: "rings_apart cfg"
    and "descriptors_loop G h i p = (stopped, p')"
  shows "advances G sz i p p' \<and> same_header G cfg (pr_dm p) (pr_dm p') \<and>
    (\<not> stopped \<longrightarrow> vq_last_avail (pr_vq p') = i)"
  using assms(1,2,5)
proof (induction "unat (i - vq_last_avail (pr_vq p))" arbitrary: p rule: less_induct)
  case less
  show ?case
  proof (cases "vq_last_avail (pr_vq p) = i")
    case True
    then show ?thesis using less.prems(3) by (auto simp: descriptors_loop.simps same_header_def)
  next
    case False
    have step: ?thesis
      if "advances G sz i p p1" and "same_header G cfg (pr_dm p) (pr_dm p1)"
        and "descriptors_loop G h i p1 = (stopped, p')"
        and "vq_last_avail (pr_vq p1) = vq_last_avail (pr_vq p) + 1" for p1
    proof -
      have "queue_is_usable G (dm_mem (pr_dm p1)) cfg" "vq_config (pr_vq p1) = cfg"
        using usable_advances [OF that(1)] less.prems(1,2) that(1) by (simp_all add: advances_def)
      then show ?thesis
        using less.hyps [of p1] that ring_step [OF False] advances_trans [OF that(1)]
        by (simp add: same_header_def)
    qed
    obtain head where head: "next_head G p = Some head"
      using next_head_usable [of p] less.prems(1,2) by auto
    show ?thesis
    proof (cases "walk_descriptor_chain G (dm_mem (pr_dm p)) cfg head")
      case None
      show ?thesis
        by (rule step [OF advances_reject [OF False]])
          (use less.prems in \<open>simp_all add: descriptors_loop.simps [of G h i p] False head None
             reject_available_chain_def same_header_def\<close>)
    next
      case (Some c)
      obtain r s dm where hd: "h (pr_state p) (pr_dm p) (ch_readable c) (ch_writable c) = (r, s, dm)"
        by (metis prod_cases3)
      define p1 where "p1 = p\<lparr>pr_state := s, pr_dm := dm\<rparr>"
      have dm: "dm_ok G sz (pr_dm p) dm" "same_header G cfg (pr_dm p) dm"
        using h hd walk_buffers_ok [OF Some] unfolding handler_ok_def same_header_def by blast+
      have a1: "advances G sz i p p1" unfolding p1_def by (rule advances_dm [OF dm(1)])
      have u1: "queue_is_usable G (dm_mem (pr_dm p1)) (vq_config (pr_vq p1))"
        using usable_advances [OF a1] less.prems(1,2) by simp
      obtain addr where addr: "used_entry_addr (vq_config (pr_vq p1)) (vq_last_used (pr_vq p1)) = Some addr"
        "q_used cfg + 4 \<le> addr" "addr + 8 \<le> q_used cfg + used_bytes cfg"
        using used_entry_usable [OF u1] less.prems(2) by (metis a1 advances_def)
      show ?thesis
      proof (cases r)
        case None
        then show ?thesis using less.prems a1 dm(2) False head Some hd
          by (auto simp: descriptors_loop.simps [of G h i p] p1_def)
      next
        case (Some used_len)
        show ?thesis
        proof (rule step [of "use_chain G head used_len addr p1"])
          show "advances G sz i p (use_chain G head used_len addr p1)"
            by (rule advances_trans [OF a1 advances_use [OF u1 addr(1)]]) (simp add: p1_def False)
          show "same_header G cfg (pr_dm p) (pr_dm (use_chain G head used_len addr p1))"
            using dm(2) same_header_write [OF apart, of addr "encode_used (unat head) used_len" dm] addr
            by (simp add: same_header_def use_chain_def p1_def)
          show "descriptors_loop G h i (use_chain G head used_len addr p1) = (stopped, p')"
            using less.prems addr(1) False head Some hd
              \<open>walk_descriptor_chain G (dm_mem (pr_dm p)) cfg head = Some c\<close>
            by (simp add: descriptors_loop.simps [of G h i p] p1_def)
        qed (simp add: use_chain_def p1_def)
      qed
    qed
  qed
qed

text \<open>Both reads of the driver's index agree.\<close>

lemma reread_eq:
  assumes "queue_is_usable G m cfg"
  shows "reread_avail_idx G m cfg = read_avail_idx G m cfg"
proof -
  have c: "chk G m (q_avail cfg) 4"
    by (rule chk_sub [OF usable_rings(1) [OF assms]]) (simp_all add: avail_bytes_def)
  then obtain bs where bs: "rd G m (q_avail cfg) 4 = Some bs" using chk_rd [of m "q_avail cfg" 4] by auto
  obtain cs where cs: "rd G m (q_avail cfg + 2) 2 = Some cs"
    using chk_rd [OF chk_sub [OF c, of "q_avail cfg + 2" 2]] by auto
  have "cs ! j = bs ! (2 + j)" if "j < 2" for j
    using rd_byte [OF bs, of "2 + j"] rd_byte [OF cs that] that by (simp add: add.assoc)
  then have "cs = drop 2 bs"
    using rd_length [OF bs] rd_length [OF cs] by (intro nth_equalityI) auto
  moreover have "q_avail cfg + 2 < 2 ^ 64"
    using usable_rings(2) [OF assms] by (simp add: avail_bytes_def)
  ultimately show ?thesis using bs cs
    by (simp add: reread_avail_idx_def read_avail_idx_def read_u16_def checked_add_def)
qed

lemma read_avail_header:
  "same_header G cfg dm dm' \<Longrightarrow> read_avail_idx G (dm_mem dm') cfg = read_avail_idx G (dm_mem dm) cfg"
  by (simp add: same_header_def read_avail_idx_def)

lemma publish_same_header:
  assumes "rings_apart (vq_config q)"
  shows "same_header G (vq_config q) dm (publish_used_idx G q dm)"
    and "same_header G (vq_config q) dm (publish_avail_event G seen (vq_config q) dm)"
proof -
  show "same_header G (vq_config q) dm (publish_used_idx G q dm)"
    using same_header_write [OF assms, of "q_used (vq_config q) + 2" _ dm]
    by (auto simp: publish_used_idx_def write_u16_def used_idx_addr_def used_bytes_def same_header_def
        split: option.splits)
  show "same_header G (vq_config q) dm (publish_avail_event G seen (vq_config q) dm)"
    using same_header_write [OF assms, of "q_used (vq_config q) + used_bytes (vq_config q)" _ dm]
    by (auto simp: publish_avail_event_def write_u16_def avail_event_addr_def used_bytes_def
        same_header_def bind_eq_Some_conv split: option.splits)
qed

lemma write_u16_chk: "chk G (dm_mem (write_u16 G v a dm)) = chk G (dm_mem dm)"
  using wr_chk [of "dm_mem dm" a "to_le 2 (unat v)"]
  by (auto simp: write_u16_def write_mem_def split: prod.splits bool.splits)

lemma publish_event_chk: "chk G (dm_mem (publish_avail_event G seen cfg dm)) = chk G (dm_mem dm)"
  by (simp add: publish_avail_event_def write_u16_chk split: option.split)

text \<open>One pass of the outer loop is enough when nobody moves the driver's index.\<close>

lemma descriptors_outer_returns:
  assumes u: "queue_is_usable G (dm_mem (pr_dm p)) (vq_config (pr_vq p))"
    and h: "handler_ok G sz (vq_config (pr_vq p)) h" and apart: "rings_apart (vq_config (pr_vq p))"
  shows "\<exists>p'. descriptors_outer G h p = Some p' \<and> pr_done p \<le> pr_done p' \<and>
    vq_last_used (pr_vq p') = vq_last_used (pr_vq p) + of_nat (pr_done p' - pr_done p)"
proof -
  define cfg where "cfg = vq_config (pr_vq p)"
  obtain i where i: "read_avail_idx G (dm_mem (pr_dm p)) cfg = Some i"
    using read_avail_usable [OF u] by (auto simp: cfg_def)
  obtain stopped p1 where l: "descriptors_loop G h i p = (stopped, p1)" by fastforce
  note lo = descriptors_loop_ok [OF u refl h apart l]
  then have a: "advances G sz i p p1" and sh: "same_header G cfg (pr_dm p) (pr_dm p1)"
    and fin: "\<not> stopped \<Longrightarrow> vq_last_avail (pr_vq p1) = i" by (simp_all add: cfg_def)
  have c1: "vq_config (pr_vq p1) = cfg" using a by (simp add: advances_def cfg_def)
  have u1: "queue_is_usable G (dm_mem (pr_dm p1)) (vq_config (pr_vq p1))"
    by (rule usable_advances [OF a u])
  define dm2 where "dm2 = publish_used_idx G (pr_vq p1) (pr_dm p1)"
  define dm3 where "dm3 = publish_avail_event G (vq_last_avail (pr_vq p1)) cfg dm2"
  have ap: "rings_apart (vq_config (pr_vq p1))" using apart c1 by (simp add: cfg_def)
  have hdr: "same_header G cfg (pr_dm p) dm3"
    using sh publish_same_header [OF ap] by (simp add: same_header_def dm2_def dm3_def c1)
  have "chk G (dm_mem dm3) = chk G (dm_mem (pr_dm p1))"
    using dm_ok_chk [OF publish_used_idx_ok(1) [OF u1, of sz]] by (simp add: dm3_def dm2_def publish_event_chk)
  then have u3: "queue_is_usable G (dm_mem dm3) cfg"
    using u1 usable_chk [of G "dm_mem dm3" "dm_mem (pr_dm p1)"] by (simp add: c1)
  have re: "reread_avail_idx G (dm_mem dm3) cfg = Some i"
    using reread_eq [OF u3] read_avail_header [OF hdr] i by simp
  have "descriptors_outer G h p =
      Some (p1\<lparr>pr_dm := if vq_event_idx (pr_vq p1) then dm3 else dm2\<rparr>)"
    using i l fin re
    by (subst descriptors_outer.simps, cases stopped)
      (simp_all add: cfg_def [symmetric] c1 dm2_def dm3_def Let_def)
  then show ?thesis using a by (simp add: advances_def)
qed

end

section \<open>Notification window\<close>

text \<open>\<open>vring_need_event\<close>, on wrapping 16-bit indices.\<close>

lemma event_window:
  "fin - e - 1 < fin - (old :: u16) \<longleftrightarrow> (\<exists>k < unat (fin - old). e = old + of_nat k)"
proof -
  define d where "d = fin - old"
  define y where "y = e - old"
  have eq: "fin - e - 1 = d - (y + 1)" by (simp add: d_def y_def)
  have lt: "d - (y + 1) < d \<longleftrightarrow> unat y < unat d"
    using unsigned_less [of y, where 'a = nat] unsigned_less [of d, where 'a = nat]
    by (auto simp: word_less_nat_alt unat_sub_if' unat_plus_if')
  have "unat y < unat d \<longleftrightarrow> (\<exists>k < unat d. e = old + of_nat k)"
  proof
    assume "unat y < unat d"
    then show "\<exists>k < unat d. e = old + of_nat k" by (intro exI [of _ "unat y"]) (simp add: y_def)
  next
    assume "\<exists>k < unat d. e = old + of_nat k"
    then obtain k where k: "k < unat d" "e = old + of_nat k" by blast
    then have "y = of_nat k" by (simp add: y_def)
    then have "unat y \<le> k" by (simp add: unat_of_nat)
    then show "unat y < unat d" using k(1) by simp
  qed
  then show ?thesis unfolding d_def [symmetric] eq lt .
qed

section \<open>Receive buffers\<close>

text \<open>A receive chain at a position of the available ring.\<close>

definition rx_chain_at :: "'m ram_ops \<Rightarrow> 'm \<Rightarrow> queue_config \<Rightarrow> u16 \<Rightarrow> peeked_chain \<Rightarrow> bool" where
  "rx_chain_at G m cfg position k \<longleftrightarrow>
     Option.bind (avail_entry_addr cfg position) (read_u16 G m) = Some (pk_head k) \<and>
     (\<exists>c. walk_descriptor_chain G m cfg (pk_head k) = Some c \<and> ch_readable c = [] \<and>
        ch_writable c \<noteq> [] \<and> pk_buffers k = ch_writable c \<and>
        pk_capacity k = sum_list (map snd (ch_writable c)))"

text \<open>The peeked chains are the next ones of the ring, in order.\<close>

definition peek_ok :: "'m ram_ops \<Rightarrow> 'm \<Rightarrow> vq \<Rightarrow> bool" where
  "peek_ok G m q \<longleftrightarrow> (\<forall>j < length (vq_peeked q).
     rx_chain_at G m (vq_config q) (vq_last_avail q + of_nat j) (vq_peeked q ! j))"

lemma peek_ok_append:
  assumes "peek_ok G m q" and "rx_chain_at G m (vq_config q) (vq_last_avail q + of_nat (length (vq_peeked q))) k"
  shows "peek_ok G m (q\<lparr>vq_peeked := vq_peeked q @ [k]\<rparr>)"
  using assms by (auto simp: peek_ok_def nth_append less_Suc_eq)

lemma peek_ok_pop:
  assumes "peek_ok G m q" and "vq_peeked q = c # cs"
  shows "peek_ok G m (q\<lparr>vq_peeked := cs, vq_last_used := u, vq_last_avail := vq_last_avail q + 1\<rparr>)"
proof -
  have "rx_chain_at G m (vq_config q) (vq_last_avail q + of_nat (Suc j)) (cs ! j)" if "j < length cs" for j
    using assms that unfolding peek_ok_def by (metis Suc_less_eq length_Cons nth_Cons_Suc)
  then show ?thesis by (simp add: peek_ok_def add.assoc)
qed

definition peeked_bytes :: "vq \<Rightarrow> nat" where
  "peeked_bytes q = sum_list (map pk_capacity (vq_peeked q))"

lemma peek_loop_ok:
  assumes "peek_ok G m q" and "have_bytes = peeked_bytes q"
    and "unat (avail_idx - vq_last_avail q) \<le> unat (avail_idx - la)"
  shows "let q' = peek_loop G m avail_idx want have_bytes q in
    peek_ok G m q' \<and> vq_config q' = vq_config q \<and> vq_last_used q' = vq_last_used q \<and>
    prefix (vq_peeked q) (vq_peeked q') \<and>
    (vq_peeked q \<noteq> [] \<longrightarrow> vq_last_avail q' = vq_last_avail q) \<and>
    unat (avail_idx - vq_last_avail q') \<le> unat (avail_idx - la)"
  using assms
proof (induction G m avail_idx want have_bytes q rule: peek_loop.induct)
  case (1 G m avail_idx want have_bytes q)
  define go where "go \<longleftrightarrow> have_bytes < want \<and>
    of_nat (length (vq_peeked q)) < min (avail_idx - vq_last_avail q) (q_size (vq_config q))"
  show ?case
  proof (cases "go \<and> peek_head G m q \<noteq> None")
    case False
    then have "peek_loop G m avail_idx want have_bytes q = q"
      by (subst peek_loop.simps) (auto simp: go_def)
    then show ?thesis using 1 by simp
  next
    case True
    then obtain head where go: go and head: "peek_head G m q = Some head" by auto
    define found where "found = Option.bind (walk_descriptor_chain G m (vq_config q) head)
       (\<lambda>c. if ch_readable c = [] \<and> ch_writable c \<noteq> [] then Some c else None)"
    show ?thesis
    proof (cases found)
      case None
      show ?thesis
      proof (cases "vq_peeked q = []")
        case True
        have "avail_idx \<noteq> vq_last_avail q" using go True by (auto simp: go_def)
        then have "unat (avail_idx - vq_last_avail (reject_available_chain q)) \<le> unat (avail_idx - la)"
          using "1.prems"(3) ring_step [of "vq_last_avail q" avail_idx]
          by (simp add: reject_available_chain_def)
        moreover have "peek_ok G m (reject_available_chain q)" "peeked_bytes (reject_available_chain q) = peeked_bytes q"
          using True by (simp_all add: peek_ok_def reject_available_chain_def peeked_bytes_def)
        moreover have "peek_loop G m avail_idx want have_bytes q =
            peek_loop G m avail_idx want have_bytes (reject_available_chain q)"
          using go head None True by (subst peek_loop.simps) (simp add: go_def found_def)
        ultimately show ?thesis
          using "1.IH"(1) [OF _ head None [unfolded found_def] True] go "1.prems" True
          by (simp add: go_def Let_def reject_available_chain_def)
      next
        case False
        then have "peek_loop G m avail_idx want have_bytes q = q"
          using go head None by (subst peek_loop.simps) (simp add: go_def found_def)
        then show ?thesis using 1 by simp
      qed
    next
      case (Some c)
      then have c: "walk_descriptor_chain G m (vq_config q) head = Some c" "ch_readable c = []" "ch_writable c \<noteq> []"
        by (auto simp: found_def bind_eq_Some_conv split: if_splits)
      define k where "k = \<lparr>pk_head = head, pk_buffers = ch_writable c,
        pk_capacity = sum_list (map snd (ch_writable c))\<rparr>"
      define q1 where "q1 = q\<lparr>vq_peeked := vq_peeked q @ [k]\<rparr>"
      have "rx_chain_at G m (vq_config q) (vq_last_avail q + of_nat (length (vq_peeked q))) k"
        using c head by (simp add: rx_chain_at_def k_def peek_head_def)
      then have ok: "peek_ok G m q1" unfolding q1_def by (rule peek_ok_append [OF "1.prems"(1)])
      have b: "have_bytes + sum_list (map snd (ch_writable c)) = peeked_bytes q1"
        using "1.prems"(2) by (simp add: peeked_bytes_def q1_def k_def)
      have eq: "peek_loop G m avail_idx want have_bytes q =
          peek_loop G m avail_idx want (have_bytes + sum_list (map snd (ch_writable c))) q1"
        using go head Some by (subst peek_loop.simps) (simp add: go_def found_def Let_def q1_def k_def)
      show ?thesis
        using "1.IH"(2) [OF _ head Some [unfolded found_def] refl] go ok b "1.prems"(3) eq
        by (auto simp: go_def Let_def q1_def k_def dest: append_prefixD)
    qed
  qed
qed

lemma use_peeked_ok:
  assumes "length lens \<le> length (vq_peeked q)" and "peek_ok G m q"
  shows "let q' = fst (use_peeked G lens q dm) in
    vq_peeked q' = drop (length lens) (vq_peeked q) \<and>
    vq_last_avail q' = vq_last_avail q + of_nat (length lens) \<and>
    vq_last_used q' = vq_last_used q + of_nat (length lens) \<and> peek_ok G m q'"
  using assms
proof (induction lens arbitrary: q dm)
  case (Cons len lens)
  then obtain c cs where cs: "vq_peeked q = c # cs" by (cases "vq_peeked q") auto
  define q1 where "q1 = q\<lparr>vq_peeked := cs, vq_last_used := vq_last_used q + 1, vq_last_avail := vq_last_avail q + 1\<rparr>"
  have "peek_ok G m q1" unfolding q1_def by (rule peek_ok_pop [OF Cons.prems(2) cs])
  moreover have "\<exists>dm'. use_peeked G (len # lens) q dm = use_peeked G lens q1 dm'"
    by (auto simp: cs q1_def Let_def)
  ultimately show ?case using Cons.IH [of q1] Cons.prems(1) cs by (auto simp: q1_def Let_def add.assoc)
qed simp

section \<open>Host-agnostic validation\<close>

interpretation read_table: desc_table "\<lambda>i d. read_d i = Some d" for read_d
  by unfold_locales simp

abbreviation read_path :: "(u16 \<Rightarrow> desc option) \<Rightarrow> u16 \<Rightarrow> (u16 \<times> desc) list \<Rightarrow> bool" where
  "read_path read_d \<equiv> desc_path (\<lambda>i d. read_d i = Some d)"

definition has_writable_desc :: "(u16 \<times> desc) list \<Rightarrow> bool" where
  "has_writable_desc ds \<longleftrightarrow> (\<exists>(_, d) \<in> set ds. d_flags d AND F_WRITE \<noteq> 0)"

lemma validate_from_sound:
  assumes "validate_from read_d head idx visited has_w = Ok vs"
  shows "\<exists>ds. read_path read_d idx ds \<and> vs = visited @ map fst ds \<and> length vs \<le> MAX_CHAIN_LEN \<and>
    (has_w \<or> has_writable_desc ds)"
  using assms
proof (induction read_d head idx visited has_w rule: validate_from.induct)
  case (1 read_d head idx visited has_w)
  obtain d where d: "read_d idx = Some d" and v: "idx \<notin> set visited" "length visited < MAX_CHAIN_LEN"
    using "1.prems" by (subst (asm) validate_from.simps) (auto split: if_splits option.splits)
  let ?w = "d_flags d AND F_WRITE \<noteq> 0 \<or> has_w"
  have res: "(if d_flags d AND F_NEXT = 0
      then (if \<not> ?w then Err (NoWritable head) else Ok (visited @ [idx]))
      else validate_from read_d head (d_next d) (visited @ [idx]) ?w) = Ok vs"
    using "1.prems" d v by (subst (asm) validate_from.simps) (auto simp: Let_def split: if_splits)
  show ?case
  proof (cases "d_flags d AND F_NEXT = 0")
    case True
    then show ?thesis
      using res d v desc_path.final [of "\<lambda>i d. read_d i = Some d" idx d]
      by (intro exI [of _ "[(idx, d)]"]) (auto simp: has_writable_desc_def split: if_splits)
  next
    case False
    then have "validate_from read_d head (d_next d) (visited @ [idx]) ?w = Ok vs" using res by simp
    then obtain ds where "read_path read_d (d_next d) ds" "vs = (visited @ [idx]) @ map fst ds"
      "length vs \<le> MAX_CHAIN_LEN" "?w \<or> has_writable_desc ds"
      using "1.IH" [OF _ _ d refl refl False] v by fastforce
    then show ?thesis
      using d False desc_path.more [of "\<lambda>i d. read_d i = Some d" idx d ds]
      by (intro exI [of _ "(idx, d) # ds"]) (auto simp: has_writable_desc_def)
  qed
qed

lemma validate_from_complete:
  assumes "read_path read_d idx ds" and "distinct (visited @ map fst ds)"
    and "length visited + length ds \<le> MAX_CHAIN_LEN" and "has_w \<or> has_writable_desc ds"
  shows "validate_from read_d head idx visited has_w = Ok (visited @ map fst ds)"
  using assms
proof (induction arbitrary: visited has_w rule: desc_path.induct)
  case (final idx d)
  then show ?case by (subst validate_from.simps) (auto simp: has_writable_desc_def)
next
  case (more idx d ds)
  have "(d_flags d AND F_WRITE \<noteq> 0 \<or> has_w) \<or> has_writable_desc ds"
    using more.prems(3) by (auto simp: has_writable_desc_def)
  then show ?case
    using more.IH [of "visited @ [idx]" "d_flags d AND F_WRITE \<noteq> 0 \<or> has_w"] more.hyps more.prems(1,2)
    by (subst validate_from.simps) (simp add: Let_def)
qed

section \<open>A concrete ring\<close>

text \<open>
  A queue of four entries with one published chain: sixteen readable bytes at
  \<open>0x4000\<close> and a status byte at \<open>0x5000\<close>.
\<close>

definition ex_cfg :: queue_config where
  "ex_cfg = \<lparr>q_size = 4, q_desc = 0x1000, q_avail = 0x2000, q_used = 0x3000, q_ready = True\<rparr>"

definition ex_bytes :: "nat \<Rightarrow> byte" where
  "ex_bytes i =
     (if i = 0x1001 then 0x40 else if i = 0x1008 then 16 else if i = 0x100c then 1
      else if i = 0x100e then 1 else if i = 0x1011 then 0x50 else if i = 0x1018 then 1
      else if i = 0x101c then 2 else if i = 0x2002 then 1 else 0)"

definition ex_ring :: packed_mem where
  "ex_ring = \<lparr>pm_size = 0x10000, pm_resident = (\<lambda>_. True), pm_content = ex_bytes, pm_mapped = (\<lambda>_. None)\<rparr>"

definition ex_dm :: "packed_mem dmem" where
  "ex_dm = \<lparr>dm_mem = ex_ring, dm_dirty = Some {}\<rparr>"

lemma ex_usable: "queue_is_usable packed_ops ex_ring ex_cfg"
  by (simp add: queue_is_usable_def ex_cfg_def is_valid_queue_size_def MAX_SUPPORTED_QUEUE_SIZE_def
      checked_add_def checked_mul_def guest_range_is_valid_def packed_ops_def packed_check_def ex_ring_def
      gpa_range_to_offset_def gpa_to_offset_def checked_sub_def gap_defs)

lemma ex_rd:
  assumes "0 < n" and "a + n \<le> 0x10000"
  shows "rd packed_ops ex_ring a n = Some (map ex_bytes [a..<a + n])"
proof -
  have "map (\<lambda>i. ex_bytes (a + i)) [0..<n] = map ex_bytes [a..<a + n]"
    by (rule nth_equalityI) simp_all
  then show ?thesis using assms
    by (simp add: packed_ops_def packed_read_def ex_ring_def packed_view_def view_def packed_host_def
        gpa_range_to_offset_def gpa_to_offset_def checked_add_def checked_sub_def gap_defs)
qed

lemma ex_avail: "read_avail_idx packed_ops ex_ring ex_cfg = Some 1"
  by (simp add: read_avail_idx_def ex_rd ex_cfg_def upt_rec_numeral ex_bytes_def)

lemma ex_head: "avail_entry_addr ex_cfg 0 = Some 0x2004" "read_u16 packed_ops ex_ring 0x2004 = Some 0"
  by (simp_all add: avail_entry_addr_def ex_cfg_def checked_mul_def checked_add_def read_u16_def ex_rd
      upt_rec_numeral ex_bytes_def)

text \<open>The two descriptors.\<close>

definition ex_d0 :: desc where "ex_d0 = \<lparr>d_addr = 0x4000, d_len = 16, d_flags = 1, d_next = 1\<rparr>"
definition ex_d1 :: desc where "ex_d1 = \<lparr>d_addr = 0x5000, d_len = 1, d_flags = 2, d_next = 0\<rparr>"

lemma ex_desc:
  "read_desc packed_ops ex_ring 0x1000 = Some ex_d0" "read_desc packed_ops ex_ring 0x1010 = Some ex_d1"
  by (simp_all add: read_desc_def decode_desc_def ex_rd upt_rec_numeral ex_bytes_def ex_d0_def ex_d1_def)

lemma ex_good: "good_desc packed_ops ex_ring ex_cfg 0 ex_d0" "good_desc packed_ops ex_ring ex_cfg 1 ex_d1"
  using ex_desc
  by (simp_all add: good_desc_def desc_addr_def ex_cfg_def checked_mul_def checked_add_def F_INDIRECT_def
      MAX_DESC_LEN_def guest_range_is_valid_def packed_ops_def packed_check_def ex_ring_def
      gpa_range_to_offset_def gpa_to_offset_def checked_sub_def gap_defs ex_d0_def ex_d1_def)

lemma ex_walk:
  "walk_descriptor_chain packed_ops ex_ring ex_cfg 0 =
     Some \<lparr>ch_readable = [(0x4000, 16)], ch_writable = [(0x5000, 1)], ch_len = 2\<rparr>"
proof -
  have "desc_path (good_desc packed_ops ex_ring ex_cfg) 0 [(0, ex_d0), (1, ex_d1)]"
    using ex_good by (auto intro!: desc_path.intros simp: ex_d0_def ex_d1_def F_NEXT_def)
  then have "walk_descriptor_chain packed_ops ex_ring ex_cfg 0 = Some (chain_of [(0, ex_d0), (1, ex_d1)])"
    unfolding walk_chain_iff
    by (intro exI [of _ "[(0, ex_d0), (1, ex_d1)]"])
      (simp add: chain_bytes_of_def MAX_CHAIN_BYTES_def ex_d0_def ex_d1_def)
  then show ?thesis by (simp add: chain_of_def desc_buffer_def ex_d0_def ex_d1_def F_WRITE_def)
qed

section \<open>Properties\<close>

text \<open>A whole pass keeps the dirty set complete.\<close>

context guest_ram
begin

lemma process_queue_dm_ok: "dm_ok G sz dm (pr_dm (process_queue_dirty G h q s dm))"
proof (cases "queue_is_usable G (dm_mem dm) (vq_config q)")
  case True
  obtain i where i: "read_avail_idx G (dm_mem dm) (vq_config q) = Some i"
    using read_avail_usable [OF True] by blast
  then show ?thesis
    using process_queue_advances(1) [OF True i refl, where sz = sz and h = h and s = s]
    by (simp add: advances_def)
qed (simp add: process_queue_dirty_def)

end

text \<open>
  C22: the walker accepts a chain exactly when the descriptors reachable from its head form
  a finite path of in-range, direct descriptors, each within \<open>MAX_DESC_LEN\<close> and mapped guest
  memory, of at most \<open>MAX_CHAIN_BYTES\<close> in total, and returns its readable and writable buffers
  in order; every such path is free of repetition and no longer than the queue, so bounding
  the length by the queue size rejects the cyclic chains and no other.
\<close>

theorem walk_accepts_paths:
  "(walk_descriptor_chain G m cfg head = Some c \<longleftrightarrow>
      (\<exists>ds. desc_path (good_desc G m cfg) head ds \<and> chain_bytes_of ds \<le> MAX_CHAIN_BYTES \<and>
         c = chain_of ds)) \<and>
   {ds. desc_path (good_desc G m cfg) head ds} \<subseteq>
     {ds. distinct (map fst ds) \<and> length ds \<le> unat (q_size cfg)}"
proof (intro conjI subsetI CollectI)
  show "walk_descriptor_chain G m cfg head = Some c \<longleftrightarrow>
      (\<exists>ds. desc_path (good_desc G m cfg) head ds \<and> chain_bytes_of ds \<le> MAX_CHAIN_BYTES \<and>
         c = chain_of ds)"
    by (rule walk_chain_iff)
qed (auto dest: is_chain_distinct is_chain_length)

text \<open>
  C23: on a usable queue, processing consumes every chain the driver had published, uses one
  used entry per chain served and at most one per chain published, and leaves in the used
  ring the index the processor holds.
\<close>

theorem process_queue_progress:
  assumes "guest_ram G" and "queue_is_usable G (dm_mem dm) (vq_config q)"
  shows "let p = process_queue_dirty G h q s dm in
    \<exists>i. read_avail_idx G (dm_mem dm) (vq_config q) = Some i \<and> vq_last_avail (pr_vq p) = i \<and>
    vq_last_used (pr_vq p) = vq_last_used q + of_nat (pr_done p) \<and>
    pr_done p \<le> unat (i - vq_last_avail q) \<and>
    read_u16 G (dm_mem (pr_dm p)) (q_used (vq_config q) + 2) = Some (vq_last_used (pr_vq p))"
proof -
  obtain i where i: "read_avail_idx G (dm_mem dm) (vq_config q) = Some i"
    using guest_ram.read_avail_usable [OF assms(1,2)] by blast
  show ?thesis using i guest_ram.process_queue_advances [OF assms(1,2) i refl, where h = h and s = s]
    by (simp add: advances_def Let_def)
qed

theorem process_queue_progress_witness:
  "vq_last_avail (pr_vq (process_queue_dirty packed_ops (\<lambda>s r w. (7, w, s)) (vq_new ex_cfg) () ex_dm)) = 1"
proof -
  have "queue_is_usable packed_ops (dm_mem ex_dm) (vq_config (vq_new ex_cfg))"
    by (simp add: ex_dm_def vq_new_def vq_new_with_indices_def ex_usable)
  from process_queue_progress [OF packed.guest_ram_axioms this, of "\<lambda>s r w. (7, w, s)" "()"]
  show ?thesis by (auto simp: ex_dm_def vq_new_def vq_new_with_indices_def ex_avail Let_def)
qed

text \<open>
  C10: whatever the rings and the handler hold, every byte of guest memory that processing a
  queue changes lies in a page of the dirty set it leaves, and no page already dirty is lost.
\<close>

theorem process_queue_tracked:
  assumes "guest_ram G" and "dm_dirty dm = Some D"
  shows "\<exists>D'. dm_dirty (pr_dm (process_queue_dirty G h q s dm)) = Some D' \<and>
    D \<union> changed_pages G sz (dm_mem dm) (dm_mem (pr_dm (process_queue_dirty G h q s dm))) \<subseteq> D'"
  using guest_ram.process_queue_dm_ok [OF assms(1), of sz dm h q s] assms(2) by (simp add: dm_ok_def)

theorem process_queue_tracked_witness:
  "\<exists>D'. dm_dirty (pr_dm (process_queue_dirty packed_ops (\<lambda>s r w. (7, w, s)) (vq_new ex_cfg) () ex_dm)) = Some D' \<and>
    changed_pages packed_ops 0x10000 ex_ring
      (dm_mem (pr_dm (process_queue_dirty packed_ops (\<lambda>s r w. (7, w, s)) (vq_new ex_cfg) () ex_dm))) \<subseteq> D'"
  using process_queue_tracked [OF packed.guest_ram_axioms, where dm = ex_dm and D = "{}" and sz = "0x10000"]
  by (simp add: ex_dm_def)

text \<open>
  C24: the descriptor-level loop returns when its handler writes through the tracked helpers
  and neither it nor the used ring touches the header of the available ring: every chain it
  reports is one used entry.
\<close>

theorem descriptors_return:
  assumes "guest_ram G" and "handler_ok G sz (vq_config q) h" and "rings_apart (vq_config q)"
  shows "\<exists>p. process_queue_descriptors_dirty G h q s dm = Some p \<and>
    vq_last_used (pr_vq p) = vq_last_used q + of_nat (pr_done p)"
proof (cases "queue_is_usable G (dm_mem dm) (vq_config q)")
  case True
  then show ?thesis
    using guest_ram.descriptors_outer_returns
      [OF assms(1), of "\<lparr>pr_vq = q, pr_state = s, pr_dm = dm, pr_done = 0\<rparr>" sz h] assms(2,3)
    by (auto simp: process_queue_descriptors_dirty_def)
qed (simp add: process_queue_descriptors_dirty_def)

theorem descriptors_return_witness:
  "\<exists>p. process_queue_descriptors_dirty packed_ops (\<lambda>s dm r w. (Some 0, (), dm))
      (set_event_idx True (vq_new ex_cfg)) () ex_dm = Some p \<and>
    vq_last_used (pr_vq p) = of_nat (pr_done p)"
proof -
  have "handler_ok packed_ops 0x10000 ex_cfg (\<lambda>s dm r w. (Some 0, (), dm))" "rings_apart ex_cfg"
    by (auto simp: handler_ok_def rings_apart_def ex_cfg_def)
  then show ?thesis
    using descriptors_return [OF packed.guest_ram_axioms, where sz = "0x10000" and
        q = "set_event_idx True (vq_new ex_cfg)" and h = "\<lambda>s dm r w. (Some 0, (), dm)" and
        s = "()" and dm = ex_dm]
    by (simp add: set_event_idx_def vq_new_def vq_new_with_indices_def)
qed

text \<open>
  C29: with event suppression on, the driver is interrupted exactly when the index it asked
  to be told about is one of those used since the last publication, also across the wrap of
  the 16-bit indices.
\<close>

theorem notification_window:
  assumes "vq_event_idx q" and "Option.bind (used_event_addr (vq_config q)) (read_u16 G m) = Some used_event"
  shows "needs_notification G m old_used q \<longleftrightarrow>
    (\<exists>k < unat (vq_last_used q - old_used). used_event = old_used + of_nat k)"
  using assms event_window [of "vq_last_used q" used_event old_used]
  by (simp add: needs_notification_def Let_def)

theorem notification_window_witness:
  "needs_notification packed_ops ex_ring 0xffff
     ((vq_new_with_indices ex_cfg 0 1)\<lparr>vq_event_idx := True\<rparr>)"
proof -
  let ?q = "(vq_new_with_indices ex_cfg 0 1)\<lparr>vq_event_idx := True\<rparr>"
  have e: "Option.bind (used_event_addr (vq_config ?q)) (read_u16 packed_ops ex_ring) = Some 0"
    by (simp add: vq_new_with_indices_def used_event_addr_def ex_cfg_def checked_mul_def checked_add_def
        read_u16_def ex_rd upt_rec_numeral ex_bytes_def)
  have "\<exists>k < unat (vq_last_used ?q - 0xffff). 0 = 0xffff + (of_nat k :: u16)"
    by (intro exI [of _ 1]) (simp add: vq_new_with_indices_def)
  then show ?thesis using notification_window [OF _ e, where old_used = "0xffff"] by simp
qed



text \<open>
  Host-agnostic validation accepts a chain, and returns its indices in order, exactly
  when the descriptors reachable from the head form a finite path of at most 32 with at least
  one writable descriptor; the accepted indices are distinct.
\<close>

theorem validate_chain_accepts:
  "(validate_chain head read_d = Ok vs \<longleftrightarrow>
      (\<exists>ds. desc_path (\<lambda>i d. read_d i = Some d) head ds \<and> vs = map fst ds \<and>
         length ds \<le> MAX_CHAIN_LEN \<and> has_writable_desc ds)) \<and>
   {vs. validate_chain head read_d = Ok vs} \<subseteq> {vs. distinct vs}"
proof -
  have iff: "validate_chain head read_d = Ok vs \<longleftrightarrow>
      (\<exists>ds. read_path read_d head ds \<and> vs = map fst ds \<and> length ds \<le> MAX_CHAIN_LEN \<and> has_writable_desc ds)"
    for vs
  proof
    assume "validate_chain head read_d = Ok vs"
    then show "\<exists>ds. read_path read_d head ds \<and> vs = map fst ds \<and> length ds \<le> MAX_CHAIN_LEN \<and> has_writable_desc ds"
      using validate_from_sound [of read_d head head "[]" False vs] by (auto simp: validate_chain_def)
  next
    assume "\<exists>ds. read_path read_d head ds \<and> vs = map fst ds \<and> length ds \<le> MAX_CHAIN_LEN \<and> has_writable_desc ds"
    then show "validate_chain head read_d = Ok vs"
      using validate_from_complete [of read_d head _ "[]" False head]
      by (auto simp: validate_chain_def dest: read_table.path_distinct)
  qed
  show ?thesis
    by (intro conjI iff subsetI CollectI) (auto simp: iff dest: read_table.path_distinct)
qed

end
