(* ===== verification/Blk.thy ===== *)
theory Blk
  imports Stdlib
begin

text \<open>
  The virtio-blk backend (\<open>vmm-devices/src/virtio/blk.rs\<close>, \<open>blk_backend.rs\<close>): request
  validation, the copy-on-write overlay with its on-disk header and bitmap, and the service
  of requests on a raw file or an overlay. A panic of the source is the value
  \<open>BlkPanic\<close>.
\<close>

section \<open>Requests\<close>

definition T_IN :: u32 where "T_IN = 0"
definition T_OUT :: u32 where "T_OUT = 1"
definition T_FLUSH :: u32 where "T_FLUSH = 4"
definition T_GET_ID :: u32 where "T_GET_ID = 8"
definition T_DISCARD :: u32 where "T_DISCARD = 11"
definition T_WRITE_ZEROES :: u32 where "T_WRITE_ZEROES = 13"

lemmas req_types = T_IN_def T_OUT_def T_FLUSH_def T_GET_ID_def T_DISCARD_def T_WRITE_ZEROES_def

record blk_header =
  bh_type :: u32
  bh_reserved :: u32
  bh_sector :: u64

definition blk_header_from_bytes :: "byte list \<Rightarrow> blk_header option" where
  "blk_header_from_bytes b =
     (if length b < 16 then None
      else Some \<lparr>bh_type = from_le (take 4 b), bh_reserved = from_le (take 4 (drop 4 b)),
                 bh_sector = from_le (take 8 (drop 8 b))\<rparr>)"

definition is_read :: "blk_header \<Rightarrow> bool" where
  "is_read h \<longleftrightarrow> bh_type h = T_IN"

definition is_write :: "blk_header \<Rightarrow> bool" where
  "is_write h \<longleftrightarrow> bh_type h = T_OUT \<or> bh_type h = T_WRITE_ZEROES"

definition S_OK :: byte where "S_OK = 0"
definition S_IO_ERR :: byte where "S_IO_ERR = 1"
definition S_UNSUPP :: byte where "S_UNSUPP = 2"

lemmas statuses = S_OK_def S_IO_ERR_def S_UNSUPP_def

datatype blk_parse_error =
  HeaderTooShort nat | UnknownReqType u32 | OutOfBounds u64 u64 u64 | ParseOverflow

definition show_parse_error :: "blk_parse_error \<Rightarrow> string" where
  "show_parse_error e =
     (case e of
        HeaderTooShort n \<Rightarrow> ''header too short ('' @ show_nat n @ '' < 16 bytes)''
      | UnknownReqType t \<Rightarrow> ''unknown request type '' @ show_nat t
      | OutOfBounds sector n sectors \<Rightarrow>
          ''sector '' @ show_nat sector @ '' + sectors_req '' @ show_nat n @
          '' overflows the backing ('' @ show_nat sectors @ '' sectors)''
      | ParseOverflow \<Rightarrow> ''sector * 512 + data_len overflows u64'')"

definition validate_req :: "blk_header \<Rightarrow> u64 \<Rightarrow> u64 \<Rightarrow> blk_parse_error + u64" where
  "validate_req h data_len sectors =
     (if bh_type h \<notin> {T_IN, T_OUT, T_FLUSH, T_GET_ID, T_DISCARD, T_WRITE_ZEROES}
      then Err (UnknownReqType (bh_type h))
      else if bh_type h = T_GET_ID then Ok 0
      else if bh_type h = T_FLUSH then Ok 0
      else
        let n_sectors = max (data_len div 512) 1 in
        if (case checked_add 64 (bh_sector h) n_sectors of None \<Rightarrow> True | Some fin \<Rightarrow> sectors < fin)
        then Err (OutOfBounds (bh_sector h) n_sectors sectors)
        else ok_or (checked_mul 64 (bh_sector h) 512) ParseOverflow)"

section \<open>Errors and arithmetic\<close>

definition SECTOR_SIZE :: nat where "SECTOR_SIZE = 512"
definition VIRTIO_BLK_T_BARRIER :: u32 where "VIRTIO_BLK_T_BARRIER = 2 ^ 31"

datatype blk_error = BlkIo io_error | BlkValidation string | BlkNotOpen | BlkPanic

definition io :: "io_error + 'a \<Rightarrow> blk_error + 'a" where
  "io r = (case r of Inl e \<Rightarrow> Err (BlkIo e) | Inr x \<Rightarrow> Ok x)"

definition bitmap_len :: "u64 \<Rightarrow> blk_error + u64" where
  "bitmap_len blocks =
     ok_or (map_option (\<lambda>n. n div 8) (checked_add 64 blocks 7)) (BlkValidation ''bitmap length overflows'')"

definition align_up :: "u64 \<Rightarrow> u64 \<Rightarrow> blk_error + u64" where
  "align_up v align =
     ok_or (map_option (\<lambda>x. x div align * align) (checked_add 64 v (align - 1)))
       (BlkValidation ''alignment overflows'')"

section \<open>Overlay header\<close>

definition COW_MAGIC :: "byte list" where "COW_MAGIC = [0x56, 0x4d, 0x4d, 0x43, 0x4f, 0x57, 0x31, 0]"
definition COW_VERSION :: u32 where "COW_VERSION = 1"
definition COW_HEADER_LEN :: usize where "COW_HEADER_LEN = 4096"

record cow_header =
  oh_base_len :: u64
  oh_blocks :: u64
  oh_bitmap_offset :: u64
  oh_bitmap_len :: u64
  oh_data_offset :: u64

definition cow_header_new :: "u64 \<Rightarrow> blk_error + cow_header" where
  "cow_header_new blocks =
     bindR (bitmap_len blocks) (\<lambda>bl.
     bindR (ok_or (checked_add 64 COW_HEADER_LEN bl) (BlkValidation ''overlay header overflows'')) (\<lambda>v.
     bindR (align_up v SECTOR_SIZE) (\<lambda>data_offset.
     bindR (ok_or (checked_mul 64 blocks SECTOR_SIZE) (BlkValidation ''overlay base length overflows''))
       (\<lambda>base_len.
     Ok \<lparr>oh_base_len = base_len, oh_blocks = blocks, oh_bitmap_offset = COW_HEADER_LEN,
         oh_bitmap_len = bl, oh_data_offset = data_offset\<rparr>))))"

definition cow_header_encode :: "cow_header \<Rightarrow> byte list" where
  "cow_header_encode h =
     COW_MAGIC @ to_le 4 COW_VERSION @ to_le 4 SECTOR_SIZE @ to_le 8 (oh_base_len h) @
     to_le 8 (oh_blocks h) @ to_le 8 (oh_bitmap_offset h) @ to_le 8 (oh_bitmap_len h) @
     to_le 8 (oh_data_offset h) @ replicate (COW_HEADER_LEN - 56) 0"

definition read_le :: "nat \<Rightarrow> byte list \<Rightarrow> nat \<Rightarrow> nat" where
  "read_le n buf offset = from_le (take n (drop offset buf))"

definition cow_header_decode :: "byte list \<Rightarrow> blk_error + cow_header" where
  "cow_header_decode buf =
     (if length buf < COW_HEADER_LEN then Err (BlkValidation ''overlay header is truncated'')
      else if take 8 buf \<noteq> COW_MAGIC then Err (BlkValidation ''overlay magic mismatch'')
      else if read_le 4 buf 8 \<noteq> COW_VERSION
      then Err (BlkValidation (''unsupported overlay version '' @ show_nat (read_le 4 buf 8)))
      else if read_le 4 buf 12 \<noteq> SECTOR_SIZE
      then Err (BlkValidation (''unsupported overlay block size '' @ show_nat (read_le 4 buf 12)))
      else Ok \<lparr>oh_base_len = read_le 8 buf 16, oh_blocks = read_le 8 buf 24,
               oh_bitmap_offset = read_le 8 buf 32, oh_bitmap_len = read_le 8 buf 40,
               oh_data_offset = read_le 8 buf 48\<rparr>)"

definition validate_overlay_header :: "cow_header \<Rightarrow> cow_header \<Rightarrow> blk_error + unit" where
  "validate_overlay_header actual expected =
     (if oh_base_len actual \<noteq> oh_base_len expected
      then Err (BlkValidation (''overlay base length '' @ show_nat (oh_base_len actual) @
                  '' does not match '' @ show_nat (oh_base_len expected)))
      else if oh_blocks actual \<noteq> oh_blocks expected \<or>
              oh_bitmap_offset actual \<noteq> oh_bitmap_offset expected \<or>
              oh_bitmap_len actual \<noteq> oh_bitmap_len expected \<or>
              oh_data_offset actual \<noteq> oh_data_offset expected
      then Err (BlkValidation ''overlay layout does not match base image'')
      else Ok ())"

definition validate_unused_bitmap_bits :: "byte list \<Rightarrow> u64 \<Rightarrow> blk_error + unit" where
  "validate_unused_bitmap_bits bitmap blocks =
     (let used_bits = blocks mod 8 in
      if used_bits = 0 \<or> bitmap = [] then Ok ()
      else if last bitmap AND NOT (2 ^ used_bits - 1) \<noteq> 0
      then Err (BlkValidation ''overlay bitmap has bits beyond base length'')
      else Ok ())"

section \<open>Copy-on-write overlay\<close>

record cow =
  cw_base :: hfile
  cw_overlay :: hfile
  cw_bitmap :: "byte list"
  cw_header :: cow_header

definition write_fresh_cow :: "cow_header \<Rightarrow> hfile \<Rightarrow> hfile" where
  "write_fresh_cow h overlay =
     set_len (write_all_at (write_all_at overlay 0 (cow_header_encode h)) (oh_bitmap_offset h)
                (replicate (oh_bitmap_len h) 0))
       (oh_data_offset h)"

definition init_volatile_cow_overlay :: "hfile \<Rightarrow> u64 \<Rightarrow> blk_error + hfile" where
  "init_volatile_cow_overlay overlay bytes =
     (if overlay \<noteq> [] then Err (BlkValidation ''volatile CoW overlay must start empty'')
      else if bytes = 0 \<or> bytes mod SECTOR_SIZE \<noteq> 0
      then Err (BlkValidation (''CoW base size '' @ show_nat bytes @ '' is not a positive multiple of 512''))
      else bindR (cow_header_new (bytes div SECTOR_SIZE)) (\<lambda>h. Ok (write_fresh_cow h overlay)))"

definition cow_open :: "hfile \<Rightarrow> hfile \<Rightarrow> u64 \<Rightarrow> blk_error + cow" where
  "cow_open base overlay blocks =
     bindR (cow_header_new blocks) (\<lambda>expected.
     bindR
       (if overlay = [] then Ok (expected, write_fresh_cow expected overlay)
        else if length overlay < COW_HEADER_LEN
        then Err (BlkValidation ''overlay file is too small for header'')
        else bindR (io (read_exact_at overlay 0 COW_HEADER_LEN)) (\<lambda>buf.
             bindR (cow_header_decode buf) (\<lambda>h. Ok (h, overlay))))
       (\<lambda>(h, overlay').
     bindR (validate_overlay_header h expected) (\<lambda>_.
     bindR (io (read_exact_at overlay' (oh_bitmap_offset h) (oh_bitmap_len h))) (\<lambda>bitmap.
     bindR (validate_unused_bitmap_bits bitmap (oh_blocks h)) (\<lambda>_.
     Ok \<lparr>cw_base = base, cw_overlay = overlay', cw_bitmap = bitmap, cw_header = h\<rparr>)))))"

definition overlay_offset :: "cow \<Rightarrow> u64 \<Rightarrow> blk_error + u64" where
  "overlay_offset c offset =
     ok_or (checked_add 64 (oh_data_offset (cw_header c)) offset) (BlkValidation ''overlay offset overflows'')"

definition overlay_block_offset :: "cow \<Rightarrow> u64 \<Rightarrow> blk_error + u64" where
  "overlay_block_offset c block =
     bindR (ok_or (checked_mul 64 block SECTOR_SIZE) (BlkValidation ''overlay block offset overflows'')) (\<lambda>o'.
     ok_or (checked_add 64 (oh_data_offset (cw_header c)) o') (BlkValidation ''overlay block offset overflows''))"

text \<open>Indexing the bitmap out of range panics.\<close>

definition is_dirty :: "cow \<Rightarrow> u64 \<Rightarrow> blk_error + bool" where
  "is_dirty c block =
     (let i = block div 8 in
      if length (cw_bitmap c) \<le> i then Err BlkPanic
      else Ok (cw_bitmap c ! i AND push_bit (block mod 8) 1 \<noteq> 0))"

text \<open>One sector's share of a request.\<close>

record block_segment =
  sg_block :: u64
  sg_len :: usize
  sg_off :: usize

function block_segments :: "u64 \<Rightarrow> usize \<Rightarrow> usize \<Rightarrow> block_segment list" where
  "block_segments next_offset remaining buffer_offset =
     (if remaining = 0 then []
      else
        let len = min (SECTOR_SIZE - next_offset mod SECTOR_SIZE) remaining
        in \<lparr>sg_block = next_offset div SECTOR_SIZE, sg_len = len, sg_off = buffer_offset\<rparr> #
           block_segments (next_offset + len) (remaining - len) (buffer_offset + len))"
  by pat_completeness auto

termination block_segments
  by (relation "measure (\<lambda>(_, r, _). r)") (auto simp: SECTOR_SIZE_def)

declare block_segments.simps [simp del]

text \<open>The end of a run of segments that come from the same file, and the segments after it.\<close>

fun extend_run :: "cow \<Rightarrow> bool \<Rightarrow> usize \<Rightarrow> block_segment list \<Rightarrow> blk_error + (usize \<times> block_segment list)" where
  "extend_run c dirty fin [] = Ok (fin, [])"
| "extend_run c dirty fin (s # segs) =
     bindR (is_dirty c (sg_block s)) (\<lambda>d.
     if d \<noteq> dirty then Ok (fin, s # segs) else extend_run c dirty (sg_off s + sg_len s) segs)"

lemma extend_run_shorter: "extend_run c dirty fin segs = Ok (fin', rest) \<Longrightarrow> length rest \<le> length segs"
  by (induction c dirty fin segs rule: extend_run.induct) (auto simp: bindR_Inr_iff split: if_splits)

text \<open>
  The loop of \<open>read_at\<close> and \<open>read_vectored_at\<close>: \<open>act\<close> transfers one run of bytes
  \<open>start..fin\<close> of the request, from the overlay or the base. The state it returns with an
  error holds the runs already transferred.
\<close>

function read_runs ::
  "(bool \<Rightarrow> usize \<Rightarrow> usize \<Rightarrow> 's \<Rightarrow> 's \<times> (blk_error + unit)) \<Rightarrow> cow \<Rightarrow> block_segment list \<Rightarrow> 's \<Rightarrow>
   's \<times> (blk_error + unit)" where
  "read_runs act c [] st = (st, Ok ())"
| "read_runs act c (s # segs) st =
     (case bindR (is_dirty c (sg_block s)) (\<lambda>d.
             bindR (extend_run c d (sg_off s + sg_len s) segs) (\<lambda>r. Ok (d, r))) of
        Inl e \<Rightarrow> (st, Err e)
      | Inr (d, fin, rest) \<Rightarrow>
          (case act d (sg_off s) fin st of
             (st', Inl e) \<Rightarrow> (st', Err e)
           | (st', Inr _) \<Rightarrow> read_runs act c rest st'))"
  by pat_completeness auto

termination read_runs
  by (relation "measure (\<lambda>(_, _, segs, _). length segs)")
    (auto simp: bindR_Inr_iff less_Suc_eq_le dest!: extend_run_shorter)

text \<open>Where a run lies: in the overlay past the header and bitmap, or in the base.\<close>

definition run_source :: "cow \<Rightarrow> u64 \<Rightarrow> bool \<Rightarrow> usize \<Rightarrow> blk_error + (hfile \<times> u64)" where
  "run_source c offset dirty start =
     bindR (ok_or (checked_add 64 offset start) (BlkValidation ''read offset overflows'')) (\<lambda>device_offset.
     if dirty then bindR (overlay_offset c device_offset) (\<lambda>source. Ok (cw_overlay c, source))
     else Ok (cw_base c, device_offset))"

definition splice :: "'a list \<Rightarrow> nat \<Rightarrow> 'a list \<Rightarrow> 'a list" where
  "splice xs i ys = take i xs @ ys @ drop (i + length ys) xs"

definition read_run :: "cow \<Rightarrow> u64 \<Rightarrow> bool \<Rightarrow> usize \<Rightarrow> usize \<Rightarrow> byte list \<Rightarrow> byte list \<times> (blk_error + unit)" where
  "read_run c offset dirty start fin data =
     (case bindR (run_source c offset dirty start) (\<lambda>(f, source). io (read_exact_at f source (fin - start))) of
        Inl e \<Rightarrow> (data, Err e)
      | Inr bytes \<Rightarrow> (splice data start bytes, Ok ()))"

definition cow_read_at :: "cow \<Rightarrow> u64 \<Rightarrow> byte list \<Rightarrow> byte list \<times> (blk_error + unit)" where
  "cow_read_at c offset data = read_runs (read_run c offset) c (block_segments offset (length data) 0) data"

section \<open>Vectored reads\<close>

record iovec =
  iv_base :: nat
  iv_len :: usize

type_synonym host_mem = "nat \<Rightarrow> byte"

definition iov_total :: "iovec list \<Rightarrow> usize" where
  "iov_total iov = sum_list (map iv_len iov)"

text \<open>The part of a list of buffers that covers bytes \<open>start..fin\<close>; \<open>at\<close> bytes lie before it.\<close>

fun iov_range_from :: "usize \<Rightarrow> iovec list \<Rightarrow> usize \<Rightarrow> usize \<Rightarrow> iovec list" where
  "iov_range_from at [] start fin = []"
| "iov_range_from at (v # iov) start fin =
     (let lo = at; hi = at + iv_len v in
      if hi \<le> start \<or> fin \<le> lo then iov_range_from hi iov start fin
      else \<lparr>iv_base = iv_base v + (max start lo - lo), iv_len = (min fin hi - lo) - (max start lo - lo)\<rparr> #
           iov_range_from hi iov start fin)"

definition iov_range :: "iovec list \<Rightarrow> usize \<Rightarrow> usize \<Rightarrow> iovec list" where
  "iov_range iov start fin = iov_range_from 0 iov start fin"

text \<open>The addresses the buffers list, and a transfer of bytes to them in order.\<close>

definition iov_addrs :: "iovec list \<Rightarrow> nat list" where
  "iov_addrs iov = concat (map (\<lambda>v. [iv_base v..<iv_base v + iv_len v]) iov)"

definition scatter :: "host_mem \<Rightarrow> nat list \<Rightarrow> byte list \<Rightarrow> host_mem" where
  "scatter mem addrs bytes = fold (\<lambda>(a, b) m. m(a := b)) (zip addrs bytes) mem"

text \<open>Skip \<open>n\<close> bytes of the list.\<close>

fun iov_advance :: "nat \<Rightarrow> iovec list \<Rightarrow> iovec list" where
  "iov_advance n [] = []"
| "iov_advance n (v # iov) =
     (if n = 0 then v # iov
      else if iv_len v \<le> n then iov_advance (n - iv_len v) iov
      else v\<lparr>iv_base := iv_base v + n, iv_len := iv_len v - n\<rparr> # iov)"

definition UIO_MAXIOV :: nat where "UIO_MAXIOV = 1024"

text \<open>
  \<open>preadv\<close> returns how many bytes it read: at least one unless it is at the end of the
  file, at most what was asked; \<open>pick\<close> is the kernel's choice.
\<close>

definition preadv_count :: "(nat \<Rightarrow> nat) \<Rightarrow> hfile \<Rightarrow> u64 \<Rightarrow> nat \<Rightarrow> nat" where
  "preadv_count pick f offset asked = min (max 1 (pick offset)) (min asked (length f - offset))"

lemma iov_advance_total: "iov_total (iov_advance n iov) = iov_total iov - n"
  by (induction n iov rule: iov_advance.induct) (auto simp: iov_total_def)

lemma preadv_count_le: "preadv_count pick f offset (iov_total (take k iov)) \<le> iov_total iov"
proof -
  have "iov_total iov = iov_total (take k iov) + iov_total (drop k iov)"
    by (simp add: iov_total_def flip: sum_list_append map_append)
  then show ?thesis by (simp add: preadv_count_def)
qed

function preadv_loop ::
  "(nat \<Rightarrow> nat) \<Rightarrow> hfile \<Rightarrow> iovec list \<Rightarrow> u64 \<Rightarrow> host_mem \<Rightarrow> host_mem \<times> (io_error + unit)" where
  "preadv_loop pick f iov offset mem =
     (if iov = [] then (mem, Ok ())
      else if 2 ^ 63 \<le> offset then (mem, Err InvalidInput)
      else
        let n = preadv_count pick f offset (iov_total (take UIO_MAXIOV iov)) in
        if n = 0 then (mem, Err UnexpectedEof)
        else preadv_loop pick f (iov_advance n iov) (offset + n)
               (scatter mem (iov_addrs iov) (take n (drop offset f))))"
  by pat_completeness auto

termination preadv_loop
proof (relation "measure (\<lambda>(_, _, iov, _, _). iov_total iov)", simp)
  fix pick f iov offset and mem :: host_mem and n
  assume "n = preadv_count pick f offset (iov_total (take UIO_MAXIOV iov))" "n \<noteq> 0"
  then show "((pick, f, iov_advance n iov, offset + n, scatter mem (iov_addrs iov) (take n (drop offset f))),
      pick, f, iov, offset, mem) \<in> measure (\<lambda>(_, _, iov, _, _). iov_total iov)"
    using preadv_count_le [of pick f offset UIO_MAXIOV iov] by (simp add: iov_advance_total)
qed

declare preadv_loop.simps [simp del]

definition preadv_exact ::
  "(nat \<Rightarrow> nat) \<Rightarrow> hfile \<Rightarrow> iovec list \<Rightarrow> u64 \<Rightarrow> host_mem \<Rightarrow> host_mem \<times> (io_error + unit)" where
  "preadv_exact pick f iov offset mem = preadv_loop pick f (filter (\<lambda>v. 0 < iv_len v) iov) offset mem"

definition readv_run ::
  "(nat \<Rightarrow> nat) \<Rightarrow> cow \<Rightarrow> u64 \<Rightarrow> iovec list \<Rightarrow> bool \<Rightarrow> usize \<Rightarrow> usize \<Rightarrow> host_mem \<Rightarrow>
   host_mem \<times> (blk_error + unit)" where
  "readv_run pick c offset iov dirty start fin mem =
     (case run_source c offset dirty start of
        Inl e \<Rightarrow> (mem, Err e)
      | Inr (f, source) \<Rightarrow> apsnd io (preadv_exact pick f (iov_range iov start fin) source mem))"

definition cow_read_vectored_at ::
  "(nat \<Rightarrow> nat) \<Rightarrow> cow \<Rightarrow> u64 \<Rightarrow> iovec list \<Rightarrow> host_mem \<Rightarrow> host_mem \<times> (blk_error + unit)" where
  "cow_read_vectored_at pick c offset iov mem =
     read_runs (readv_run pick c offset iov) c (block_segments offset (iov_total iov) 0) mem"

section \<open>Writes\<close>

text \<open>Run the next step unless this one failed; the state survives an error.\<close>

definition seqR :: "'s \<times> ('e + unit) \<Rightarrow> ('s \<Rightarrow> 's \<times> ('e + unit)) \<Rightarrow> 's \<times> ('e + unit)" where
  "seqR r k = (case r of (s, Inl e) \<Rightarrow> (s, Err e) | (s, Inr _) \<Rightarrow> k s)"

definition copy_base_block_to_overlay :: "u64 \<Rightarrow> cow \<Rightarrow> cow \<times> (blk_error + unit)" where
  "copy_base_block_to_overlay block c =
     (case bindR (ok_or (checked_mul 64 block SECTOR_SIZE) (BlkValidation ''base block offset overflows''))
             (\<lambda>base_offset. bindR (overlay_block_offset c block) (\<lambda>dest.
              bindR (io (read_exact_at (cw_base c) base_offset SECTOR_SIZE)) (\<lambda>buf. Ok (dest, buf)))) of
        Inl e \<Rightarrow> (c, Err e)
      | Inr (dest, buf) \<Rightarrow> (c\<lparr>cw_overlay := write_all_at (cw_overlay c) dest buf\<rparr>, Ok ()))"

definition copy_edge :: "u64 \<Rightarrow> u64 \<Rightarrow> u64 \<Rightarrow> cow \<Rightarrow> cow \<times> (blk_error + unit)" where
  "copy_edge offset fin block c =
     (let block_start = block * SECTOR_SIZE;
          covered = min fin (block_start + SECTOR_SIZE) - max offset block_start
      in if covered < SECTOR_SIZE
         then (case is_dirty c block of
                 Inl e \<Rightarrow> (c, Err e)
               | Inr d \<Rightarrow> if d then (c, Ok ()) else copy_base_block_to_overlay block c)
         else (c, Ok ()))"

text \<open>The bits set, and the first and last bitmap bytes changed.\<close>

fun mark_blocks ::
  "byte list \<Rightarrow> (usize \<times> usize) option \<Rightarrow> u64 list \<Rightarrow> blk_error + (byte list \<times> (usize \<times> usize) option)" where
  "mark_blocks bitmap changed [] = Ok (bitmap, changed)"
| "mark_blocks bitmap changed (block # blocks) =
     (let i = block div 8; b = push_bit (block mod 8) 1 in
      if length bitmap \<le> i then Err BlkPanic
      else if bitmap ! i AND b = 0
      then mark_blocks (bitmap[i := bitmap ! i OR b])
             (Some (case changed of None \<Rightarrow> (i, i) | Some (lo, _) \<Rightarrow> (lo, i))) blocks
      else mark_blocks bitmap changed blocks)"

definition mark_dirty_range :: "u64 \<Rightarrow> u64 \<Rightarrow> cow \<Rightarrow> cow \<times> (blk_error + unit)" where
  "mark_dirty_range fst_block last_block c =
     (case mark_blocks (cw_bitmap c) None [fst_block..<last_block + 1] of
        Inl e \<Rightarrow> (c, Err e)
      | Inr (bitmap, None) \<Rightarrow> (c\<lparr>cw_bitmap := bitmap\<rparr>, Ok ())
      | Inr (bitmap, Some (lo, hi)) \<Rightarrow>
          let c' = c\<lparr>cw_bitmap := bitmap\<rparr> in
          (case checked_add 64 (oh_bitmap_offset (cw_header c)) lo of
             None \<Rightarrow> (c', Err (BlkValidation ''bitmap offset overflows''))
           | Some off \<Rightarrow>
               (c'\<lparr>cw_overlay := write_all_at (cw_overlay c) off (take (hi + 1 - lo) (drop lo bitmap))\<rparr>, Ok ())))"

definition cow_flush :: "cow \<Rightarrow> cow \<times> (blk_error + unit)" where
  "cow_flush c = (c, Ok ())"

definition cow_write_at :: "u64 \<Rightarrow> byte list \<Rightarrow> bool \<Rightarrow> cow \<Rightarrow> cow \<times> (blk_error + unit)" where
  "cow_write_at offset data force_unit_access c =
     (if data = [] then (c, Ok ())
      else
        case checked_add 64 offset (length data) of
          None \<Rightarrow> (c, Err (BlkValidation ''overlay write overflows''))
        | Some fin \<Rightarrow>
            let fst_block = offset div SECTOR_SIZE; last_block = (fin - 1) div SECTOR_SIZE in
            seqR (copy_edge offset fin fst_block c) (\<lambda>c.
            seqR (if fst_block = last_block then (c, Ok ()) else copy_edge offset fin last_block c) (\<lambda>c.
            case overlay_offset c offset of
              Inl e \<Rightarrow> (c, Err e)
            | Inr dest \<Rightarrow>
                seqR (mark_dirty_range fst_block last_block
                        (c\<lparr>cw_overlay := write_all_at (cw_overlay c) dest data\<rparr>)) (\<lambda>c.
                if force_unit_access then cow_flush c else (c, Ok ())))))"

section \<open>Backend\<close>

datatype storage = Raw hfile | Cow cow

record backend =
  be_storage :: storage
  be_read_only :: bool
  be_sectors :: u64

datatype access_mode = O_RDONLY | O_WRONLY | O_RDWR

definition validate_file_access :: "access_mode \<Rightarrow> bool \<Rightarrow> blk_error + unit" where
  "validate_file_access access read_only =
     (if access = O_WRONLY \<or> (\<not> read_only \<and> access \<noteq> O_RDWR)
      then Err (BlkValidation ''backing descriptor has incompatible access mode'') else Ok ())"

definition from_file :: "hfile \<Rightarrow> access_mode \<Rightarrow> bool \<Rightarrow> blk_error + backend" where
  "from_file f access read_only =
     bindR (validate_file_access access read_only) (\<lambda>_.
     let bytes = length f in
     if bytes = 0 \<or> bytes mod SECTOR_SIZE \<noteq> 0
     then Err (BlkValidation (''backing size '' @ show_nat bytes @ '' is not a positive multiple of 512''))
     else Ok \<lparr>be_storage = Raw f, be_read_only = read_only, be_sectors = bytes div SECTOR_SIZE\<rparr>)"

definition open_cow :: "hfile \<Rightarrow> hfile \<Rightarrow> blk_error + backend" where
  "open_cow base overlay =
     (let bytes = length base in
      if bytes = 0 \<or> bytes mod SECTOR_SIZE \<noteq> 0
      then Err (BlkValidation (''CoW base size '' @ show_nat bytes @ '' is not a positive multiple of 512''))
      else
        bindR (cow_open base overlay (bytes div SECTOR_SIZE)) (\<lambda>c.
        Ok \<lparr>be_storage = Cow c, be_read_only = False, be_sectors = bytes div SECTOR_SIZE\<rparr>))"

definition storage_read_at :: "u64 \<Rightarrow> byte list \<Rightarrow> storage \<Rightarrow> byte list \<times> (blk_error + unit)" where
  "storage_read_at offset data st =
     (case st of
        Raw f \<Rightarrow> (case io (read_exact_at f offset (length data)) of
                    Inl e \<Rightarrow> (data, Err e) | Inr bytes \<Rightarrow> (bytes, Ok ()))
      | Cow c \<Rightarrow> cow_read_at c offset data)"

definition storage_write_at :: "u64 \<Rightarrow> byte list \<Rightarrow> bool \<Rightarrow> storage \<Rightarrow> storage \<times> (blk_error + unit)" where
  "storage_write_at offset data fua st =
     (case st of
        Raw f \<Rightarrow> (Raw (write_all_at f offset data), Ok ())
      | Cow c \<Rightarrow> apfst Cow (cow_write_at offset data fua c))"

definition storage_flush :: "storage \<Rightarrow> storage \<times> (blk_error + unit)" where
  "storage_flush st = (case st of Raw f \<Rightarrow> (Raw f, Ok ()) | Cow c \<Rightarrow> apfst Cow (cow_flush c))"

definition validate_service_req :: "backend \<Rightarrow> blk_header \<Rightarrow> usize \<Rightarrow> blk_error + (u32 \<times> u64 \<times> bool)" where
  "validate_service_req be h data_len =
     (let barrier = VIRTIO_BLK_T_BARRIER \<le> bh_type h;
          op = (if barrier then bh_type h - VIRTIO_BLK_T_BARRIER else bh_type h)
      in case validate_req (h\<lparr>bh_type := op\<rparr>) data_len (be_sectors be) of
           Inl e \<Rightarrow> Err (BlkValidation (show_parse_error e))
         | Inr offset \<Rightarrow>
             if op \<in> {T_IN, T_OUT}
             then
               bindR (ok_or (checked_mul 64 (be_sectors be) SECTOR_SIZE) (BlkValidation ''device length overflows''))
                 (\<lambda>device_len.
               bindR (ok_or (checked_add 64 offset data_len) (BlkValidation ''request end overflows'')) (\<lambda>fin.
               if device_len < fin
               then Err (BlkValidation (''request end '' @ show_nat fin @ '' exceeds device length '' @
                           show_nat device_len))
               else Ok (op, offset, barrier)))
             else Ok (op, offset, barrier))"

definition blk_serial :: "byte list" where
  "blk_serial = [0x76, 0x6d, 0x6d, 0x2d, 0x62, 0x6c, 0x6b] @ replicate 14 0"

datatype served = Panicked | Served byte "byte list" backend

definition status_of :: "blk_error + unit \<Rightarrow> byte list \<Rightarrow> backend \<Rightarrow> served" where
  "status_of r data be =
     (case r of
        Inl BlkPanic \<Rightarrow> Panicked
      | Inl _ \<Rightarrow> Served S_IO_ERR data be
      | Inr _ \<Rightarrow> Served S_OK data be)"

definition service :: "blk_header \<Rightarrow> byte list \<Rightarrow> backend \<Rightarrow> served" where
  "service h data be =
     (case validate_service_req be h (length data) of
        Inl e \<Rightarrow> Served S_IO_ERR data be
      | Inr (op, offset, fua) \<Rightarrow>
          if op = T_IN
          then (case storage_read_at offset data (be_storage be) of (data', r) \<Rightarrow> status_of r data' be)
          else if op = T_OUT
          then (if be_read_only be then Served S_IO_ERR data be
                else case storage_write_at offset data fua (be_storage be) of
                  (st, r) \<Rightarrow> status_of r data (be\<lparr>be_storage := st\<rparr>))
          else if op = T_FLUSH
          then (case storage_flush (be_storage be) of (st, r) \<Rightarrow> status_of r data (be\<lparr>be_storage := st\<rparr>))
          else if op = T_GET_ID
          then Served S_OK (splice data 0 (take (min (length data) 20) blk_serial)) be
          else Served S_UNSUPP data be)"

datatype served_into = PanickedInto | ServedInto byte host_mem

definition service_read_into :: "(nat \<Rightarrow> nat) \<Rightarrow> blk_header \<Rightarrow> iovec list \<Rightarrow> host_mem \<Rightarrow> backend \<Rightarrow> served_into" where
  "service_read_into pick h iov mem be =
     (if (if VIRTIO_BLK_T_BARRIER \<le> bh_type h then bh_type h - VIRTIO_BLK_T_BARRIER else bh_type h) \<noteq> T_IN
      then ServedInto S_IO_ERR mem
      else
        case validate_service_req be h (iov_total iov) of
          Inl e \<Rightarrow> ServedInto S_IO_ERR mem
        | Inr (_, offset, _) \<Rightarrow>
            (case (case be_storage be of
                     Raw f \<Rightarrow> apsnd io (preadv_exact pick f iov offset mem)
                   | Cow c \<Rightarrow> cow_read_vectored_at pick c offset iov mem) of
               (mem', Inl BlkPanic) \<Rightarrow> PanickedInto
             | (mem', Inl _) \<Rightarrow> ServedInto S_IO_ERR mem'
             | (mem', Inr _) \<Rightarrow> ServedInto S_OK mem'))"

end
