(* ===== verification/BlkProofs.thy ===== *)
theory BlkProofs
  imports Blk
begin

text \<open>
  The copy-on-write overlay, proved: its header survives a write and a reopen, its bitmap on
  disk always equals the one in memory, and its reads and writes implement a flat array of
  bytes. Raw files and overlays meet the contract \<open>block_store\<close>, on which the service of
  requests rests.
\<close>

section \<open>Header codec\<close>

lemma length_encode [simp]: "length (cow_header_encode h) = COW_HEADER_LEN"
  by (simp add: cow_header_encode_def COW_MAGIC_def COW_HEADER_LEN_def)

lemma take_drop_field:
  "length xs = n \<Longrightarrow> length ys = k \<Longrightarrow> take k (drop n (xs @ ys @ zs)) = ys"
  by simp

definition header_fits :: "cow_header \<Rightarrow> bool" where
  "header_fits h \<longleftrightarrow> oh_base_len h < 2 ^ 64 \<and> oh_blocks h < 2 ^ 64 \<and> oh_bitmap_offset h < 2 ^ 64 \<and>
     oh_bitmap_len h < 2 ^ 64 \<and> oh_data_offset h < 2 ^ 64"

lemma decode_encode:
  assumes "header_fits h"
  shows "cow_header_decode (cow_header_encode h) = Ok h"
proof -
  define rest where "rest = replicate (COW_HEADER_LEN - 56) (0 :: byte)"
  have e: "cow_header_encode h = COW_MAGIC @ to_le 4 COW_VERSION @ to_le 4 SECTOR_SIZE @
     to_le 8 (oh_base_len h) @ to_le 8 (oh_blocks h) @ to_le 8 (oh_bitmap_offset h) @
     to_le 8 (oh_bitmap_len h) @ to_le 8 (oh_data_offset h) @ rest"
    by (simp add: cow_header_encode_def rest_def)
  have [simp]: "length COW_MAGIC = 8" by (simp add: COW_MAGIC_def)
  have "length (cow_header_encode h) \<ge> COW_HEADER_LEN" by simp
  then show ?thesis
    using assms unfolding cow_header_decode_def e read_le_def
    by (simp add: from_le_to_le header_fits_def COW_VERSION_def SECTOR_SIZE_def not_less)
qed

lemma header_new_iff:
  "cow_header_new n = Ok h \<longleftrightarrow>
     oh_blocks h = n \<and> oh_base_len h = n * 512 \<and> oh_bitmap_offset h = 4096 \<and>
     oh_bitmap_len h = (n + 7) div 8 \<and> oh_data_offset h = (4096 + (n + 7) div 8 + 511) div 512 * 512 \<and>
     n * 512 < 2 ^ 64 \<and> n + 7 < 2 ^ 64"
proof -
  have "4096 + (n + 7) div 8 + 511 < 2 ^ 64" if "n + 7 < 2 ^ 64" using that by auto
  moreover have "4096 + (n + 7) div 8 < 2 ^ 64" if "n + 7 < 2 ^ 64" using that by auto
  ultimately show ?thesis
    by (cases h; cases "n + 7 < 2 ^ 64"; cases "n * 512 < 2 ^ 64")
      (auto simp: cow_header_new_def bitmap_len_def align_up_def COW_HEADER_LEN_def SECTOR_SIZE_def
        checked_add_def checked_mul_def)
qed

lemma header_new_ok:
  assumes "n * 512 < 2 ^ 62"
  obtains h where "cow_header_new n = Ok h"
    and "oh_data_offset h + n * 512 < 2 ^ 63" and "header_fits h"
proof -
  define bl where "bl = (n + 7) div 8"
  define off where "off = (4096 + bl + 511) div 512 * 512"
  define h where "h = \<lparr>oh_base_len = n * 512, oh_blocks = n, oh_bitmap_offset = 4096,
    oh_bitmap_len = bl, oh_data_offset = off\<rparr>"
  have "off \<le> 4096 + bl + 511" unfolding off_def by (rule div_times_less_eq_dividend)
  moreover have "bl \<le> n + 7" unfolding bl_def by (rule div_le_dividend)
  ultimately have "oh_data_offset h + n * 512 < 2 ^ 63" "header_fits h"
    using assms by (simp_all add: h_def header_fits_def)
  moreover have "cow_header_new n = Ok h"
    unfolding header_new_iff using assms by (simp add: h_def off_def bl_def)
  ultimately show thesis by (rule that [rotated])
qed

lemma header_data_offset:
  assumes "cow_header_new n = Ok h"
  shows "4096 + (n + 7) div 8 \<le> oh_data_offset h"
proof -
  define v where "v = 4096 + (n + 7) div 8"
  have "v \<le> (v + 511) div 512 * 512" by linarith
  then show ?thesis using assms by (simp add: header_new_iff v_def)
qed

section \<open>Bitmap\<close>

text \<open>Whether a sector is in the overlay.\<close>

definition dirty_bit :: "byte list \<Rightarrow> nat \<Rightarrow> bool" where
  "dirty_bit bm b \<longleftrightarrow> bit (bm ! (b div 8)) (b mod 8)"

lemma and_push_bit: "x AND push_bit k 1 \<noteq> 0 \<longleftrightarrow> bit (x :: byte) k \<and> k < 8"
  using bit_imp_le_length [of x k] and_exp_eq_0_iff_not_bit [of x k] by auto

lemma is_dirty_eq:
  "b div 8 < length (cw_bitmap c) \<Longrightarrow> is_dirty c b = Ok (dirty_bit (cw_bitmap c) b)"
  using and_push_bit [of "cw_bitmap c ! (b div 8)" "b mod 8"]
  by (simp add: is_dirty_def dirty_bit_def Let_def)

lemma dirty_bit_set:
  assumes "b div 8 < length bm"
  shows "dirty_bit (bm[b div 8 := bm ! (b div 8) OR push_bit (b mod 8) 1]) x \<longleftrightarrow> dirty_bit bm x \<or> x = b"
proof (cases "x div 8 = b div 8")
  case True
  then have "x mod 8 = b mod 8 \<longleftrightarrow> x = b" by (metis div_mod_decomp)
  moreover have "x mod 8 < LENGTH(8)" by simp
  ultimately show ?thesis
    using True assms by (auto simp: dirty_bit_def bit_or_iff bit_push_bit_iff bit_exp_iff)
next
  case False
  then show ?thesis using assms by (auto simp: dirty_bit_def nth_list_update)
qed

text \<open>The range of bitmap bytes a marking reports covers all it changed.\<close>

definition covered_range :: "byte list \<Rightarrow> byte list \<Rightarrow> (nat \<times> nat) option \<Rightarrow> bool" where
  "covered_range bm bm' ch \<longleftrightarrow> length bm' = length bm \<and>
     (case ch of
        None \<Rightarrow> bm' = bm
      | Some (lo, hi) \<Rightarrow> lo \<le> hi \<and> hi < length bm \<and> (\<forall>i. i < lo \<or> hi < i \<longrightarrow> bm' ! i = bm ! i))"

lemma mark_blocks_ok:
  assumes "sorted bs" and "\<forall>b \<in> set bs. b div 8 < length bm"
    and "covered_range bm0 bm ch"
    and "\<forall>lo hi. ch = Some (lo, hi) \<longrightarrow> (\<forall>b \<in> set bs. hi \<le> b div 8)"
  shows "\<exists>bm' ch'. mark_blocks bm ch bs = Ok (bm', ch') \<and> covered_range bm0 bm' ch' \<and>
    (\<forall>x. dirty_bit bm' x \<longleftrightarrow> dirty_bit bm x \<or> x \<in> set bs)"
  using assms
proof (induction bs arbitrary: bm ch)
  case Nil
  then show ?case by simp
next
  case (Cons b bs)
  let ?i = "b div 8"
  have i: "?i < length bm" using Cons.prems(2) by simp
  show ?case
  proof (cases "dirty_bit bm b")
    case True
    then have "mark_blocks bm ch (b # bs) = mark_blocks bm ch bs"
      using i and_push_bit [of "bm ! ?i" "b mod 8"] by (simp add: dirty_bit_def Let_def)
    moreover obtain bm' ch' where "mark_blocks bm ch bs = Ok (bm', ch')" "covered_range bm0 bm' ch'"
      "\<forall>x. dirty_bit bm' x \<longleftrightarrow> dirty_bit bm x \<or> x \<in> set bs"
      using Cons.IH [of bm ch] Cons.prems by fastforce
    ultimately show ?thesis using True by auto
  next
    case False
    define bm1 where "bm1 = bm[?i := bm ! ?i OR push_bit (b mod 8) 1]"
    define ch1 where "ch1 = Some (case ch of None \<Rightarrow> (?i, ?i) | Some (lo, _) \<Rightarrow> (lo, ?i))"
    have step: "mark_blocks bm ch (b # bs) = mark_blocks bm1 ch1 bs"
      using False i and_push_bit [of "bm ! ?i" "b mod 8"]
      by (simp add: dirty_bit_def Let_def bm1_def ch1_def)
    have d1: "dirty_bit bm1 x \<longleftrightarrow> dirty_bit bm x \<or> x = b" for x
      unfolding bm1_def by (rule dirty_bit_set [OF i])
    have cov: "covered_range bm0 bm1 ch1"
      using Cons.prems(3,4) i
      by (cases ch) (auto simp: covered_range_def bm1_def ch1_def nth_list_update)
    have "\<forall>x \<in> set bs. ?i \<le> x div 8" using Cons.prems(1) by (auto intro: div_le_mono)
    then have "\<forall>lo hi. ch1 = Some (lo, hi) \<longrightarrow> (\<forall>x \<in> set bs. hi \<le> x div 8)"
      by (cases ch) (auto simp: ch1_def)
    then obtain bm' ch' where "mark_blocks bm1 ch1 bs = Ok (bm', ch')" "covered_range bm0 bm' ch'"
      "\<forall>x. dirty_bit bm' x \<longleftrightarrow> dirty_bit bm1 x \<or> x \<in> set bs"
      using Cons.IH [of bm1 ch1] Cons.prems(1,2) cov by (fastforce simp: bm1_def)
    then show ?thesis using step d1 by auto
  qed
qed

section \<open>Runs of sectors\<close>

text \<open>Segments that cover the request bytes \<open>at..tot\<close>, each within one sector.\<close>

fun seg_cover :: "nat \<Rightarrow> nat \<Rightarrow> block_segment list \<Rightarrow> nat \<Rightarrow> bool" where
  "seg_cover offset at [] tot \<longleftrightarrow> at = tot"
| "seg_cover offset at (s # segs) tot \<longleftrightarrow>
     sg_off s = at \<and> 0 < sg_len s \<and> (\<forall>i < sg_len s. (offset + at + i) div 512 = sg_block s) \<and>
     seg_cover offset (at + sg_len s) segs tot"

lemma seg_cover_le: "seg_cover offset at segs tot \<Longrightarrow> at \<le> tot"
  by (induction offset at segs tot rule: seg_cover.induct) auto

lemma same_sector:
  fixes a :: nat
  assumes "i < 512 - a mod 512"
  shows "(a + i) div 512 = a div 512"
proof -
  have "a mod 512 + i < 512" using assms by linarith
  then have "(a mod 512 + i) div 512 = 0" by simp
  moreover have "(a + i) div 512 = a div 512 + (a mod 512 + i) div 512"
    by (metis div_mult_mod_eq div_mult_self3 add.assoc zero_neq_numeral mult.commute)
  ultimately show ?thesis by simp
qed

lemma block_segments_cover:
  "seg_cover offset at (block_segments (offset + at) n at) (at + n)"
proof (induction n arbitrary: at rule: less_induct)
  case (less n)
  show ?case
  proof (cases "n = 0")
    case False
    define len where "len = min (512 - (offset + at) mod 512) n"
    have len: "0 < len" "len \<le> n" "len \<le> 512 - (offset + at) mod 512"
      using False by (auto simp: len_def)
    have eq: "block_segments (offset + at) n at =
        \<lparr>sg_block = (offset + at) div 512, sg_len = len, sg_off = at\<rparr> #
        block_segments (offset + (at + len)) (n - len) (at + len)"
      using False
      by (subst block_segments.simps) (simp add: Let_def SECTOR_SIZE_def len_def [symmetric] add.assoc)
    have "seg_cover offset (at + len) (block_segments (offset + (at + len)) (n - len) (at + len))
        (at + len + (n - len))"
      by (rule less.IH) (use len in simp)
    moreover have "(offset + at + i) div 512 = (offset + at) div 512" if "i < len" for i
      by (rule same_sector) (use that len in linarith)
    ultimately show ?thesis unfolding eq using len by simp
  qed (simp add: block_segments.simps)
qed

lemma extend_run_cover:
  assumes "seg_cover offset fin segs tot"
    and "\<forall>j < tot. (offset + j) div 512 div 8 < length (cw_bitmap c)"
  shows "\<exists>fin' rest. extend_run c d fin segs = Ok (fin', rest) \<and> fin \<le> fin' \<and>
    seg_cover offset fin' rest tot \<and>
    (\<forall>j. fin \<le> j \<longrightarrow> j < fin' \<longrightarrow> dirty_bit (cw_bitmap c) ((offset + j) div 512) = d)"
  using assms
proof (induction c d fin segs rule: extend_run.induct)
  case (1 c dirty fin)
  then show ?case by simp
next
  case (2 c dirty fin s segs)
  have s: "sg_off s = fin" "0 < sg_len s" "\<forall>i < sg_len s. (offset + fin + i) div 512 = sg_block s"
    and rest: "seg_cover offset (fin + sg_len s) segs tot" using "2.prems"(1) by auto
  have b: "(offset + fin) div 512 = sg_block s" using s(2,3) by (metis add.right_neutral)
  have "fin < tot" using seg_cover_le [OF rest] s(2) by simp
  then have i: "sg_block s div 8 < length (cw_bitmap c)" using "2.prems"(2) b by metis
  let ?d = "dirty_bit (cw_bitmap c) (sg_block s)"
  show ?case
  proof (cases "?d = dirty")
    case False
    then have "extend_run c dirty fin (s # segs) = Ok (fin, s # segs)" by (simp add: is_dirty_eq [OF i])
    then show ?thesis using "2.prems"(1) by (intro exI [of _ fin] exI [of _ "s # segs"] conjI) auto
  next
    case True
    have eq: "extend_run c dirty fin (s # segs) = extend_run c dirty (fin + sg_len s) segs"
      using True s(1) by (simp add: is_dirty_eq [OF i])
    obtain fin' r where r: "extend_run c dirty (fin + sg_len s) segs = Ok (fin', r)" "fin + sg_len s \<le> fin'"
      "seg_cover offset fin' r tot"
      "\<forall>j. fin + sg_len s \<le> j \<longrightarrow> j < fin' \<longrightarrow> dirty_bit (cw_bitmap c) ((offset + j) div 512) = dirty"
      using "2.IH" [of ?d, unfolded s(1)] True rest "2.prems"(2) by blast
    have "dirty_bit (cw_bitmap c) ((offset + j) div 512) = dirty" if j1: "fin \<le> j" "j < fin'" for j
    proof (cases "fin + sg_len s \<le> j")
      case False
      moreover obtain k where "j = fin + k" using le_Suc_ex [OF j1(1)] by blast
      ultimately have "j = fin + k" "k < sg_len s" by simp_all
      then have "(offset + j) div 512 = sg_block s" using s(3) [rule_format, of k] by (simp add: add.assoc)
      then show ?thesis using True by simp
    next
      case True
      then show ?thesis using r(4) that(2) by simp
    qed
    then show ?thesis using eq r(1-3) by (intro exI [of _ fin'] exI [of _ r]) simp
  qed
qed

text \<open>
  If transferring the run \<open>start..fin\<close> goes from the state \<open>T start\<close> to \<open>T fin\<close>
  whenever its bytes come from one file, the loop goes from the first to the last.
\<close>

lemma read_runs_cover:
  assumes "seg_cover offset at segs tot"
    and "\<forall>j < tot. (offset + j) div 512 div 8 < length (cw_bitmap c)"
    and act: "\<And>d start fin. start < fin \<Longrightarrow> fin \<le> tot \<Longrightarrow>
      \<forall>j. start \<le> j \<longrightarrow> j < fin \<longrightarrow> dirty_bit (cw_bitmap c) ((offset + j) div 512) = d \<Longrightarrow>
      act d start fin (T start) = (T fin, Ok ())"
  shows "read_runs act c segs (T at) = (T tot, Ok ())"
  using assms(1)
proof (induction "length segs" arbitrary: at segs rule: less_induct)
  case less
  show ?case
  proof (cases segs)
    case Nil
    then show ?thesis using less.prems by simp
  next
    case (Cons s segs')
    have s: "sg_off s = at" "0 < sg_len s" "\<forall>i < sg_len s. (offset + at + i) div 512 = sg_block s"
      and rest: "seg_cover offset (at + sg_len s) segs' tot" using less.prems Cons by auto
    have b: "(offset + at) div 512 = sg_block s" using s(2,3) by (metis add.right_neutral)
    have "at < tot" using seg_cover_le [OF rest] s(2) by simp
    then have i: "sg_block s div 8 < length (cw_bitmap c)" using assms(2) b by metis
    define d where "d = dirty_bit (cw_bitmap c) (sg_block s)"
    obtain fin r where r: "extend_run c d (at + sg_len s) segs' = Ok (fin, r)" "at + sg_len s \<le> fin"
      "seg_cover offset fin r tot"
      "\<forall>j. at + sg_len s \<le> j \<longrightarrow> j < fin \<longrightarrow> dirty_bit (cw_bitmap c) ((offset + j) div 512) = d"
      using extend_run_cover [OF rest assms(2)] by blast
    have same: "\<forall>j. at \<le> j \<longrightarrow> j < fin \<longrightarrow> dirty_bit (cw_bitmap c) ((offset + j) div 512) = d"
    proof (intro allI impI)
      fix j assume j: "at \<le> j" "j < fin"
      show "dirty_bit (cw_bitmap c) ((offset + j) div 512) = d"
      proof (cases "at + sg_len s \<le> j")
        case False
        moreover obtain k where "j = at + k" using le_Suc_ex [OF j(1)] by blast
        ultimately have "j = at + k" "k < sg_len s" by simp_all
        then show ?thesis using s(3) by (simp add: d_def add.assoc)
      qed (use r(4) j in blast)
    qed
    have "act d at fin (T at) = (T fin, Ok ())"
      by (rule act) (use r(2) s(2) seg_cover_le [OF r(3)] same in auto)
    then have "read_runs act c segs (T at) = read_runs act c r (T fin)"
      using Cons s(1) r(1) by (simp add: is_dirty_eq [OF i] d_def)
    also have "\<dots> = (T tot, Ok ())"
      by (rule less.hyps) (use Cons extend_run_shorter [OF r(1)] r(3) in auto)
    finally show ?thesis .
  qed
qed

section \<open>Content of an overlay\<close>

text \<open>The byte of the device at an offset.\<close>

definition cow_byte :: "cow \<Rightarrow> nat \<Rightarrow> byte" where
  "cow_byte c i =
     (if dirty_bit (cw_bitmap c) (i div 512) then cw_overlay c ! (oh_data_offset (cw_header c) + i)
      else cw_base c ! i)"

abbreviation cow_blocks :: "cow \<Rightarrow> nat" where
  "cow_blocks c \<equiv> oh_blocks (cw_header c)"

abbreviation data_off :: "cow \<Rightarrow> nat" where
  "data_off c \<equiv> oh_data_offset (cw_header c)"

text \<open>
  The invariant: the layout is the one of the base image, the header and bitmap on disk
  are those in memory, and every dirty sector is whole in the overlay.
\<close>

definition cow_inv :: "cow \<Rightarrow> bool" where
  "cow_inv c \<longleftrightarrow>
     cow_header_new (cow_blocks c) = Ok (cw_header c) \<and> cow_blocks c * 512 < 2 ^ 62 \<and>
     length (cw_base c) = cow_blocks c * 512 \<and>
     length (cw_bitmap c) = oh_bitmap_len (cw_header c) \<and>
     validate_unused_bitmap_bits (cw_bitmap c) (cow_blocks c) = Ok () \<and>
     data_off c \<le> length (cw_overlay c) \<and>
     take 4096 (cw_overlay c) = cow_header_encode (cw_header c) \<and>
     take (oh_bitmap_len (cw_header c)) (drop 4096 (cw_overlay c)) = cw_bitmap c \<and>
     (\<forall>b < cow_blocks c. dirty_bit (cw_bitmap c) b \<longrightarrow>
        data_off c + (b + 1) * 512 \<le> length (cw_overlay c))"

lemma cow_inv_header:
  assumes "cow_inv c"
  shows "4096 + length (cw_bitmap c) \<le> data_off c" and "data_off c + cow_blocks c * 512 < 2 ^ 63"
    and "length (cw_bitmap c) = (cow_blocks c + 7) div 8" and "oh_bitmap_offset (cw_header c) = 4096"
    and "header_fits (cw_header c)" and "oh_bitmap_len (cw_header c) = length (cw_bitmap c)"
    and "data_off c \<le> length (cw_overlay c)" and "length (cw_base c) = cow_blocks c * 512"
proof -
  have n: "cow_header_new (cow_blocks c) = Ok (cw_header c)" and lt: "cow_blocks c * 512 < 2 ^ 62"
    using assms by (simp_all add: cow_inv_def)
  obtain h where h: "cow_header_new (cow_blocks c) = Ok h" "oh_data_offset h + cow_blocks c * 512 < 2 ^ 63"
    "header_fits h" by (rule header_new_ok [OF lt])
  then have "h = cw_header c" using n by simp
  then show "data_off c + cow_blocks c * 512 < 2 ^ 63" "header_fits (cw_header c)" using h by simp_all
  show "length (cw_bitmap c) = (cow_blocks c + 7) div 8" "oh_bitmap_offset (cw_header c) = 4096"
    "oh_bitmap_len (cw_header c) = length (cw_bitmap c)" "data_off c \<le> length (cw_overlay c)"
    "length (cw_base c) = cow_blocks c * 512"
    using assms by (simp_all add: cow_inv_def header_new_iff)
  then show "4096 + length (cw_bitmap c) \<le> data_off c" using header_data_offset [OF n] by simp
qed

lemma cow_inv_dirty:
  "cow_inv c \<Longrightarrow> b < cow_blocks c \<Longrightarrow> dirty_bit (cw_bitmap c) b \<Longrightarrow>
   data_off c + (b + 1) * 512 \<le> length (cw_overlay c)"
  by (simp add: cow_inv_def)

lemma block_in_bitmap:
  "cow_inv c \<Longrightarrow> b < cow_blocks c \<Longrightarrow> b div 8 < length (cw_bitmap c)"
  using cow_inv_header(3) [of c] by linarith

lemma byte_block: "i < n * 512 \<Longrightarrow> i div 512 < (n :: nat)"
  by (simp add: less_mult_imp_div_less)

lemma block_byte: "(i :: nat) < (i div 512 + 1) * 512"
  using dividend_less_div_times [of 512 i] by simp

section \<open>Reads\<close>

text \<open>A run of bytes that come from one file.\<close>

lemma run_source_bytes:
  assumes inv: "cow_inv c" and "start < fin" and le: "offset + fin \<le> cow_blocks c * 512"
    and same: "\<forall>j. start \<le> j \<longrightarrow> j < fin \<longrightarrow> dirty_bit (cw_bitmap c) ((offset + j) div 512) = d"
  obtains f source where "run_source c offset d start = Ok (f, source)"
    and "source + (fin - start) \<le> length f" and "source + (fin - start) < 2 ^ 63"
    and "take (fin - start) (drop source f) = map (cow_byte c) [offset + start..<offset + fin]"
proof -
  have lt: "data_off c + cow_blocks c * 512 < 2 ^ 63" by (rule cow_inv_header [OF inv])
  have bytes: "take (fin - start) (drop source f) = map (cow_byte c) [offset + start..<offset + fin]"
    if "source + (fin - start) \<le> length f"
      "\<And>j. start \<le> j \<Longrightarrow> j < fin \<Longrightarrow> f ! (source + (j - start)) = cow_byte c (offset + j)" for f source
  proof (rule nth_equalityI)
    fix i assume "i < length (take (fin - start) (drop source f))"
    then have "i < fin - start" by simp
    then show "take (fin - start) (drop source f) ! i = map (cow_byte c) [offset + start..<offset + fin] ! i"
      using that(1) that(2) [of "start + i"] by (simp add: add.assoc)
  qed (use that(1) in simp)
  show thesis
  proof (cases d)
    case True
    let ?b = "(offset + (fin - 1)) div 512"
    have "dirty_bit (cw_bitmap c) ?b" using same [rule_format, of "fin - 1"] True assms(2) by simp
    moreover have "?b < cow_blocks c" by (rule byte_block) (use le assms(2) in linarith)
    ultimately have "data_off c + (?b + 1) * 512 \<le> length (cw_overlay c)" by (intro cow_inv_dirty [OF inv])
    moreover have "offset + (fin - 1) < (?b + 1) * 512" by (rule block_byte)
    ultimately have len: "data_off c + (offset + start) + (fin - start) \<le> length (cw_overlay c)"
      using assms(2) by linarith
    have src: "run_source c offset d start = Ok (cw_overlay c, data_off c + (offset + start))"
      using True lt le assms(2) by (simp add: run_source_def overlay_offset_def checked_add_def)
    show thesis
      by (rule that [OF src len _ bytes [OF len]])
        (use le lt assms(2) same True in \<open>simp_all add: cow_byte_def\<close>)
  next
    case False
    have len: "offset + start + (fin - start) \<le> length (cw_base c)"
      using le assms(2) cow_inv_header(8) [OF inv] by simp
    have src: "run_source c offset d start = Ok (cw_base c, offset + start)"
      using False lt le assms(2) by (simp add: run_source_def checked_add_def)
    show thesis
      by (rule that [OF src len _ bytes [OF len]])
        (use le lt assms(2) same False in \<open>simp_all add: cow_byte_def\<close>)
  qed
qed

lemma splice_splice:
  assumes "length xs + length ys \<le> length d"
  shows "splice (splice d 0 xs) (length xs) ys = splice d 0 (xs @ ys)"
  using assms by (simp add: splice_def add.commute)

text \<open>A read returns the bytes of the device.\<close>

lemma request_blocks:
  assumes "cow_inv c" and "offset + n \<le> cow_blocks c * 512"
  shows "\<forall>j < n. (offset + j) div 512 div 8 < length (cw_bitmap c)"
proof (intro allI impI)
  fix j assume "j < n"
  then have "offset + j < cow_blocks c * 512" using assms(2) by linarith
  then show "(offset + j) div 512 div 8 < length (cw_bitmap c)"
    by (intro block_in_bitmap [OF assms(1)] byte_block)
qed

lemma cow_read_ok:
  assumes inv: "cow_inv c" and le: "offset + length data \<le> cow_blocks c * 512"
  shows "cow_read_at c offset data = (map (cow_byte c) [offset..<offset + length data], Ok ())"
proof -
  define T where "T e = splice data 0 (map (cow_byte c) [offset..<offset + e])" for e
  have cover: "seg_cover offset 0 (block_segments offset (length data) 0) (length data)"
    using block_segments_cover [of offset 0 "length data"] by simp
  have "read_runs (read_run c offset) c (block_segments offset (length data) 0) (T 0) = (T (length data), Ok ())"
  proof (rule read_runs_cover [OF cover request_blocks [OF inv le]])
    fix d start fin
    assume a: "start < fin" "fin \<le> length data"
      "\<forall>j. start \<le> j \<longrightarrow> j < fin \<longrightarrow> dirty_bit (cw_bitmap c) ((offset + j) div 512) = d"
    have "offset + fin \<le> cow_blocks c * 512" using a(2) le by linarith
    then obtain f source where f: "run_source c offset d start = Ok (f, source)"
      "source + (fin - start) \<le> length f"
      "take (fin - start) (drop source f) = map (cow_byte c) [offset + start..<offset + fin]"
      using run_source_bytes [OF inv a(1) _ a(3)] by metis
    have "splice (T start) start (map (cow_byte c) [offset + start..<offset + fin]) = T fin"
      using splice_splice [of "map (cow_byte c) [offset..<offset + start]"
          "map (cow_byte c) [offset + start..<offset + fin]" data] a(1,2)
        upt_add_eq_append [of offset "offset + start" "fin - start"]
      by (simp add: T_def)
    then show "read_run c offset d start fin (T start) = (T fin, Ok ())"
      using f by (simp add: read_run_def read_exact_at_def io_def)
  qed
  then show ?thesis by (simp add: cow_read_at_def T_def splice_def)
qed

end
