(* ===== verification/BlkWrites.thy ===== *)
theory BlkWrites
  imports BlkProofs
begin

text \<open>
  Writes to a copy-on-write overlay: copying up the edge sectors, writing the data, then
  marking the bitmap keeps the invariant and changes exactly the bytes written. Opening
  creates an overlay that reads as its base, and reopening gives back the same device.
\<close>

section \<open>Writing past the metadata\<close>

lemma take_write_all_at:
  "k \<le> off \<Longrightarrow> k \<le> length f \<Longrightarrow> take k (write_all_at f off d) = take k f"
  by (simp add: write_all_at_def)

lemma nth_write_below:
  "i < off \<Longrightarrow> i < length f \<Longrightarrow> write_all_at f off d ! i = f ! i"
  by (auto simp: write_all_at_def nth_append)

lemma nth_write_above:
  "off + length d \<le> i \<Longrightarrow> i < length f \<Longrightarrow> write_all_at f off d ! i = f ! i"
  using nth_write_all_at [of i f off d] by (auto simp: length_write_all_at split: if_splits)

lemma nth_write_inside:
  "off \<le> i \<Longrightarrow> i < off + length d \<Longrightarrow> write_all_at f off d ! i = d ! (i - off)"
  using nth_write_all_at [of i f off d] by (cases "d = []") (auto simp: length_write_all_at)

lemma length_write_ge: "length f \<le> length (write_all_at f off d)"
  by (simp add: length_write_all_at)

abbreviation data_write :: "nat \<Rightarrow> byte list \<Rightarrow> cow \<Rightarrow> cow" where
  "data_write o' d c \<equiv> c\<lparr>cw_overlay := write_all_at (cw_overlay c) (data_off c + o') d\<rparr>"

lemma data_write_inv:
  assumes "cow_inv c"
  shows "cow_inv (data_write o' d c)"
proof -
  let ?f = "write_all_at (cw_overlay c) (data_off c + o') d"
  let ?bl = "oh_bitmap_len (cw_header c)"
  note h = cow_inv_header [OF assms]
  have "take 4096 ?f = take 4096 (cw_overlay c)" by (rule take_write_all_at) (use h in simp_all)
  moreover have "take (?bl + 4096) ?f = take (?bl + 4096) (cw_overlay c)"
    by (rule take_write_all_at) (use h in simp_all)
  then have "take ?bl (drop 4096 ?f) = take ?bl (drop 4096 (cw_overlay c))" by (simp add: take_drop)
  ultimately show ?thesis
    using assms length_write_ge [of "cw_overlay c" "data_off c + o'" d]
    by (auto simp: cow_inv_def intro: order_trans)
qed

section \<open>Whole sectors\<close>

text \<open>A sector of the overlay that holds what the device reads there.\<close>

definition whole :: "cow \<Rightarrow> nat \<Rightarrow> bool" where
  "whole c b \<longleftrightarrow> data_off c + (b + 1) * 512 \<le> length (cw_overlay c) \<and>
     (\<forall>i. i div 512 = b \<longrightarrow> cw_overlay c ! (data_off c + i) = cow_byte c i)"

lemma dirty_whole: "cow_inv c \<Longrightarrow> b < cow_blocks c \<Longrightarrow> dirty_bit (cw_bitmap c) b \<Longrightarrow> whole c b"
  using cow_inv_dirty [of c b] by (auto simp: whole_def cow_byte_def)

lemma sector_bounds: "(i :: nat) div 512 = b \<longleftrightarrow> b * 512 \<le> i \<and> i < b * 512 + 512"
  by (auto simp: div_nat_eqI)

lemma other_sector:
  assumes "i div 512 \<noteq> (b :: nat)"
  shows "i < b * 512 \<or> b * 512 + 512 \<le> i"
  using assms sector_bounds [of i b] by linarith

text \<open>Copying a clean sector up.\<close>

definition same_cow :: "cow \<Rightarrow> cow \<Rightarrow> bool" where
  "same_cow c c' \<longleftrightarrow> cow_inv c' \<and> cw_header c' = cw_header c \<and> cw_base c' = cw_base c \<and>
     cw_bitmap c' = cw_bitmap c \<and> (\<forall>i < cow_blocks c * 512. cow_byte c' i = cow_byte c i) \<and>
     (\<forall>b < cow_blocks c. whole c b \<longrightarrow> whole c' b)"

lemma copy_block_ok:
  assumes inv: "cow_inv c" and b: "b < cow_blocks c" and clean: "\<not> dirty_bit (cw_bitmap c) b"
  obtains c' where "copy_base_block_to_overlay b c = (c', Ok ())" and "same_cow c c'" and "whole c' b"
proof -
  note h = cow_inv_header [OF inv]
  define buf where "buf = take 512 (drop (b * 512) (cw_base c))"
  define c' where "c' = data_write (b * 512) buf c"
  have le: "b * 512 + 512 \<le> cow_blocks c * 512" using b by linarith
  have len: "length buf = 512" using le h(8) by (simp add: buf_def)
  have ofl: "b * 512 < 2 ^ 64" "data_off c + b * 512 < 2 ^ 64" using le h(2) by simp_all
  have "read_exact_at (cw_base c) (b * 512) 512 = Ok buf" using le h(8) by (simp add: read_exact_at_def buf_def)
  then have eq: "copy_base_block_to_overlay b c = (c', Ok ())"
    using ofl by (simp add: copy_base_block_to_overlay_def overlay_block_offset_def SECTOR_SIZE_def
        checked_mul_def checked_add_def io_def c'_def)
  have inv': "cow_inv c'" unfolding c'_def by (rule data_write_inv [OF inv])
  have ov: "cw_overlay c' ! (data_off c + i) = cw_overlay c ! (data_off c + i)"
    if "i div 512 \<noteq> b" "data_off c + i < length (cw_overlay c)" for i
    using other_sector [OF that(1)] that(2) len
    by (auto simp: c'_def intro: nth_write_below nth_write_above)
  have new: "cw_overlay c' ! (data_off c + i) = cw_base c ! i" if "i div 512 = b" for i
  proof -
    have i: "b * 512 \<le> i" "i < b * 512 + 512" using that sector_bounds [of i b] by simp_all
    obtain k where k: "i = b * 512 + k" using le_Suc_ex [OF i(1)] by blast
    then show ?thesis
      using i(2) len le h(8) nth_write_inside [of "data_off c + b * 512" "data_off c + i" buf]
      by (simp add: c'_def buf_def)
  qed
  have bytes: "cow_byte c' i = cow_byte c i" if "i < cow_blocks c * 512" for i
  proof (cases "dirty_bit (cw_bitmap c) (i div 512)")
    case True
    then have "data_off c + (i div 512 + 1) * 512 \<le> length (cw_overlay c)"
      by (intro cow_inv_dirty [OF inv] byte_block that)
    then have "data_off c + i < length (cw_overlay c)" using block_byte [of i] by linarith
    then show ?thesis using ov [of i] True clean by (auto simp: cow_byte_def c'_def)
  qed (simp add: cow_byte_def c'_def)
  have len': "length (cw_overlay c) \<le> length (cw_overlay c')" by (simp add: c'_def length_write_ge)
  have w: "whole c' b"
  proof -
    have "data_off c + b * 512 + 512 \<le> length (cw_overlay c')"
      using len by (auto simp: c'_def length_write_all_at)
    then show ?thesis using new clean by (auto simp: whole_def cow_byte_def c'_def)
  qed
  have "whole c' x" if x: "x < cow_blocks c" "whole c x" for x
  proof (cases "x = b")
    case False
    have "cw_overlay c' ! (data_off c + i) = cow_byte c' i" if i: "i div 512 = x" for i
    proof -
      have "i < x * 512 + 512" using i sector_bounds [of i x] by blast
      then have "data_off c + i < length (cw_overlay c)" "i < cow_blocks c * 512"
        using x by (auto simp: whole_def)
      then show ?thesis using ov [of i] bytes [of i] i False x(2) by (simp add: whole_def)
    qed
    then show ?thesis using x(2) len' by (simp add: whole_def c'_def)
  qed (use w in simp)
  then have "same_cow c c'" using inv' bytes by (simp add: same_cow_def c'_def)
  then show thesis using that eq w by blast
qed

lemma same_cow_refl: "cow_inv c \<Longrightarrow> same_cow c c"
  by (simp add: same_cow_def)

lemma same_cow_trans: "same_cow c c' \<Longrightarrow> same_cow c' c'' \<Longrightarrow> same_cow c c''"
  by (auto simp: same_cow_def)

definition covered :: "nat \<Rightarrow> nat \<Rightarrow> nat \<Rightarrow> nat" where
  "covered offset fin b = min fin (b * 512 + 512) - max offset (b * 512)"

lemma copy_edge_ok:
  assumes inv: "cow_inv c" and b: "b < cow_blocks c"
  obtains c' where "copy_edge offset fin b c = (c', Ok ())" and "same_cow c c'"
    and "covered offset fin b < 512 \<Longrightarrow> whole c' b"
proof (cases "covered offset fin b < 512 \<and> \<not> dirty_bit (cw_bitmap c) b")
  case True
  obtain c' where "copy_base_block_to_overlay b c = (c', Ok ())" "same_cow c c'" "whole c' b"
    by (rule copy_block_ok [OF inv b]) (use True in blast)+
  then show thesis
    using that [of c'] True is_dirty_eq [OF block_in_bitmap [OF inv b]]
    by (simp add: copy_edge_def covered_def SECTOR_SIZE_def Let_def)
next
  case False
  then have "copy_edge offset fin b c = (c, Ok ())"
    using is_dirty_eq [OF block_in_bitmap [OF inv b]]
    by (auto simp: copy_edge_def covered_def SECTOR_SIZE_def Let_def)
  then show thesis using that [of c] same_cow_refl [OF inv] dirty_whole [OF inv b] False by blast
qed

section \<open>Marking\<close>

text \<open>The bitmap has no bit past the last sector.\<close>

lemma div_eight: "(n :: nat) = n div 8 * 8 + n mod 8" "n mod 8 < 8"
  by simp_all

lemma round_up_eight: "(n + 7) div 8 = (if n mod 8 = 0 then n div 8 else n div 8 + 1)" for n :: nat
proof -
  have "(q * 8 + r + 7) div 8 = (if r = 0 then q else q + 1)" if "r < 8" for q r :: nat
    using that by (cases "r = 0") (auto intro!: div_nat_eqI)
  from this [of "n mod 8" "n div 8"] show ?thesis by simp
qed

lemma unused_bits_iff:
  assumes "length bm = (n + 7) div 8"
  shows "validate_unused_bitmap_bits bm n = Ok () \<longleftrightarrow>
    (\<forall>x. n \<le> x \<longrightarrow> x div 8 < length bm \<longrightarrow> \<not> dirty_bit bm x)"
proof (cases "n mod 8 = 0")
  case True
  then have "length bm = n div 8" using assms by (simp add: round_up_eight)
  then have "\<not> x div 8 < length bm" if "n \<le> x" for x using that by (simp add: div_le_mono not_less)
  then show ?thesis using True by (simp add: validate_unused_bitmap_bits_def)
next
  case False
  then have len: "length bm = n div 8 + 1" using assms by (simp add: round_up_eight)
  then have ne: "bm \<noteq> []" by auto
  then have lst: "last bm = bm ! (n div 8)" using len by (simp add: last_conv_nth)
  have "last bm AND NOT (2 ^ (n mod 8) - 1) = 0 \<longleftrightarrow> (\<forall>k \<ge> n mod 8. \<not> bit (last bm) k)"
    using bit_imp_le_length [of "last bm"]
    by (auto simp: bit_eq_iff bit_and_iff bit_not_iff bit_mask_iff mask_eq_exp_minus_1 [symmetric] not_less)
  also have "\<dots> \<longleftrightarrow> (\<forall>x. n \<le> x \<longrightarrow> x div 8 < length bm \<longrightarrow> \<not> dirty_bit bm x)"
  proof (intro iffI allI impI)
    fix x assume a: "\<forall>k \<ge> n mod 8. \<not> bit (last bm) k" "n \<le> x" "x div 8 < length bm"
    have "n div 8 \<le> x div 8" using a(2) by (rule div_le_mono)
    then have d: "x div 8 = n div 8" using a(3) len by simp
    then have "n mod 8 \<le> x mod 8" using a(2) div_eight [of n] div_eight [of x] by linarith
    then show "\<not> dirty_bit bm x" using a(1) d lst by (simp add: dirty_bit_def)
  next
    fix k assume a: "\<forall>x. n \<le> x \<longrightarrow> x div 8 < length bm \<longrightarrow> \<not> dirty_bit bm x" "n mod 8 \<le> k"
    show "\<not> bit (last bm) k"
    proof (cases "k < 8")
      case True
      let ?x = "n div 8 * 8 + k"
      have x: "?x div 8 = n div 8" "?x mod 8 = k" using True by simp_all
      have "n \<le> ?x" using a(2) div_eight [of n] by linarith
      then show ?thesis using a(1) [rule_format, of ?x] x len lst by (simp add: dirty_bit_def)
    next
      case False
      then show ?thesis using bit_imp_le_length [of "last bm" k] by auto
    qed
  qed
  finally show ?thesis using False ne by (simp add: validate_unused_bitmap_bits_def Let_def)
qed

text \<open>The bitmap bytes on disk after the changed range is written.\<close>

lemma bitmap_on_disk:
  assumes "take (length bm) (drop 4096 f) = bm" and "4096 + length bm \<le> length f"
    and cov: "covered_range bm bm' (Some (lo, hi))"
  shows "take (length bm) (drop 4096 (write_all_at f (4096 + lo) (take (hi + 1 - lo) (drop lo bm')))) = bm'"
proof (rule nth_equalityI)
  let ?d = "take (hi + 1 - lo) (drop lo bm')"
  have len: "length bm' = length bm" "lo \<le> hi" "hi < length bm" using cov by (auto simp: covered_range_def)
  then have d: "length ?d = hi + 1 - lo" by simp
  show l: "length (take (length bm) (drop 4096 (write_all_at f (4096 + lo) ?d))) = length bm'"
    using assms(2) len length_write_ge [of f "4096 + lo" ?d] by simp
  fix i assume "i < length (take (length bm) (drop 4096 (write_all_at f (4096 + lo) ?d)))"
  then have i: "i < length bm" using l len(1) by simp
  have "take (length bm) (drop 4096 f) ! i = f ! (4096 + i)" using i assms(2) by simp
  then have old: "f ! (4096 + i) = bm ! i" using assms(1) by simp
  have "write_all_at f (4096 + lo) ?d ! (4096 + i) = bm' ! i"
  proof -
    consider (below) "i < lo" | (inside) "lo \<le> i" "i \<le> hi" | (above) "hi < i" by linarith
    then show ?thesis
    proof cases
      case below
      then show ?thesis using nth_write_below [of "4096 + i" "4096 + lo" f ?d] i assms(2) old cov
        by (simp add: covered_range_def)
    next
      case inside
      then show ?thesis using nth_write_inside [of "4096 + lo" "4096 + i" ?d f] d len by simp
    next
      case above
      then show ?thesis using nth_write_above [of "4096 + lo" ?d "4096 + i" f] i d len assms(2) old cov
        by (simp add: covered_range_def)
    qed
  qed
  then show "take (length bm) (drop 4096 (write_all_at f (4096 + lo) ?d)) ! i = bm' ! i"
    using i assms(2) length_write_ge [of f "4096 + lo" ?d] by simp
qed

lemma covered_range_refl: "covered_range bm bm None"
  by (simp add: covered_range_def)

lemma mark_dirty_range_ok:
  assumes inv: "cow_inv c" and "fb \<le> lb" and "lb < cow_blocks c"
    and room: "data_off c + (lb + 1) * 512 \<le> length (cw_overlay c)"
  obtains c' where "mark_dirty_range fb lb c = (c', Ok ())" and "cow_inv c'"
    and "cw_header c' = cw_header c" and "cw_base c' = cw_base c"
    and "\<And>x. dirty_bit (cw_bitmap c') x \<longleftrightarrow> dirty_bit (cw_bitmap c) x \<or> (fb \<le> x \<and> x \<le> lb)"
    and "\<And>i. data_off c + i < length (cw_overlay c) \<Longrightarrow>
      cw_overlay c' ! (data_off c + i) = cw_overlay c ! (data_off c + i)"
proof -
  note h = cow_inv_header [OF inv]
  let ?bm = "cw_bitmap c"
  have "\<forall>b \<in> set [fb..<lb + 1]. b div 8 < length ?bm"
    using block_in_bitmap [OF inv] assms(3) by auto
  then obtain bm' ch where mk: "mark_blocks ?bm None [fb..<lb + 1] = Ok (bm', ch)"
    and cov: "covered_range ?bm bm' ch"
    and dirty0: "\<forall>x. dirty_bit bm' x \<longleftrightarrow> dirty_bit ?bm x \<or> x \<in> set [fb..<lb + 1]"
    using mark_blocks_ok [OF sorted_upt _ covered_range_refl, of fb "lb + 1" ?bm] by blast
  have dirty: "dirty_bit bm' x \<longleftrightarrow> dirty_bit ?bm x \<or> (fb \<le> x \<and> x \<le> lb)" for x
    using dirty0 [rule_format, of x] assms(2) by auto
  define ov where "ov = (case ch of None \<Rightarrow> cw_overlay c
     | Some (lo, hi) \<Rightarrow> write_all_at (cw_overlay c) (4096 + lo) (take (hi + 1 - lo) (drop lo bm')))"
  define c' where "c' = c\<lparr>cw_bitmap := bm', cw_overlay := ov\<rparr>"
  have len: "length bm' = length ?bm" using cov by (simp add: covered_range_def)
  have lo: "lo \<le> hi \<and> hi < length ?bm" if "ch = Some (lo, hi)" for lo hi
    using cov that by (simp add: covered_range_def)
  have small: "4096 + length ?bm < 2 ^ 64" using h(1,2) by simp
  have eq: "mark_dirty_range fb lb c = (c', Ok ())"
    using mk small lo h(4)
    by (auto simp: mark_dirty_range_def ov_def c'_def checked_add_def split: option.splits)
  have disk: "take (length ?bm) (drop 4096 ov) = bm'"
    using inv cov bitmap_on_disk [of ?bm "cw_overlay c" bm'] h(1,6,7)
    by (auto simp: cow_inv_def ov_def covered_range_def split: option.splits)
  have head: "take 4096 ov = take 4096 (cw_overlay c)"
    using h(1,7) by (auto simp: ov_def take_write_all_at split: option.splits)
  have longer: "length (cw_overlay c) \<le> length ov"
    by (auto simp: ov_def length_write_ge split: option.splits)
  have data: "ov ! (data_off c + i) = cw_overlay c ! (data_off c + i)"
    if "data_off c + i < length (cw_overlay c)" for i
  proof (cases ch)
    case (Some lh)
    obtain lo hi where lh: "lh = (lo, hi)" by fastforce
    have "4096 + lo + length (take (hi + 1 - lo) (drop lo bm')) \<le> data_off c + i"
      using lo [of lo hi] Some lh h(1) len by (auto simp: min_def)
    then show ?thesis using that nth_write_above Some lh by (simp add: ov_def)
  qed (simp add: ov_def)
  have unused: "validate_unused_bitmap_bits bm' (cow_blocks c) = Ok ()"
  proof -
    have "validate_unused_bitmap_bits ?bm (cow_blocks c) = Ok ()" using inv by (simp add: cow_inv_def)
    then show ?thesis
      using unused_bits_iff [of ?bm "cow_blocks c"] unused_bits_iff [of bm' "cow_blocks c"] h(3) len dirty assms(3)
      by auto
  qed
  have room': "data_off c + (b + 1) * 512 \<le> length ov" if "b < cow_blocks c" "dirty_bit bm' b" for b
  proof (cases "dirty_bit ?bm b")
    case True
    then show ?thesis using cow_inv_dirty [OF inv that(1)] longer by linarith
  next
    case False
    then have "b \<le> lb" using that(2) dirty by simp
    then have "(b + 1) * 512 \<le> (lb + 1) * 512" by simp
    then show ?thesis using room longer by linarith
  qed
  have "cow_inv c'"
    using inv disk head longer unused room' h(6,7) len by (auto simp: cow_inv_def c'_def)
  then show thesis
    using that [of c'] eq data dirty by (simp add: c'_def)
qed

section \<open>Writes\<close>

lemma edge_covered:
  assumes "i div 512 = b" and "offset < fin" and "\<not> (offset \<le> i \<and> i < fin)"
    and "offset div 512 \<le> b" and "b \<le> (fin - 1) div 512"
  shows "covered offset fin b < 512 \<and> (b = offset div 512 \<or> b = (fin - 1) div 512)"
proof (cases "i < offset")
  case True
  have "i div 512 \<le> offset div 512" using True by (simp add: div_le_mono)
  moreover have "b * 512 \<le> i" using assms(1) sector_bounds by blast
  ultimately show ?thesis using True assms(1,4) by (auto simp: covered_def)
next
  case False
  then have fi: "fin \<le> i" using assms(3) by simp
  have "i < b * 512 + 512" using assms(1) sector_bounds by blast
  moreover have "covered offset fin b \<le> fin - b * 512" by (auto simp: covered_def)
  ultimately have "covered offset fin b < 512" using fi by linarith
  moreover have "(fin - 1) div 512 \<le> i div 512" using fi by (intro div_le_mono) simp
  ultimately show ?thesis using assms(1,5) by simp
qed

text \<open>The bytes of the device after the data is written and the bitmap marked.\<close>

lemma written_byte:
  assumes inv: "cow_inv c" and i: "i < cow_blocks c * 512" and ne: "data \<noteq> []"
    and fin: "fin = offset + length data"
    and edge: "\<And>b. b = offset div 512 \<or> b = (fin - 1) div 512 \<Longrightarrow> covered offset fin b < 512 \<Longrightarrow> whole c b"
    and c': "cw_header c' = cw_header c" "cw_base c' = cw_base c"
    and dirty: "\<And>x. dirty_bit (cw_bitmap c') x \<longleftrightarrow>
      dirty_bit (cw_bitmap c) x \<or> (offset div 512 \<le> x \<and> x \<le> (fin - 1) div 512)"
    and data: "\<And>i. data_off c + i < length (cw_overlay (data_write offset data c)) \<Longrightarrow>
      cw_overlay c' ! (data_off c + i) = cw_overlay (data_write offset data c) ! (data_off c + i)"
  shows "cow_byte c' i = (if offset \<le> i \<and> i < fin then data ! (i - offset) else cow_byte c i)"
proof -
  let ?f = "cw_overlay (data_write offset data c)"
  have len: "length (cw_overlay c) \<le> length ?f" "data_off c + fin \<le> length ?f"
    using ne by (simp_all add: fin length_write_all_at)
  have lt: "offset < fin" using ne fin by simp
  show ?thesis
  proof (cases "offset \<le> i \<and> i < fin")
    case True
    then have "offset div 512 \<le> i div 512" "i div 512 \<le> (fin - 1) div 512"
      by (auto intro!: div_le_mono)
    then have "cow_byte c' i = ?f ! (data_off c + i)"
      using dirty data [of i] len(2) True by (simp add: cow_byte_def c')
    then show ?thesis
      using True nth_write_inside [of "data_off c + offset" "data_off c + i" data] by (simp add: fin)
  next
    case False
    have keep: "?f ! (data_off c + i) = cw_overlay c ! (data_off c + i)"
      if "data_off c + i < length (cw_overlay c)"
      using False that by (auto simp: fin intro: nth_write_below nth_write_above)
    show ?thesis
    proof (cases "offset div 512 \<le> i div 512 \<and> i div 512 \<le> (fin - 1) div 512")
      case True
      have w: "whole c (i div 512)"
        using edge_covered [OF refl lt False] True edge by blast
      then have "data_off c + i < length (cw_overlay c)" using block_byte [of i] by (auto simp: whole_def)
      then have "cow_byte c' i = cow_byte c i"
        using w dirty [of "i div 512"] True data [of i] keep len(1) by (simp add: cow_byte_def c' whole_def)
      then show ?thesis using False by auto
    next
      case clean: False
      have "data_off c + i < length (cw_overlay c)" if "dirty_bit (cw_bitmap c) (i div 512)"
        using cow_inv_dirty [OF inv byte_block [OF i] that] block_byte [of i] by linarith
      then have "cow_byte c' i = cow_byte c i"
        using dirty [of "i div 512"] clean data [of i] keep len(1) by (auto simp: cow_byte_def c')
      then show ?thesis using False by auto
    qed
  qed
qed

lemma cow_write_ok:
  assumes inv: "cow_inv c" and le: "offset + length data \<le> cow_blocks c * 512"
  shows "\<exists>c'. cow_write_at offset data fua c = (c', Ok ()) \<and> cow_inv c' \<and> cw_header c' = cw_header c \<and>
    (\<forall>i < cow_blocks c * 512. cow_byte c' i =
       (if offset \<le> i \<and> i < offset + length data then data ! (i - offset) else cow_byte c i))"
proof (cases "data = []")
  case True
  then show ?thesis using inv by (auto simp: cow_write_at_def)
next
  case False
  note h = cow_inv_header [OF inv]
  define fin where "fin = offset + length data"
  have fin: "offset < fin" "fin \<le> cow_blocks c * 512" using False le by (simp_all add: fin_def)
  define fb where "fb = offset div 512"
  define lb where "lb = (fin - 1) div 512"
  have fl: "fb \<le> lb" unfolding fb_def lb_def by (rule div_le_mono) (use fin in simp)
  have lb: "lb < cow_blocks c" unfolding lb_def by (rule byte_block) (use fin in linarith)
  obtain c1 where c1: "copy_edge offset fin fb c = (c1, Ok ())" "same_cow c c1"
    "covered offset fin fb < 512 \<Longrightarrow> whole c1 fb"
    by (rule copy_edge_ok [OF inv, of fb offset fin]) (use fl lb in auto)
  have inv1: "cow_inv c1" and n1: "cw_header c1 = cw_header c" using c1(2) by (simp_all add: same_cow_def)
  obtain c2 where c2: "(if fb = lb then (c1, Ok ()) else copy_edge offset fin lb c1) = (c2, Ok ())"
    "same_cow c1 c2" "fb \<noteq> lb \<Longrightarrow> covered offset fin lb < 512 \<Longrightarrow> whole c2 lb"
  proof (cases "fb = lb")
    case True
    then show thesis using that [of c1] same_cow_refl [OF inv1] by simp
  next
    case False
    obtain c2 where "copy_edge offset fin lb c1 = (c2, Ok ())" "same_cow c1 c2"
      "covered offset fin lb < 512 \<Longrightarrow> whole c2 lb"
      by (rule copy_edge_ok [OF inv1, of lb offset fin]) (use lb n1 in auto)
    then show thesis using that [of c2] False by simp
  qed
  have sc: "same_cow c c2" by (rule same_cow_trans [OF c1(2) c2(2)])
  then have inv2: "cow_inv c2" and n2: "cw_header c2 = cw_header c" by (simp_all add: same_cow_def)
  have edge: "whole c2 b" if "b = fb \<or> b = lb" "covered offset fin b < 512" for b
    using that c1(3) c2(2,3) fl lb n1 by (cases "fb = lb") (auto simp: same_cow_def)
  define c3 where "c3 = data_write offset data c2"
  have inv3: "cow_inv c3" unfolding c3_def by (rule data_write_inv [OF inv2])
  have len3: "length (cw_overlay c2) \<le> length (cw_overlay c3)" "data_off c + fin \<le> length (cw_overlay c3)"
    using False by (simp_all add: c3_def n2 fin_def length_write_all_at)
  have room: "data_off c + (lb + 1) * 512 \<le> length (cw_overlay c3)"
  proof (cases "covered offset fin lb < 512")
    case True
    then show ?thesis using edge [of lb] len3(1) by (simp add: whole_def n2)
  next
    case False
    then have "lb * 512 + 512 \<le> fin" by (simp add: covered_def)
    then show ?thesis using len3(2) by simp
  qed
  obtain c4 where c4: "mark_dirty_range fb lb c3 = (c4, Ok ())" "cow_inv c4" "cw_header c4 = cw_header c3"
    "cw_base c4 = cw_base c3"
    "\<And>x. dirty_bit (cw_bitmap c4) x \<longleftrightarrow> dirty_bit (cw_bitmap c3) x \<or> (fb \<le> x \<and> x \<le> lb)"
    "\<And>i. data_off c3 + i < length (cw_overlay c3) \<Longrightarrow>
      cw_overlay c4 ! (data_off c3 + i) = cw_overlay c3 ! (data_off c3 + i)"
    by (rule mark_dirty_range_ok [OF inv3 fl]) (use lb room in \<open>simp_all add: c3_def n2\<close>)
  have "cow_byte c4 i = (if offset \<le> i \<and> i < fin then data ! (i - offset) else cow_byte c i)"
    if i: "i < cow_blocks c * 512" for i
  proof -
    have "cow_byte c4 i = (if offset \<le> i \<and> i < fin then data ! (i - offset) else cow_byte c2 i)"
      by (rule written_byte [OF inv2 _ False fin_def])
        (use i edge c4(3-6) in \<open>auto simp: n2 c3_def fb_def lb_def\<close>)
    then show ?thesis using sc i by (simp add: same_cow_def)
  qed
  moreover have "cow_write_at offset data fua c = (c4, Ok ())"
  proof -
    have "fin < 2 ^ 64" "data_off c2 + offset < 2 ^ 64" using h(2) fin by (simp_all add: n2)
    then have "checked_add 64 offset (length data) = Some fin" "overlay_offset c2 offset = Ok (data_off c2 + offset)"
      by (simp_all add: checked_add_def fin_def overlay_offset_def)
    then show ?thesis
      using False c1(1) c2(1) c4(1)
      unfolding cow_write_at_def SECTOR_SIZE_def Let_def fb_def lb_def
      by (simp only: if_False option.case seqR_def prod.case sum.case c3_def cow_flush_def if_cancel)
  qed
  ultimately show ?thesis using c4(2,3) by (intro exI [of _ c4]) (simp add: fin_def c3_def n2)
qed

section \<open>Opening\<close>

lemma fresh_parts:
  assumes n: "cow_header_new n = Ok h"
  shows "length (write_fresh_cow h []) = oh_data_offset h"
    and "take 4096 (write_fresh_cow h []) = cow_header_encode h"
    and "take (oh_bitmap_len h) (drop 4096 (write_fresh_cow h [])) = replicate (oh_bitmap_len h) 0"
proof -
  let ?bm = "replicate (oh_bitmap_len h) (0 :: byte)"
  have le: "4096 + oh_bitmap_len h \<le> oh_data_offset h"
    using header_data_offset [OF n] n by (simp add: header_new_iff)
  have "cow_header_encode h \<noteq> []" by (simp add: cow_header_encode_def COW_MAGIC_def)
  then have "write_all_at [] 0 (cow_header_encode h) = cow_header_encode h" by (simp add: write_all_at_def)
  then have f: "write_fresh_cow h [] = cow_header_encode h @ ?bm @ replicate (oh_data_offset h - (4096 + oh_bitmap_len h)) 0"
    using n le
    by (simp add: write_fresh_cow_def header_new_iff write_all_at_def set_len_def COW_HEADER_LEN_def)
  show "length (write_fresh_cow h []) = oh_data_offset h" using le by (simp add: f COW_HEADER_LEN_def)
  show "take 4096 (write_fresh_cow h []) = cow_header_encode h" by (simp add: f COW_HEADER_LEN_def)
  show "take (oh_bitmap_len h) (drop 4096 (write_fresh_cow h [])) = ?bm" by (simp add: f COW_HEADER_LEN_def)
qed

lemma unused_zero: "validate_unused_bitmap_bits (replicate k 0) n = Ok ()"
  by (simp add: validate_unused_bitmap_bits_def Let_def)

lemma dirty_zero: "b div 8 < k \<Longrightarrow> \<not> dirty_bit (replicate k 0) b"
  by (simp add: dirty_bit_def)

lemma cow_open_fresh:
  assumes "length base = n * 512" and "n * 512 < 2 ^ 62"
  obtains c where "cow_open base [] n = Ok c" and "cow_inv c" and "cow_blocks c = n"
    and "\<And>i. i < n * 512 \<Longrightarrow> cow_byte c i = base ! i"
proof -
  obtain h where h: "cow_header_new n = Ok h" "oh_data_offset h + n * 512 < 2 ^ 63" "header_fits h"
    by (rule header_new_ok [OF assms(2)])
  note f = fresh_parts [OF h(1)]
  define c where "c = \<lparr>cw_base = base, cw_overlay = write_fresh_cow h [],
    cw_bitmap = replicate (oh_bitmap_len h) 0, cw_header = h\<rparr>"
  have le: "4096 + oh_bitmap_len h \<le> oh_data_offset h" and b: "oh_blocks h = n"
    and bl: "oh_bitmap_len h = (n + 7) div 8" and bo: "oh_bitmap_offset h = 4096"
    using header_data_offset [OF h(1)] h(1) by (simp_all add: header_new_iff)
  have clean: "\<not> dirty_bit (replicate (oh_bitmap_len h) 0) x" if "x < n" for x
    by (rule dirty_zero) (use that bl in linarith)
  have "cow_inv c" using h(1) assms f clean b by (simp add: cow_inv_def c_def unused_zero)
  moreover have "cow_open base [] n = Ok c"
    using h(1) f le bo
    by (simp add: cow_open_def validate_overlay_header_def read_exact_at_def io_def unused_zero c_def)
  moreover have "cow_byte c i = base ! i" if "i < n * 512" for i
    using clean [OF byte_block [OF that]] by (simp add: cow_byte_def c_def)
  ultimately show thesis using that [of c] b by (simp add: c_def)
qed

lemma cow_reopen:
  assumes "cow_inv c"
  shows "cow_open (cw_base c) (cw_overlay c) (cow_blocks c) = Ok c"
proof -
  note h = cow_inv_header [OF assms]
  have n: "cow_header_new (cow_blocks c) = Ok (cw_header c)"
    and hd: "take 4096 (cw_overlay c) = cow_header_encode (cw_header c)"
    and bm: "take (oh_bitmap_len (cw_header c)) (drop 4096 (cw_overlay c)) = cw_bitmap c"
    and u: "validate_unused_bitmap_bits (cw_bitmap c) (cow_blocks c) = Ok ()"
    using assms by (simp_all add: cow_inv_def)
  have len: "4096 + length (cw_bitmap c) \<le> length (cw_overlay c)" using h(1,7) by simp
  then have ne: "cw_overlay c \<noteq> []" by auto
  have r1: "read_exact_at (cw_overlay c) 0 COW_HEADER_LEN = Ok (cow_header_encode (cw_header c))"
    using len hd by (simp add: read_exact_at_def COW_HEADER_LEN_def)
  have r2: "read_exact_at (cw_overlay c) 4096 (length (cw_bitmap c)) = Ok (cw_bitmap c)"
    using len bm h(6) by (simp add: read_exact_at_def)
  have lt: "\<not> length (cw_overlay c) < COW_HEADER_LEN" using len by (simp add: COW_HEADER_LEN_def)
  show ?thesis
    using ne lt r1 r2 h(4,6) u decode_encode [OF h(5)]
    by (simp add: cow_open_def n io_def validate_overlay_header_def)
qed

end
