(* ===== verification/BlkClaims.thy ===== *)
theory BlkClaims
  imports BlkWrites
begin

text \<open>
  The contract of block storage, met by raw files and overlays alike; vectored reads; the
  service of requests as a refinement of a flat disk; and the properties of the block
  backend.
\<close>

section \<open>The storage contract\<close>

locale block_store =
  fixes inv :: "'s \<Rightarrow> bool" and cap :: "'s \<Rightarrow> nat" and byte_at :: "'s \<Rightarrow> nat \<Rightarrow> byte"
    and readf :: "nat \<Rightarrow> byte list \<Rightarrow> 's \<Rightarrow> byte list \<times> (blk_error + unit)"
    and writef :: "nat \<Rightarrow> byte list \<Rightarrow> bool \<Rightarrow> 's \<Rightarrow> 's \<times> (blk_error + unit)"
  assumes read_law: "inv s \<Longrightarrow> off + length d \<le> cap s \<Longrightarrow>
      readf off d s = (map (byte_at s) [off..<off + length d], Ok ())"
    and write_law: "inv s \<Longrightarrow> off + length d \<le> cap s \<Longrightarrow>
      \<exists>s'. writef off d fua s = (s', Ok ()) \<and> inv s' \<and> cap s' = cap s \<and>
        (\<forall>i < cap s. byte_at s' i = (if off \<le> i \<and> i < off + length d then d ! (i - off) else byte_at s i))"
begin

definition disk :: "'s \<Rightarrow> byte list" where
  "disk s = map (byte_at s) [0..<cap s]"

lemma length_disk [simp]: "length (disk s) = cap s"
  by (simp add: disk_def)

lemma read_disk:
  assumes "inv s" and "off + length d \<le> cap s"
  shows "readf off d s = (take (length d) (drop off (disk s)), Ok ())"
proof -
  have "map (byte_at s) [off..<off + length d] = take (length d) (drop off (disk s))"
    using assms(2) by (intro nth_equalityI) (simp_all add: disk_def)
  then show ?thesis by (simp add: read_law [OF assms])
qed

lemma write_disk:
  assumes "inv s" and "off + length d \<le> cap s"
  shows "\<exists>s'. writef off d fua s = (s', Ok ()) \<and> inv s' \<and> cap s' = cap s \<and> disk s' = splice (disk s) off d"
proof -
  obtain s' where s': "writef off d fua s = (s', Ok ())" "inv s'" "cap s' = cap s"
    "\<And>i. i < cap s \<Longrightarrow> byte_at s' i = (if off \<le> i \<and> i < off + length d then d ! (i - off) else byte_at s i)"
    using write_law [OF assms] by blast
  have "disk s' ! i = splice (disk s) off d ! i" if "i < cap s" for i
    using s'(3,4) that assms(2) by (auto simp: disk_def splice_def nth_append)
  then have "disk s' = splice (disk s) off d"
    using assms(2) s'(3) by (intro nth_equalityI) (auto simp: splice_def)
  then show ?thesis using s' by blast
qed

end

text \<open>Raw files, overlays, and the storage of a backend meet it.\<close>

definition raw_read :: "nat \<Rightarrow> byte list \<Rightarrow> hfile \<Rightarrow> byte list \<times> (blk_error + unit)" where
  "raw_read off d f = storage_read_at off d (Raw f)"

definition raw_write :: "nat \<Rightarrow> byte list \<Rightarrow> bool \<Rightarrow> hfile \<Rightarrow> hfile \<times> (blk_error + unit)" where
  "raw_write off d fua f = (write_all_at f off d, Ok ())"

interpretation raw: block_store "\<lambda>f. length f < 2 ^ 62" length "(!)" raw_read raw_write
proof unfold_locales
  fix f :: hfile and off and d :: "byte list" assume "off + length d \<le> length f"
  moreover from this have "take (length d) (drop off f) = map ((!) f) [off..<off + length d]"
    by (intro nth_equalityI) simp_all
  ultimately show "raw_read off d f = (map ((!) f) [off..<off + length d], Ok ())"
    by (simp add: raw_read_def storage_read_at_def read_exact_at_def io_def)
next
  fix f :: hfile and off and d :: "byte list" and fua
  assume lt: "length f < 2 ^ 62" and le: "off + length d \<le> length f"
  have "length (write_all_at f off d) = length f" using le by (simp add: length_write_all_at)
  moreover from this have "write_all_at f off d ! i =
      (if off \<le> i \<and> i < off + length d then d ! (i - off) else f ! i)" if "i < length f" for i
    using nth_write_all_at [of i f off d] that by simp
  ultimately show "\<exists>s'. raw_write off d fua f = (s', Ok ()) \<and> length s' < 2 ^ 62 \<and> length s' = length f \<and>
      (\<forall>i < length f. s' ! i = (if off \<le> i \<and> i < off + length d then d ! (i - off) else f ! i))"
    using lt by (simp add: raw_write_def)
qed

definition cow_cap :: "cow \<Rightarrow> nat" where
  "cow_cap c = cow_blocks c * 512"

interpretation overlay: block_store cow_inv cow_cap cow_byte "\<lambda>off d c. cow_read_at c off d" cow_write_at
proof unfold_locales
  fix c off and d :: "byte list" and fua assume i: "cow_inv c" "off + length d \<le> cow_cap c"
  show "cow_read_at c off d = (map (cow_byte c) [off..<off + length d], Ok ())"
    by (rule cow_read_ok) (use i in \<open>simp_all add: cow_cap_def\<close>)
  show "\<exists>s'. cow_write_at off d fua c = (s', Ok ()) \<and> cow_inv s' \<and> cow_cap s' = cow_cap c \<and>
      (\<forall>i < cow_cap c. cow_byte s' i = (if off \<le> i \<and> i < off + length d then d ! (i - off) else cow_byte c i))"
    using cow_write_ok [OF i(1), of off d fua] i(2) by (auto simp: cow_cap_def)
qed

definition storage_inv :: "storage \<Rightarrow> bool" where
  "storage_inv st = (case st of Raw f \<Rightarrow> length f < 2 ^ 62 | Cow c \<Rightarrow> cow_inv c)"

definition storage_cap :: "storage \<Rightarrow> nat" where
  "storage_cap st = (case st of Raw f \<Rightarrow> length f | Cow c \<Rightarrow> cow_cap c)"

definition storage_byte :: "storage \<Rightarrow> nat \<Rightarrow> byte" where
  "storage_byte st i = (case st of Raw f \<Rightarrow> f ! i | Cow c \<Rightarrow> cow_byte c i)"

interpretation store: block_store storage_inv storage_cap storage_byte storage_read_at storage_write_at
proof unfold_locales
  fix st off and d :: "byte list" and fua assume i: "storage_inv st" "off + length d \<le> storage_cap st"
  show "storage_read_at off d st = (map (storage_byte st) [off..<off + length d], Ok ())"
  proof (cases st)
    case (Raw f)
    then show ?thesis using i raw.read_law [of f off d]
      by (simp add: storage_inv_def storage_cap_def storage_byte_def raw_read_def)
  next
    case (Cow c)
    then show ?thesis using i overlay.read_law [of c off d]
      by (simp add: storage_inv_def storage_cap_def storage_byte_def storage_read_at_def)
  qed
  show "\<exists>s'. storage_write_at off d fua st = (s', Ok ()) \<and> storage_inv s' \<and> storage_cap s' = storage_cap st \<and>
      (\<forall>i < storage_cap st. storage_byte s' i =
        (if off \<le> i \<and> i < off + length d then d ! (i - off) else storage_byte st i))"
  proof (cases st)
    case (Raw f)
    then show ?thesis using i raw.write_law [of f off d fua]
      by (auto simp: storage_inv_def storage_cap_def storage_byte_def raw_write_def storage_write_at_def)
  next
    case (Cow c)
    then obtain c' where "cow_write_at off d fua c = (c', Ok ())" "cow_inv c'" "cow_cap c' = cow_cap c"
      "\<forall>i < cow_cap c. cow_byte c' i = (if off \<le> i \<and> i < off + length d then d ! (i - off) else cow_byte c i)"
      using i overlay.write_law [of c off d fua] by (auto simp: storage_inv_def storage_cap_def)
    then show ?thesis using Cow
      by (intro exI [of _ "Cow c'"])
        (simp add: storage_inv_def storage_cap_def storage_byte_def storage_write_at_def)
  qed
qed

section \<open>Vectored reads\<close>

lemma length_iov_addrs [simp]: "length (iov_addrs iov) = iov_total iov"
  by (simp add: iov_addrs_def iov_total_def length_concat comp_def)

lemma iov_addrs_Cons: "iov_addrs (v # iov) = [iv_base v..<iv_base v + iv_len v] @ iov_addrs iov"
  by (simp add: iov_addrs_def)

lemma iov_addrs_advance: "iov_addrs (iov_advance n iov) = drop n (iov_addrs iov)"
  by (induction n iov rule: iov_advance.induct) (simp_all add: iov_addrs_Cons, simp add: iov_addrs_def)

lemma iov_addrs_filter: "iov_addrs (filter (\<lambda>v. 0 < iv_len v) iov) = iov_addrs iov"
  by (induction iov) (simp_all add: iov_addrs_def)

lemma scatter_append:
  "length as = length xs \<Longrightarrow> scatter mem (as @ bs) (xs @ ys) = scatter (scatter mem as xs) bs ys"
  by (simp add: scatter_def)

lemma scatter_prefix: "scatter mem (take (length xs) as) xs = scatter mem as xs"
proof -
  have "zip (take (length xs) as) xs = zip as xs" by (rule nth_equalityI) auto
  then show ?thesis by (simp add: scatter_def)
qed

lemma upt_slice: "drop i (take k [b..<b + n]) = [b + i..<b + min k n]"
  by (simp add: take_upt drop_upt min_def)

lemma iov_addrs_range:
  "iov_addrs (iov_range_from at iov s e) = drop (s - at) (take (e - at) (iov_addrs iov))"
proof (induction at iov s e rule: iov_range_from.induct)
  case (1 at s e)
  then show ?case by (simp add: iov_addrs_def)
next
  case (2 at v iov s e)
  have split: "drop (s - at) (take (e - at) (iov_addrs (v # iov))) =
      [iv_base v + (s - at)..<iv_base v + min (e - at) (iv_len v)] @
      drop (s - (at + iv_len v)) (take (e - (at + iv_len v)) (iov_addrs iov))"
    using upt_slice [of "s - at" "e - at" "iv_base v" "iv_len v"]
    by (cases "e - at \<le> iv_len v") (auto simp: iov_addrs_Cons min_def)
  show ?case
  proof (cases "at + iv_len v \<le> s \<or> e \<le> at")
    case True
    then have "[iv_base v + (s - at)..<iv_base v + min (e - at) (iv_len v)] = []" by auto
    then show ?thesis using True 2 split by (simp add: Let_def)
  next
    case False
    define lo where "lo = iv_base v + (s - at)"
    define hi where "hi = iv_base v + min (e - at) (iv_len v)"
    define b where "b = iv_base v + (max s at - at)"
    define n where "n = (min e (at + iv_len v) - at) - (max s at - at)"
    have "b = lo" by (simp add: b_def lo_def max_def)
    moreover have "b + n = hi \<or> (b + n \<le> lo \<and> hi \<le> lo)"
      using False by (auto simp: b_def n_def lo_def hi_def min_def max_def)
    ultimately have "[b..<b + n] = [lo..<hi]" by auto
    then show ?thesis
      using False 2 split by (simp add: Let_def iov_addrs_Cons b_def n_def lo_def hi_def)
  qed
qed

text \<open>Whatever counts the kernel returns, a vectored read fills the buffers in order.\<close>

lemma preadv_loop_ok:
  assumes "offset + iov_total iov \<le> length f" and "offset + iov_total iov < 2 ^ 63"
    and "\<forall>v \<in> set iov. 0 < iv_len v"
  shows "preadv_loop pick f iov offset mem =
    (scatter mem (iov_addrs iov) (take (iov_total iov) (drop offset f)), Ok ())"
  using assms
proof (induction "iov_total iov" arbitrary: iov offset mem rule: less_induct)
  case less
  show ?case
  proof (cases iov)
    case Nil
    then show ?thesis by (simp add: preadv_loop.simps iov_total_def iov_addrs_def scatter_def)
  next
    case (Cons v vs)
    define n where "n = preadv_count pick f offset (iov_total (take UIO_MAXIOV iov))"
    have "0 < iov_total (take UIO_MAXIOV iov)"
      using less.prems(3) Cons by (simp add: UIO_MAXIOV_def iov_total_def)
    moreover have "0 < iov_total iov" using less.prems(3) Cons by (simp add: iov_total_def)
    ultimately have n: "0 < n" "n \<le> iov_total iov"
      using less.prems(1) preadv_count_le [of pick f offset UIO_MAXIOV iov] by (auto simp: n_def preadv_count_def)
    have pos: "\<forall>v \<in> set (iov_advance n iov). 0 < iv_len v"
      using less.prems(3) by (induction n iov rule: iov_advance.induct) auto
    let ?mem = "scatter mem (iov_addrs iov) (take n (drop offset f))"
    have "preadv_loop pick f iov offset mem = preadv_loop pick f (iov_advance n iov) (offset + n) ?mem"
      unfolding preadv_loop.simps [of pick f iov offset mem] n_def [symmetric] Let_def
      using Cons less.prems(2) n(1) by (simp only: list.distinct if_False not_le [symmetric]) simp
    also have "\<dots> = (scatter ?mem (drop n (iov_addrs iov))
        (take (iov_total iov - n) (drop (offset + n) f)), Ok ())"
      using less.hyps [of "iov_advance n iov" "offset + n" ?mem] less.prems n pos
      by (simp add: iov_advance_total iov_addrs_advance)
    also have "scatter ?mem (drop n (iov_addrs iov)) (take (iov_total iov - n) (drop (offset + n) f)) =
        scatter mem (iov_addrs iov) (take (iov_total iov) (drop offset f))"
    proof -
      let ?x = "take n (drop offset f)" and ?y = "take (iov_total iov - n) (drop (offset + n) f)"
      have len: "length ?x = n" using less.prems(1) n(2) by simp
      have "?x @ ?y = take (iov_total iov) (drop offset f)"
        using n(2) take_add [of n "iov_total iov - n" "drop offset f"] by (simp add: add.commute)
      moreover have "scatter mem (take n (iov_addrs iov) @ drop n (iov_addrs iov)) (?x @ ?y) =
          scatter (scatter mem (take n (iov_addrs iov)) ?x) (drop n (iov_addrs iov)) ?y"
        by (rule scatter_append) (use len n(2) in simp)
      moreover have "scatter mem (take n (iov_addrs iov)) ?x = ?mem"
        using scatter_prefix [of mem ?x "iov_addrs iov"] len by simp
      ultimately show ?thesis by simp
    qed
    finally show ?thesis .
  qed
qed

lemma preadv_exact_ok:
  assumes "offset + iov_total iov \<le> length f" and "offset + iov_total iov < 2 ^ 63"
  shows "preadv_exact pick f iov offset mem =
    (scatter mem (iov_addrs iov) (take (iov_total iov) (drop offset f)), Ok ())"
proof -
  define vs where "vs = filter (\<lambda>v. 0 < iv_len v) iov"
  have a: "iov_addrs vs = iov_addrs iov" unfolding vs_def by (rule iov_addrs_filter)
  have t: "iov_total vs = iov_total iov" using arg_cong [OF a, of length] unfolding length_iov_addrs .
  have "preadv_loop pick f vs offset mem = (scatter mem (iov_addrs vs) (take (iov_total vs) (drop offset f)), Ok ())"
    by (rule preadv_loop_ok) (use assms in \<open>simp_all only: t\<close>, simp add: vs_def)
  then show ?thesis unfolding preadv_exact_def vs_def [symmetric] a t .
qed

lemma readv_run_ok:
  assumes inv: "cow_inv c" and lt: "start < fin" and le: "fin \<le> iov_total iov"
    and cap: "offset + fin \<le> cow_blocks c * 512"
    and same: "\<forall>j. start \<le> j \<longrightarrow> j < fin \<longrightarrow> dirty_bit (cw_bitmap c) ((offset + j) div 512) = d"
  shows "readv_run pick c offset iov d start fin mem =
    (scatter mem (drop start (take fin (iov_addrs iov))) (map (cow_byte c) [offset + start..<offset + fin]), Ok ())"
proof -
  obtain f source where f: "run_source c offset d start = Ok (f, source)"
    "source + (fin - start) \<le> length f" "source + (fin - start) < 2 ^ 63"
    "take (fin - start) (drop source f) = map (cow_byte c) [offset + start..<offset + fin]"
    by (rule run_source_bytes [OF inv lt cap same])
  have addrs: "iov_addrs (iov_range iov start fin) = drop start (take fin (iov_addrs iov))"
    by (simp add: iov_range_def iov_addrs_range)
  then have "iov_total (iov_range iov start fin) = fin - start"
    using le by (metis length_drop length_iov_addrs length_take min.absorb2)
  then show ?thesis
    using f preadv_exact_ok [of source "iov_range iov start fin" f pick mem] addrs
    by (simp add: readv_run_def io_def)
qed

lemma cow_read_vectored_ok:
  assumes inv: "cow_inv c" and le: "offset + iov_total iov \<le> cow_blocks c * 512"
  shows "cow_read_vectored_at pick c offset iov mem =
    (scatter mem (iov_addrs iov) (map (cow_byte c) [offset..<offset + iov_total iov]), Ok ())"
proof -
  let ?n = "iov_total iov"
  define T where "T e = scatter mem (take e (iov_addrs iov)) (map (cow_byte c) [offset..<offset + e])" for e
  have cover: "seg_cover offset 0 (block_segments offset ?n 0) ?n"
    using block_segments_cover [of offset 0 ?n] by simp
  have "read_runs (readv_run pick c offset iov) c (block_segments offset ?n 0) (T 0) = (T ?n, Ok ())"
  proof (rule read_runs_cover [OF cover request_blocks [OF inv le]])
    fix d start fin
    assume a: "start < fin" "fin \<le> ?n"
      "\<forall>j. start \<le> j \<longrightarrow> j < fin \<longrightarrow> dirty_bit (cw_bitmap c) ((offset + j) div 512) = d"
    have cap: "offset + fin \<le> cow_blocks c * 512" using a(2) le by linarith
    let ?A = "iov_addrs iov" and ?b = "\<lambda>i j. map (cow_byte c) [offset + i..<offset + j]"
    have "take start ?A @ drop start (take fin ?A) = take fin ?A"
      using a(1) by (metis append_take_drop_id min.absorb1 less_imp_le take_take)
    moreover have "?b 0 start @ ?b start fin = ?b 0 fin"
      using a(1) upt_add_eq_append [of offset "offset + start" "fin - start"] by simp
    moreover have "scatter mem (take start ?A @ drop start (take fin ?A)) (?b 0 start @ ?b start fin) =
        scatter (scatter mem (take start ?A) (?b 0 start)) (drop start (take fin ?A)) (?b start fin)"
      by (rule scatter_append) (use a(1,2) in simp)
    ultimately show "readv_run pick c offset iov d start fin (T start) = (T fin, Ok ())"
      using readv_run_ok [OF inv a(1,2) cap a(3), of pick "T start"] by (simp add: T_def)
  qed
  then show ?thesis by (simp add: cow_read_vectored_at_def T_def scatter_def)
qed

section \<open>Requests on a flat disk\<close>

text \<open>The operation of a request: its type without the barrier flag, the top bit.\<close>

definition req_op :: "blk_header \<Rightarrow> u32" where
  "req_op h = bh_type h mod 2 ^ 31"

text \<open>What a request does to an array of bytes: the status, the buffer and the array after it.\<close>

definition disk_request :: "bool \<Rightarrow> nat \<Rightarrow> blk_header \<Rightarrow> byte list \<Rightarrow> byte list \<Rightarrow> byte \<times> byte list \<times> byte list" where
  "disk_request ro sectors h data d =
     (let off = bh_sector h * 512;
          fits = (bh_sector h + max (length data div 512) 1 \<le> sectors)
      in if req_op h = T_FLUSH then (S_OK, data, d)
         else if req_op h = T_GET_ID then (S_OK, splice data 0 (take (min (length data) 20) blk_serial), d)
         else if req_op h = T_DISCARD \<or> req_op h = T_WRITE_ZEROES
         then (if fits then S_UNSUPP else S_IO_ERR, data, d)
         else if req_op h = T_IN \<and> fits \<and> off + length data \<le> sectors * 512
         then (S_OK, take (length data) (drop off d), d)
         else if req_op h = T_OUT \<and> \<not> ro \<and> fits \<and> off + length data \<le> sectors * 512
         then (S_OK, data, splice d off data)
         else (S_IO_ERR, data, d))"

definition backend_inv :: "backend \<Rightarrow> bool" where
  "backend_inv be \<longleftrightarrow> storage_inv (be_storage be) \<and> storage_cap (be_storage be) = be_sectors be * 512"

definition backend_disk :: "backend \<Rightarrow> byte list" where
  "backend_disk be = map (storage_byte (be_storage be)) [0..<be_sectors be * 512]"

definition header_ok :: "blk_header \<Rightarrow> bool" where
  "header_ok h \<longleftrightarrow> bh_type h < 2 ^ 32 \<and> bh_sector h < 2 ^ 64"

lemma backend_disk_store: "backend_inv be \<Longrightarrow> backend_disk be = store.disk (be_storage be)"
  by (simp add: backend_disk_def store.disk_def backend_inv_def)

lemma backend_small:
  assumes "backend_inv be"
  shows "be_sectors be * 512 < 2 ^ 62"
  using assms
  by (cases "be_storage be") (auto simp: backend_inv_def storage_inv_def storage_cap_def cow_cap_def cow_inv_def)

text \<open>The barrier flag is the top bit of the type.\<close>

lemma barrier_mod:
  assumes "header_ok h"
  shows "(if VIRTIO_BLK_T_BARRIER \<le> bh_type h then bh_type h - VIRTIO_BLK_T_BARRIER else bh_type h) =
    req_op h"
  using assms by (auto simp: req_op_def header_ok_def VIRTIO_BLK_T_BARRIER_def le_mod_geq)

definition known_op :: "nat \<Rightarrow> bool" where
  "known_op op \<longleftrightarrow> op \<in> {T_IN, T_OUT, T_FLUSH, T_GET_ID, T_DISCARD, T_WRITE_ZEROES}"

definition request_fits :: "nat \<Rightarrow> blk_header \<Rightarrow> nat \<Rightarrow> bool" where
  "request_fits sectors h n \<longleftrightarrow> bh_sector h + max (n div 512) 1 \<le> sectors"

lemma validate_req_eq:
  assumes "sectors * 512 < 2 ^ 62"
  shows "validate_req h n sectors =
    (if \<not> known_op (bh_type h) then Err (UnknownReqType (bh_type h))
     else if bh_type h = T_GET_ID \<or> bh_type h = T_FLUSH then Ok 0
     else if request_fits sectors h n then Ok (bh_sector h * 512)
     else Err (OutOfBounds (bh_sector h) (max (n div 512) 1) sectors))"
proof -
  define k where "k = max (n div 512) 1"
  have "(case checked_add 64 (bh_sector h) k of None \<Rightarrow> True | Some fin \<Rightarrow> sectors < fin) \<longleftrightarrow>
      \<not> bh_sector h + k \<le> sectors"
    using assms by (auto simp: checked_add_def)
  moreover have "checked_mul 64 (bh_sector h) 512 = Some (bh_sector h * 512)" if "bh_sector h + k \<le> sectors"
    using that assms by (simp add: checked_mul_def)
  ultimately show ?thesis
    unfolding validate_req_def known_op_def request_fits_def k_def [symmetric] Let_def by auto
qed

text \<open>The requests that pass validation.\<close>

definition accepts :: "backend \<Rightarrow> blk_header \<Rightarrow> nat \<Rightarrow> bool" where
  "accepts be h n \<longleftrightarrow>
     known_op (req_op h) \<and> (req_op h \<in> {T_FLUSH, T_GET_ID} \<or> request_fits (be_sectors be) h n) \<and>
     (req_op h \<in> {T_IN, T_OUT} \<longrightarrow> bh_sector h * 512 + n \<le> be_sectors be * 512)"

lemma validate_accept:
  assumes "backend_inv be" and "header_ok h" and "accepts be h n"
  shows "\<exists>fua. validate_service_req be h n =
    Ok (req_op h,
        if req_op h \<in> {T_FLUSH, T_GET_ID} then 0 else bh_sector h * 512, fua)"
proof -
  have v: "validate_req (h\<lparr>bh_type := req_op h\<rparr>) n (be_sectors be) =
      Ok (if req_op h \<in> {T_FLUSH, T_GET_ID} then 0 else bh_sector h * 512)"
    using assms(3) validate_req_eq [OF backend_small [OF assms(1)], of "h\<lparr>bh_type := req_op h\<rparr>" n]
    by (auto simp: accepts_def request_fits_def)
  have "bh_sector h * 512 + n < 2 ^ 64" "be_sectors be * 512 < 2 ^ 64" if "req_op h = T_IN \<or> req_op h = T_OUT"
    using assms(3) that backend_small [OF assms(1)] by (simp_all add: accepts_def)
  then show ?thesis
    using v assms(3)
    unfolding validate_service_req_def Let_def barrier_mod [OF assms(2)]
    by (auto simp: accepts_def checked_add_def checked_mul_def SECTOR_SIZE_def req_types)
qed

lemma validate_reject:
  assumes "backend_inv be" and "header_ok h" and "\<not> accepts be h n"
  shows "\<exists>e. validate_service_req be h n = Err e"
proof -
  have small: "be_sectors be * 512 < 2 ^ 64" using backend_small [OF assms(1)] by simp
  show ?thesis
  proof (cases "validate_req (h\<lparr>bh_type := req_op h\<rparr>) n (be_sectors be)")
    case (Inl e)
    then show ?thesis
      unfolding validate_service_req_def Let_def barrier_mod [OF assms(2)] by simp
  next
    case (Inr off)
    then have "known_op (req_op h)" "req_op h = T_FLUSH \<or> req_op h = T_GET_ID \<or> request_fits (be_sectors be) h n \<and> off = bh_sector h * 512"
      using validate_req_eq [OF backend_small [OF assms(1)], of "h\<lparr>bh_type := req_op h\<rparr>" n]
      by (auto simp: request_fits_def split: if_splits)
    then have io: "req_op h = T_IN \<or> req_op h = T_OUT" "\<not> bh_sector h * 512 + n \<le> be_sectors be * 512" "off = bh_sector h * 512"
      using assms(3) unfolding accepts_def by (auto simp: accepts_def req_types)
    then show ?thesis
      using Inr small
      unfolding validate_service_req_def Let_def barrier_mod [OF assms(2)]
      by (cases "off + n < 2 ^ 64") (auto simp: checked_add_def checked_mul_def SECTOR_SIZE_def)
  qed
qed

text \<open>Each kind of request, on the backend and on the array.\<close>

definition refines_request :: "blk_header \<Rightarrow> byte list \<Rightarrow> backend \<Rightarrow> bool" where
  "refines_request h data be \<longleftrightarrow>
     (case disk_request (be_read_only be) (be_sectors be) h data (backend_disk be) of (status, data', d) \<Rightarrow>
        \<exists>be'. service h data be = Served status data' be' \<and> backend_inv be' \<and>
          be_sectors be' = be_sectors be \<and> be_read_only be' = be_read_only be \<and> backend_disk be' = d)"

lemma refines_same:
  assumes "backend_inv be" and "service h data be = Served status data' be"
    and "disk_request (be_read_only be) (be_sectors be) h data (backend_disk be) = (status, data', backend_disk be)"
  shows "refines_request h data be"
  using assms by (simp add: refines_request_def)

lemma service_reject:
  assumes "backend_inv be" and "header_ok h" and "\<not> accepts be h (length data)"
  shows "refines_request h data be"
proof (rule refines_same [OF assms(1)])
  show "service h data be = Served S_IO_ERR data be"
    using validate_reject [OF assms] by (auto simp: service_def)
  show "disk_request (be_read_only be) (be_sectors be) h data (backend_disk be) = (S_IO_ERR, data, backend_disk be)"
    using assms(3) by (auto simp: disk_request_def accepts_def Let_def known_op_def request_fits_def req_types)
qed

lemma accepted_io:
  assumes "accepts be h n" and "req_op h = T_IN \<or> req_op h = T_OUT"
  shows "bh_sector h * 512 + n \<le> be_sectors be * 512" and "request_fits (be_sectors be) h n"
  using assms by (auto simp: accepts_def req_types)

lemma service_in:
  assumes inv: "backend_inv be" and "header_ok h" and acc: "accepts be h (length data)" and op: "req_op h = T_IN"
  shows "refines_request h data be"
proof (rule refines_same [OF inv])
  let ?off = "bh_sector h * 512"
  let ?r = "take (length data) (drop ?off (backend_disk be))"
  obtain fua where v: "validate_service_req be h (length data) = Ok (T_IN, ?off, fua)"
    using validate_accept [OF assms(1-3)] op by (auto simp: req_types)
  have "storage_read_at ?off data (be_storage be) = (?r, Ok ())"
    using store.read_disk [of "be_storage be" ?off data] inv accepted_io(1) [OF acc] op
    by (simp add: backend_disk_store [OF inv] backend_inv_def)
  then show "service h data be = Served S_OK ?r be" using v by (simp add: service_def status_of_def)
  show "disk_request (be_read_only be) (be_sectors be) h data (backend_disk be) = (S_OK, ?r, backend_disk be)"
    using op accepted_io [OF acc] by (simp add: disk_request_def Let_def request_fits_def req_types)
qed

lemma service_out:
  assumes inv: "backend_inv be" and "header_ok h" and acc: "accepts be h (length data)" and op: "req_op h = T_OUT"
  shows "refines_request h data be"
proof -
  let ?off = "bh_sector h * 512"
  obtain fua where v: "validate_service_req be h (length data) = Ok (T_OUT, ?off, fua)"
    using validate_accept [OF assms(1-3)] op by (auto simp: req_types)
  obtain st where st: "storage_write_at ?off data fua (be_storage be) = (st, Ok ())" "storage_inv st"
    "storage_cap st = storage_cap (be_storage be)" "store.disk st = splice (store.disk (be_storage be)) ?off data"
    using store.write_disk [of "be_storage be" ?off data fua] inv accepted_io(1) [OF acc] op
    by (auto simp: backend_inv_def)
  define be' where "be' = be\<lparr>be_storage := st\<rparr>"
  have inv': "backend_inv be'" using st inv by (simp add: backend_inv_def be'_def)
  have D: "backend_disk be' = splice (backend_disk be) ?off data"
    using backend_disk_store [OF inv'] backend_disk_store [OF inv] st(4) by (simp add: be'_def)
  show ?thesis
  proof (cases "be_read_only be")
    case True
    then show ?thesis using v op inv
      by (intro refines_same [of be h data S_IO_ERR data])
        (simp_all add: service_def disk_request_def Let_def req_types)
  next
    case False
    then have "service h data be = Served S_OK data be'"
      using v st(1) by (simp add: service_def req_types status_of_def be'_def)
    moreover have "disk_request (be_read_only be) (be_sectors be) h data (backend_disk be) =
        (S_OK, data, splice (backend_disk be) ?off data)"
      using False op accepted_io [OF acc] by (simp add: disk_request_def Let_def request_fits_def req_types)
    ultimately show ?thesis using inv' D by (simp add: refines_request_def be'_def)
  qed
qed

lemma service_other:
  assumes inv: "backend_inv be" and "header_ok h" and acc: "accepts be h (length data)"
    and op: "req_op h \<notin> {T_IN, T_OUT}"
  shows "refines_request h data be"
proof -
  have fl: "storage_flush (be_storage be) = (be_storage be, Ok ())"
    by (cases "be_storage be") (simp_all add: storage_flush_def cow_flush_def)
  obtain off fua where v: "validate_service_req be h (length data) = Ok (req_op h, off, fua)"
    using validate_accept [OF assms(1-3)] by blast
  let ?d = "disk_request (be_read_only be) (be_sectors be) h data (backend_disk be)"
  have k: "req_op h \<in> {T_FLUSH, T_GET_ID} \<or> req_op h \<in> {T_DISCARD, T_WRITE_ZEROES} \<and> request_fits (be_sectors be) h (length data)"
    using acc op by (auto simp: accepts_def known_op_def)
  have "be\<lparr>be_storage := be_storage be\<rparr> = be" by simp
  then have "service h data be = Served (fst ?d) (fst (snd ?d)) be \<and> snd (snd ?d) = backend_disk be"
    using k v fl
    by (auto simp: service_def disk_request_def Let_def request_fits_def req_types status_of_def)
  then show ?thesis using inv by (auto simp: refines_request_def split: prod.splits)
qed

lemma service_refines:
  assumes "backend_inv be" and "header_ok h"
  shows "refines_request h data be"
  using service_reject [OF assms] service_in [OF assms] service_out [OF assms] service_other [OF assms]
  by (cases "accepts be h (length data)") blast+

text \<open>Scattered reads agree with reads into a buffer.\<close>

lemma vectored_reads:
  assumes "backend_inv be" and "header_ok h" and "req_op h = T_IN" and "length data = iov_total iov"
  shows "\<exists>status data'. service h data be = Served status data' be \<and>
    service_read_into pick h iov mem be =
      ServedInto status (if status = S_OK then scatter mem (iov_addrs iov) data' else mem)"
proof (cases "accepts be h (iov_total iov)")
  case False
  then obtain e where e: "validate_service_req be h (iov_total iov) = Err e"
    using validate_reject [OF assms(1,2)] by blast
  then have "service h data be = Served S_IO_ERR data be" using assms(4) by (simp add: service_def)
  moreover have "service_read_into pick h iov mem be = ServedInto S_IO_ERR mem"
    using e by (simp add: service_read_into_def)
  ultimately show ?thesis by (simp add: statuses)
next
  case True
  let ?off = "bh_sector h * 512" and ?n = "iov_total iov" and ?st = "be_storage be"
  obtain fua where v: "validate_service_req be h ?n = Ok (T_IN, ?off, fua)"
    using validate_accept [OF assms(1,2) True] assms(3) by (auto simp: req_types)
  have le: "?off + ?n \<le> storage_cap ?st" and inv: "storage_inv ?st"
    using accepted_io(1) [OF True] assms(1,3) by (simp_all add: backend_inv_def)
  let ?bytes = "map (storage_byte ?st) [?off..<?off + ?n]"
  have "service h data be = Served S_OK ?bytes be"
    using v store.read_law [OF inv, of ?off data] le assms(4) by (simp add: service_def status_of_def)
  moreover have "service_read_into pick h iov mem be = ServedInto S_OK (scatter mem (iov_addrs iov) ?bytes)"
  proof (cases ?st)
    case (Raw f)
    have "take ?n (drop ?off f) = ?bytes"
      using le Raw by (intro nth_equalityI) (simp_all add: storage_cap_def storage_byte_def)
    moreover have "?off + ?n \<le> length f" "?off + ?n < 2 ^ 63"
      using le inv Raw by (simp_all add: storage_cap_def storage_inv_def)
    ultimately show ?thesis
      using v Raw assms(3) preadv_exact_ok [of ?off iov f pick mem]
      by (simp add: service_read_into_def barrier_mod [OF assms(2)] io_def)
  next
    case (Cow c)
    have "storage_byte ?st = cow_byte c" by (simp add: Cow fun_eq_iff storage_byte_def)
    then show ?thesis
      using Cow v le inv assms(3) cow_read_vectored_ok [of c ?off iov pick mem]
      by (simp add: service_read_into_def barrier_mod [OF assms(2)] storage_inv_def storage_cap_def
          cow_cap_def)
  qed
  ultimately show ?thesis by (simp add: statuses)
qed

section \<open>A concrete disk\<close>

text \<open>A fresh overlay over two sectors, and a write of one byte into the second.\<close>

definition ex_base :: hfile where "ex_base = replicate 1024 7"

definition ex_write :: blk_header where "ex_write = \<lparr>bh_type = 1, bh_reserved = 0, bh_sector = 1\<rparr>"

definition ex_read :: blk_header where "ex_read = \<lparr>bh_type = 0, bh_reserved = 0, bh_sector = 1\<rparr>"

lemma ex_open:
  obtains be where "open_cow ex_base [] = Ok be" and "backend_inv be" and "be_sectors be = 2"
    and "\<not> be_read_only be" and "backend_disk be = ex_base"
proof -
  obtain c where c: "cow_open ex_base [] 2 = Ok c" "cow_inv c" "cow_blocks c = 2"
    "\<And>i. i < 1024 \<Longrightarrow> cow_byte c i = ex_base ! i"
    using cow_open_fresh [of ex_base 2] by (auto simp: ex_base_def)
  define be where "be = \<lparr>be_storage = Cow c, be_read_only = False, be_sectors = 2\<rparr>"
  have "open_cow ex_base [] = Ok be"
    using c(1) by (simp add: open_cow_def ex_base_def SECTOR_SIZE_def be_def)
  moreover have "backend_inv be"
    using c by (simp add: backend_inv_def be_def storage_inv_def storage_cap_def cow_cap_def)
  moreover have "backend_disk be = ex_base"
    by (rule nth_equalityI) (simp_all add: backend_disk_def be_def storage_byte_def c(4) ex_base_def)
  ultimately show thesis using that by (simp add: be_def)
qed

section \<open>Properties\<close>

text \<open>
  C3: serving a request on a raw file or a copy-on-write overlay refines serving it on a flat
  array of bytes, for every request header and buffer: the status, the buffer and the content
  of the disk afterwards are those of the array, out-of-range, unknown and read-only requests
  are refused without effect, the backend's invariant is kept and the service never panics.
\<close>

theorem service_refines_disk:
  assumes "backend_inv be" and "header_ok h"
    and "disk_request (be_read_only be) (be_sectors be) h data (backend_disk be) = (status, data', d)"
  shows "\<exists>be'. service h data be = Served status data' be' \<and> backend_inv be' \<and>
    be_sectors be' = be_sectors be \<and> be_read_only be' = be_read_only be \<and> backend_disk be' = d"
  using service_refines [OF assms(1,2), of data] assms(3) by (simp add: refines_request_def)

theorem service_refines_disk_witness:
  "\<exists>be be'. open_cow ex_base [] = Ok be \<and> service ex_write [9] be = Served S_OK [9] be' \<and>
     backend_disk be' = splice ex_base 512 [9]"
proof -
  obtain be where be: "open_cow ex_base [] = Ok be" "backend_inv be" "be_sectors be = 2"
    "\<not> be_read_only be" "backend_disk be = ex_base" by (rule ex_open)
  have h: "header_ok ex_write" by (simp add: header_ok_def ex_write_def)
  have "disk_request (be_read_only be) (be_sectors be) ex_write [9] (backend_disk be) =
      (S_OK, [9], splice ex_base 512 [9])"
    using be(3-5) by (simp add: disk_request_def ex_write_def req_op_def req_types)
  from service_refines_disk [OF be(2) h this] show ?thesis using be(1) by blast
qed

text \<open>
  C14: an overlay is durable: closing a copy-on-write device after any sequence of requests and
  opening it again from its two files gives back the very same device, and a fresh overlay
  reads as its base image.
\<close>

theorem overlay_reopens:
  assumes "cow_inv c"
  shows "cow_open (cw_base c) (cw_overlay c) (oh_blocks (cw_header c)) = Ok c \<and>
    (\<forall>offset data fua. offset + length data \<le> oh_blocks (cw_header c) * 512 \<longrightarrow>
       (let c' = fst (cow_write_at offset data fua c) in
        cow_open (cw_base c') (cw_overlay c') (oh_blocks (cw_header c)) = Ok c')) \<and>
    (\<exists>c0. cow_open (cw_base c) [] (oh_blocks (cw_header c)) = Ok c0 \<and>
       (\<forall>i < oh_blocks (cw_header c) * 512. cow_byte c0 i = cw_base c ! i))"
proof -
  have "cow_open (cw_base c') (cw_overlay c') (cow_blocks c) = Ok c'"
    if le: "offset + length data \<le> cow_blocks c * 512" and "c' = fst (cow_write_at offset data fua c)"
    for offset data fua c'
  proof -
    obtain c1 where "cow_write_at offset data fua c = (c1, Ok ())" "cow_inv c1" "cw_header c1 = cw_header c"
      using cow_write_ok [OF assms le] by blast
    then show ?thesis using that(2) cow_reopen [of c1] by simp
  qed
  moreover have "length (cw_base c) = cow_blocks c * 512" "cow_blocks c * 512 < 2 ^ 62"
    using assms by (simp_all add: cow_inv_def)
  then obtain c0 where "cow_open (cw_base c) [] (cow_blocks c) = Ok c0"
    "\<And>i. i < cow_blocks c * 512 \<Longrightarrow> cow_byte c0 i = cw_base c ! i"
    by (rule cow_open_fresh) blast
  ultimately show ?thesis using cow_reopen [OF assms] by (auto simp: Let_def)
qed

theorem overlay_reopens_witness:
  "\<exists>c. cow_open ex_base [] 2 = Ok c \<and> cow_open ex_base (cw_overlay c) 2 = Ok c"
proof -
  obtain c where c: "cow_open ex_base [] 2 = Ok c" "cow_inv c" "cow_blocks c = 2"
    using cow_open_fresh [of ex_base 2] by (auto simp: ex_base_def)
  have "cw_base c = ex_base" using c(1) by (auto simp: cow_open_def bindR_Inr_iff)
  then show ?thesis using overlay_reopens [OF c(2)] c(1,3) by auto
qed

text \<open>
  C15: reading straight into guest buffers is equivalent to reading into a bounce buffer and
  copying: however the guest scattered the buffers and whatever counts the kernel returns, the
  status is the same, on success the bytes land in the buffers in order, and on refusal memory
  is untouched.
\<close>

theorem vectored_read_agrees:
  assumes "backend_inv be" and "header_ok h" and "req_op h = T_IN" and "length data = iov_total iov"
  shows "\<exists>status data'. service h data be = Served status data' be \<and>
    service_read_into pick h iov mem be =
      ServedInto status (if status = S_OK then scatter mem (iov_addrs iov) data' else mem)"
  by (rule vectored_reads [OF assms])

theorem vectored_read_agrees_witness:
  "\<exists>be status data'. open_cow ex_base [] = Ok be \<and> service ex_read [0, 0] be = Served status data' be \<and>
     service_read_into (\<lambda>_. 1) ex_read [\<lparr>iv_base = 8, iv_len = 1\<rparr>, \<lparr>iv_base = 3, iv_len = 1\<rparr>] (\<lambda>_. 0) be =
       ServedInto status (if status = S_OK then scatter (\<lambda>_. 0) [8, 3] data' else (\<lambda>_. 0))"
proof -
  obtain be where be: "open_cow ex_base [] = Ok be" "backend_inv be" by (rule ex_open)
  have h: "header_ok ex_read" "req_op ex_read = T_IN"
    by (simp_all add: header_ok_def ex_read_def req_op_def req_types)
  let ?iov = "[\<lparr>iv_base = 8, iv_len = 1\<rparr>, \<lparr>iv_base = 3, iv_len = 1\<rparr>]"
  have "length [0, 0 :: byte] = iov_total ?iov" by (simp add: iov_total_def)
  from vectored_read_agrees [OF be(2) h this, of "\<lambda>_. 1" "\<lambda>_. 0"] be(1) show ?thesis
    by (auto simp: iov_addrs_def)
qed

text \<open>
  The overlay header survives its encoding: every header whose fields fit their 64-bit
  slots decodes to itself from the 4096 bytes written.
\<close>

theorem overlay_header_roundtrip:
  assumes "oh_base_len h < 2 ^ 64" and "oh_blocks h < 2 ^ 64" and "oh_bitmap_offset h < 2 ^ 64"
    and "oh_bitmap_len h < 2 ^ 64" and "oh_data_offset h < 2 ^ 64"
  shows "cow_header_decode (cow_header_encode h) = Ok h \<and> length (cow_header_encode h) = COW_HEADER_LEN"
  using decode_encode [of h] assms by (simp add: header_fits_def)

theorem overlay_header_roundtrip_witness:
  "cow_header_decode (cow_header_encode \<lparr>oh_base_len = 1024, oh_blocks = 2, oh_bitmap_offset = 4096,
     oh_bitmap_len = 1, oh_data_offset = 4608\<rparr>) =
   Ok \<lparr>oh_base_len = 1024, oh_blocks = 2, oh_bitmap_offset = 4096, oh_bitmap_len = 1, oh_data_offset = 4608\<rparr>"
  using overlay_header_roundtrip [of "\<lparr>oh_base_len = 1024, oh_blocks = 2, oh_bitmap_offset = 4096,
     oh_bitmap_len = 1, oh_data_offset = 4608\<rparr>"] by simp

end
