(* ===== verification/Float64.thy ===== *)
theory Float64
  imports Complex_Main Prelude "HOL-Library.Log_Nat"
begin

text \<open>
  The double-precision arithmetic the Rust code uses on quantities that are never negative:
  IEEE 754 binary64 with round-to-nearest-even. Values are exact rationals. The exponent is
  unbounded, which agrees with binary64 on every value between the least normal number and
  the greatest finite one; the code's operands are integers below \<open>2 ^ 64\<close> and their
  quotients and products, far inside that range.
\<close>

datatype f64 = Finite rat | Infinite | NotANumber

text \<open>The exponent of the leading bit of a positive rational.\<close>

definition exponent :: "rat \<Rightarrow> int" where
  "exponent q = (if 1 \<le> q then bitlen \<lfloor>q\<rfloor> - 1 else - bitlen (\<lceil>1 / q\<rceil> - 1))"

definition two_power :: "int \<Rightarrow> rat" where
  "two_power e = (if 0 \<le> e then 2 ^ nat e else 1 / 2 ^ nat (- e))"

definition round_even :: "rat \<Rightarrow> int" where
  "round_even q =
     (let n = \<lfloor>q\<rfloor>; r = q - of_int n in
      if r < 1 / 2 \<or> r = 1 / 2 \<and> even n then n else n + 1)"

definition f64_round :: "rat \<Rightarrow> f64" where
  "f64_round q =
     (if q \<le> 0 then Finite 0
      else let ulp = two_power (exponent q - 52) in Finite (of_int (round_even (q / ulp)) * ulp))"

definition f64_of_nat :: "nat \<Rightarrow> f64" where
  "f64_of_nat n = f64_round (of_nat n)"

fun f64_mul :: "f64 \<Rightarrow> f64 \<Rightarrow> f64" where
  "f64_mul (Finite a) (Finite b) = f64_round (a * b)"
| "f64_mul NotANumber _ = NotANumber"
| "f64_mul _ NotANumber = NotANumber"
| "f64_mul Infinite (Finite b) = (if b = 0 then NotANumber else Infinite)"
| "f64_mul (Finite a) Infinite = (if a = 0 then NotANumber else Infinite)"
| "f64_mul Infinite Infinite = Infinite"

fun f64_div :: "f64 \<Rightarrow> f64 \<Rightarrow> f64" where
  "f64_div (Finite a) (Finite b) =
     (if b = 0 then if a = 0 then NotANumber else Infinite else f64_round (a / b))"
| "f64_div NotANumber _ = NotANumber"
| "f64_div _ NotANumber = NotANumber"
| "f64_div Infinite (Finite b) = Infinite"
| "f64_div (Finite a) Infinite = Finite 0"
| "f64_div Infinite Infinite = NotANumber"

fun f64_add :: "f64 \<Rightarrow> f64 \<Rightarrow> f64" where
  "f64_add (Finite a) (Finite b) = f64_round (a + b)"
| "f64_add NotANumber _ = NotANumber"
| "f64_add _ NotANumber = NotANumber"
| "f64_add _ _ = Infinite"

fun f64_le :: "f64 \<Rightarrow> f64 \<Rightarrow> bool" where
  "f64_le (Finite a) (Finite b) = (a \<le> b)"
| "f64_le NotANumber _ = False"
| "f64_le _ NotANumber = False"
| "f64_le _ Infinite = True"
| "f64_le Infinite (Finite _) = False"

text \<open>The cast \<open>as u64\<close> truncates, saturates and sends NaN to zero.\<close>

fun f64_to_u64 :: "f64 \<Rightarrow> nat" where
  "f64_to_u64 (Finite a) = min (nat \<lfloor>a\<rfloor>) (2 ^ 64 - 1)"
| "f64_to_u64 Infinite = 2 ^ 64 - 1"
| "f64_to_u64 NotANumber = 0"

lemma two_power_pos [simp]: "0 < two_power e"
  by (simp add: two_power_def)

lemma round_even_int [simp]: "round_even (of_int n) = n"
  by (simp add: round_even_def Let_def)

text \<open>Integers of at most 53 bits are exact.\<close>

lemma f64_of_nat_exact:
  assumes "n < 2 ^ 53"
  shows "f64_of_nat n = Finite (of_nat n)"
proof (cases "n = 0")
  case False
  then have "bitlen (int n) \<le> 53"
    using assms by (simp add: bitlen_le_iff_power)
  moreover have "(1::rat) \<le> of_nat n" using False by simp
  ultimately have "exponent (of_nat n) - 52 \<le> 0" by (simp add: exponent_def)
  then obtain k where "exponent (of_nat n) - 52 = - int k"
    by (metis nonneg_int_cases neg_0_le_iff_le minus_minus)
  then have "two_power (exponent (of_nat n) - 52) = 1 / 2 ^ k"
    by (auto simp: two_power_def)
  moreover have "of_nat n / (1 / 2 ^ k) = (of_int (int n * 2 ^ k) :: rat)" by simp
  moreover have "of_int (int n * 2 ^ k) * (1 / 2 ^ k) = (of_nat n :: rat)" by simp
  ultimately show ?thesis
    using False by (simp only: f64_of_nat_def f64_round_def Let_def round_even_int) simp
qed (simp add: f64_of_nat_def f64_round_def)

end
