(* ===== verification/Snapshot.thy ===== *)
theory Snapshot
  imports Dirty Stdlib Float64 "HOL-Library.List_Lexorder" "HOL-Library.Char_ord"
begin

text \<open>
  Snapshots (\<open>vmm-snapshot/src\<close>): the container with its CRCs and its validation, the
  device-state blob, diff snapshots and their replay, the pre-copy loop of a live snapshot,
  and clone plans. CRC32 and the postcard codec are third-party crates, parameters
  \<open>crc\<close> and \<open>enc\<close>, \<open>dec\<close>.
\<close>

section \<open>Container\<close>

definition SNAP_MAGIC :: "byte list" where "SNAP_MAGIC = [0x56, 0x4d, 0x53, 0x4e]"
definition SNAP_VERSION :: u16 where "SNAP_VERSION = 1"
definition FLAG_DIFF :: u16 where "FLAG_DIFF = 1"

definition flags_contains :: "u16 \<Rightarrow> u16 \<Rightarrow> bool" where
  "flags_contains flags b \<longleftrightarrow> flags AND b \<noteq> 0"

record snapshot_meta =
  sm_magic :: "byte list"
  sm_version :: u16
  sm_flags :: u16
  sm_state_len :: u64
  sm_state_crc :: u32
  sm_mem_len :: u64
  sm_mem_crc :: u32

record snapshot =
  sn_meta :: snapshot_meta
  sn_state :: "byte list"
  sn_mem :: "byte list"

definition snapshot_meta_new :: "u64 \<Rightarrow> u32 \<Rightarrow> u64 \<Rightarrow> u32 \<Rightarrow> bool \<Rightarrow> snapshot_meta" where
  "snapshot_meta_new state_len state_crc mem_len mem_crc diff =
     \<lparr>sm_magic = SNAP_MAGIC, sm_version = SNAP_VERSION, sm_flags = (if diff then FLAG_DIFF else 0),
      sm_state_len = state_len, sm_state_crc = state_crc, sm_mem_len = mem_len, sm_mem_crc = mem_crc\<rparr>"

definition is_diff :: "snapshot_meta \<Rightarrow> bool" where
  "is_diff meta = flags_contains (sm_flags meta) FLAG_DIFF"

definition create_snapshot :: "(byte list \<Rightarrow> u32) \<Rightarrow> byte list \<Rightarrow> byte list \<Rightarrow> bool \<Rightarrow> snapshot" where
  "create_snapshot crc state_blob mem diff =
     \<lparr>sn_meta = snapshot_meta_new (length state_blob) (crc state_blob) (length mem) (crc mem) diff,
      sn_state = state_blob, sn_mem = mem\<rparr>"

definition crc_verify :: "(byte list \<Rightarrow> u32) \<Rightarrow> byte list \<Rightarrow> u32 \<Rightarrow> bool" where
  "crc_verify crc bytes expected \<longleftrightarrow> crc bytes = expected"

datatype restore_error =
  BadMagic "byte list" "byte list" | BadVersion u16 | StateCrc u32 u32 | MemCrc u32 u32
| StateLength u64 u64 | MemLength u64 u64

definition validate_snapshot :: "(byte list \<Rightarrow> u32) \<Rightarrow> snapshot \<Rightarrow> restore_error + unit" where
  "validate_snapshot crc snap =
     (let meta = sn_meta snap in
      if sm_magic meta \<noteq> SNAP_MAGIC then Err (BadMagic SNAP_MAGIC (sm_magic meta))
      else if sm_version meta \<noteq> SNAP_VERSION then Err (BadVersion (sm_version meta))
      else if sm_state_len meta \<noteq> length (sn_state snap)
      then Err (StateLength (sm_state_len meta) (length (sn_state snap)))
      else if sm_mem_len meta \<noteq> length (sn_mem snap)
      then Err (MemLength (sm_mem_len meta) (length (sn_mem snap)))
      else if \<not> crc_verify crc (sn_state snap) (sm_state_crc meta)
      then Err (StateCrc (sm_state_crc meta) (crc (sn_state snap)))
      else if \<not> crc_verify crc (sn_mem snap) (sm_mem_crc meta)
      then Err (MemCrc (sm_mem_crc meta) (crc (sn_mem snap)))
      else Ok ())"

section \<open>Device state\<close>

definition SCHEMA_VERSION :: u16 where "SCHEMA_VERSION = 1"
definition MAX_DEVICE_STATE_BLOB_BYTES :: usize where "MAX_DEVICE_STATE_BLOB_BYTES = 64 * 1024 * 1024"
definition MAX_DEVICE_STATE_ENTRIES :: usize where "MAX_DEVICE_STATE_ENTRIES = 1024"
definition MAX_DEVICE_STATE_KEY_BYTES :: usize where "MAX_DEVICE_STATE_KEY_BYTES = 256"
definition MAX_DEVICE_STATE_ENTRY_BYTES :: usize where "MAX_DEVICE_STATE_ENTRY_BYTES = 16 * 1024 * 1024"

record state_blob =
  bl_schema :: u16
  bl_entries :: "(string, byte list) btree"

datatype state_error =
  Encode string | Decode string | BlobTooLarge nat nat | TooManyEntries nat nat
| KeyTooLarge string nat nat | EntryTooLarge string nat nat | SchemaMismatch u16 u16
| Missing string | Restore string string

definition blob_new :: state_blob where
  "blob_new = \<lparr>bl_schema = SCHEMA_VERSION, bl_entries = []\<rparr>"

primrec entries_bounds :: "(string \<times> byte list) list \<Rightarrow> state_error + unit" where
  "entries_bounds [] = Ok ()"
| "entries_bounds (kv # kvs) =
     (if MAX_DEVICE_STATE_KEY_BYTES < length (fst kv)
      then Err (KeyTooLarge (fst kv) (length (fst kv)) MAX_DEVICE_STATE_KEY_BYTES)
      else if MAX_DEVICE_STATE_ENTRY_BYTES < length (snd kv)
      then Err (EntryTooLarge (fst kv) (length (snd kv)) MAX_DEVICE_STATE_ENTRY_BYTES)
      else entries_bounds kvs)"

definition validate_bounds :: "state_blob \<Rightarrow> state_error + unit" where
  "validate_bounds b =
     (if MAX_DEVICE_STATE_ENTRIES < length (bl_entries b)
      then Err (TooManyEntries (length (bl_entries b)) MAX_DEVICE_STATE_ENTRIES)
      else entries_bounds (bl_entries b))"

text \<open>A device to collect: its key, and its state encoded or the error of saving it.\<close>

primrec collect_entries ::
  "(string \<times> (string + byte list)) list \<Rightarrow> state_blob \<Rightarrow> state_error + state_blob" where
  "collect_entries [] b = Ok b"
| "collect_entries (dev # devs) b =
     (case snd dev of
        Inl e \<Rightarrow> Err (Encode (fst dev @ '': '' @ e))
      | Inr bytes \<Rightarrow> collect_entries devs (b\<lparr>bl_entries := bt_insert (fst dev) bytes (bl_entries b)\<rparr>))"

definition collect_blob :: "(string \<times> (string + byte list)) list \<Rightarrow> state_error + state_blob" where
  "collect_blob devs =
     bindR (collect_entries devs blob_new) (\<lambda>b. bindR (validate_bounds b) (\<lambda>_. Ok b))"

definition blob_to_bytes :: "(state_blob \<Rightarrow> string + byte list) \<Rightarrow> state_blob \<Rightarrow> state_error + byte list" where
  "blob_to_bytes enc b =
     bindR (validate_bounds b) (\<lambda>_.
     case enc b of
       Inl e \<Rightarrow> Err (Encode e)
     | Inr bytes \<Rightarrow>
         if MAX_DEVICE_STATE_BLOB_BYTES < length bytes
         then Err (BlobTooLarge (length bytes) MAX_DEVICE_STATE_BLOB_BYTES) else Ok bytes)"

definition blob_from_bytes :: "(byte list \<Rightarrow> string + state_blob) \<Rightarrow> byte list \<Rightarrow> state_error + state_blob" where
  "blob_from_bytes dec bytes =
     (if MAX_DEVICE_STATE_BLOB_BYTES < length bytes
      then Err (BlobTooLarge (length bytes) MAX_DEVICE_STATE_BLOB_BYTES)
      else case dec bytes of
        Inl e \<Rightarrow> Err (Decode e)
      | Inr b \<Rightarrow>
          if bl_schema b \<noteq> SCHEMA_VERSION then Err (SchemaMismatch (bl_schema b) SCHEMA_VERSION)
          else bindR (validate_bounds b) (\<lambda>_. Ok b))"

definition blob_get :: "string \<Rightarrow> state_blob \<Rightarrow> byte list option" where
  "blob_get key b = map_of (bl_entries b) key"

section \<open>Diffs\<close>

definition MAX_DIFF_APPLY_BYTES :: u64 where "MAX_DIFF_APPLY_BYTES = 2 ^ 40"

record page_delta =
  pd_gpa :: u64
  pd_bytes :: "byte list"

record diff_snapshot =
  df_pages :: "page_delta list"
  df_state :: "byte list"

datatype diff_error =
  GpaTooLarge u64 | RangeOverflow u64 nat | ResizeTooLarge u64 u64 | Allocation u64

text \<open>One dirty page; \<open>None\<close> is skipped.\<close>

definition delta_of :: "byte list \<Rightarrow> u64 \<Rightarrow> page_delta option" where
  "delta_of mem pfn =
     Option.bind (checked_mul 64 pfn PAGE_SIZE) (\<lambda>start.
     if length mem \<le> start then None
     else Some \<lparr>pd_gpa = start, pd_bytes = take PAGE_SIZE (drop start mem)\<rparr>)"

text \<open>The dirty frames come in the order a hash set yields them.\<close>

definition build_diff :: "byte list \<Rightarrow> u64 list \<Rightarrow> byte list \<Rightarrow> diff_snapshot" where
  "build_diff mem dirty_pfns state =
     \<lparr>df_pages = sort_key pd_gpa (List.map_filter (delta_of mem) dirty_pfns), df_state = state\<rparr>"

definition apply_page :: "page_delta \<Rightarrow> byte list \<Rightarrow> diff_error + byte list" where
  "apply_page page out =
     (let start = pd_gpa page; len = length (pd_bytes page) in
      case checked_add 64 start len of
        None \<Rightarrow> Err (RangeOverflow start len)
      | Some fin \<Rightarrow>
          if MAX_DIFF_APPLY_BYTES < fin then Err (ResizeTooLarge fin MAX_DIFF_APPLY_BYTES)
          else
            let out' = (if length out < fin then out @ replicate (fin - length out) 0 else out)
            in Ok (take start out' @ pd_bytes page @ drop fin out'))"

primrec apply_pages :: "page_delta list \<Rightarrow> byte list \<Rightarrow> diff_error + byte list" where
  "apply_pages [] out = Ok out"
| "apply_pages (p # ps) out = bindR (apply_page p out) (apply_pages ps)"

primrec try_apply_diffs :: "diff_snapshot list \<Rightarrow> byte list \<Rightarrow> diff_error + byte list" where
  "try_apply_diffs [] out = Ok out"
| "try_apply_diffs (d # ds) out = bindR (apply_pages (df_pages d) out) (try_apply_diffs ds)"

definition apply_diffs :: "byte list \<Rightarrow> diff_snapshot list \<Rightarrow> byte list" where
  "apply_diffs base ds = (case try_apply_diffs ds base of Inl _ \<Rightarrow> base | Inr out \<Rightarrow> out)"

section \<open>Pre-copy\<close>

record precopy_params =
  pp_mem_bytes :: u64
  pp_dirty_rate_bps :: u64
  pp_copy_bandwidth_bps :: u64
  pp_target_downtime_us :: u64
  pp_max_rounds :: u32

datatype round_decision = ContinueRound u32 u64 | FinalStop u32 u64 | Diverging u32

definition decide :: "precopy_params \<Rightarrow> u32 \<Rightarrow> u64 \<Rightarrow> round_decision" where
  "decide params rnd dirty_bytes =
     (if pp_copy_bandwidth_bps params \<le> pp_dirty_rate_bps params \<and> 2 \<le> rnd then Diverging rnd
      else if pp_max_rounds params \<le> rnd then FinalStop rnd dirty_bytes
      else if min (dirty_bytes * 1000000) (2 ^ 128 - 1) div max (pp_copy_bandwidth_bps params) 1
              \<le> pp_target_downtime_us params
      then FinalStop rnd dirty_bytes
      else ContinueRound rnd dirty_bytes)"

definition redirtied :: "precopy_params \<Rightarrow> u64 \<Rightarrow> u64" where
  "redirtied params dirty_bytes =
     (let copy_time_s = f64_div (f64_of_nat dirty_bytes) (f64_of_nat (pp_copy_bandwidth_bps params)) in
      f64_to_u64 (f64_mul (f64_of_nat (pp_dirty_rate_bps params)) copy_time_s))"

function simulate_from :: "precopy_params \<Rightarrow> u32 \<Rightarrow> u64 \<Rightarrow> round_decision \<times> u32" where
  "simulate_from params rnd dirty_bytes =
     (let rnd' = rnd + 1; decision = decide params rnd' dirty_bytes in
      case decision of
        ContinueRound _ _ \<Rightarrow> simulate_from params rnd' (max (redirtied params dirty_bytes) 4096)
      | FinalStop r _ \<Rightarrow> (decision, r)
      | Diverging r \<Rightarrow> (decision, r))"
  by pat_completeness auto

lemma decide_continue:
  "decide params rnd dirty = ContinueRound r d \<Longrightarrow> rnd < pp_max_rounds params"
  by (auto simp: decide_def split: if_splits)

termination simulate_from
  by (relation "measure (\<lambda>(params, rnd, _). pp_max_rounds params - rnd)")
    (auto dest: sym dest!: decide_continue [OF sym])

declare simulate_from.simps [simp del]

definition simulate :: "precopy_params \<Rightarrow> u64 \<Rightarrow> round_decision \<times> u32" where
  "simulate params dirty_bytes = simulate_from params 0 dirty_bytes"

section \<open>Clones\<close>

record clone_overlay =
  co_index :: u32
  co_overlay_path :: string
  co_base_path :: string

record clone_net =
  cn_index :: u32
  cn_tap_name :: string
  cn_mac :: "byte list"
  cn_netns :: string

record clone_plan =
  cp_base_snapshot :: string
  cp_overlays :: "clone_overlay list"
  cp_nets :: "clone_net list"

definition clone_mac :: "u32 \<Rightarrow> byte list" where
  "clone_mac i = [0x02, 0, 0, 0, of_nat (i div 256 mod 256), of_nat (i mod 256)]"

definition build_clone_plan :: "string \<Rightarrow> string \<Rightarrow> u32 \<Rightarrow> string \<Rightarrow> clone_plan" where
  "build_clone_plan base_snapshot base_volume n overlay_dir =
     \<lparr>cp_base_snapshot = base_snapshot,
      cp_overlays = map (\<lambda>i. \<lparr>co_index = i,
        co_overlay_path = overlay_dir @ ''/clone-'' @ show_nat i @ ''.overlay'',
        co_base_path = base_volume\<rparr>) [0..<n],
      cp_nets = map (\<lambda>i. \<lparr>cn_index = i, cn_tap_name = ''cln'' @ show_nat i @ ''tap0'',
        cn_mac = clone_mac i, cn_netns = ''cln'' @ show_nat i @ ''ns''\<rparr>) [0..<n]\<rparr>"

end
