(* ===== verification/SnapshotProofs.thy ===== *)
theory SnapshotProofs
  imports Snapshot
begin

text \<open>
  Lemmas on snapshots: what one diff page changes, what a diff built from a set of dirty
  frames holds, when replaying diffs fails, the entries a collected device-state blob has,
  and the injectivity of the decimal indices in clone names.
\<close>

section \<open>Diffs\<close>

lemma delta_of_Some:
  "delta_of mem pfn = Some p \<longleftrightarrow>
     pfn * PAGE_SIZE < 2 ^ 64 \<and> pfn * PAGE_SIZE < length mem \<and>
     p = \<lparr>pd_gpa = pfn * PAGE_SIZE, pd_bytes = take PAGE_SIZE (drop (pfn * PAGE_SIZE) mem)\<rparr>"
  by (auto simp: delta_of_def checked_mul_def split: if_splits bind_splits)

lemma set_map_filter: "set (List.map_filter f xs) = {y. \<exists>x \<in> set xs. f x = Some y}"
  by (force simp: List.map_filter_def)

lemma set_build_diff:
  "set (df_pages (build_diff mem pfns st)) = {p. \<exists>pfn \<in> set pfns. delta_of mem pfn = Some p}"
  by (simp add: build_diff_def set_map_filter)

text \<open>The end of a page, whose size decides whether replay accepts it.\<close>

definition page_end :: "page_delta \<Rightarrow> nat" where
  "page_end p = pd_gpa p + length (pd_bytes p)"

definition page_error :: "page_delta \<Rightarrow> diff_error" where
  "page_error p =
     (if page_end p < 2 ^ 64 then ResizeTooLarge (page_end p) MAX_DIFF_APPLY_BYTES
      else RangeOverflow (pd_gpa p) (length (pd_bytes p)))"

lemma apply_page_Err:
  "MAX_DIFF_APPLY_BYTES < page_end p \<Longrightarrow> apply_page p out = Err (page_error p)"
  by (auto simp: apply_page_def page_end_def page_error_def Let_def checked_add_def)

definition put_page :: "page_delta \<Rightarrow> byte list \<Rightarrow> byte list" where
  "put_page p out =
     map (\<lambda>i. if pd_gpa p \<le> i \<and> i < page_end p then pd_bytes p ! (i - pd_gpa p)
              else if i < length out then out ! i else 0) [0..<max (length out) (page_end p)]"

lemma apply_page_Ok:
  assumes "page_end p \<le> MAX_DIFF_APPLY_BYTES"
  shows "apply_page p out = Ok (put_page p out)"
proof -
  have "page_end p < 2 ^ 64" using assms by (simp add: MAX_DIFF_APPLY_BYTES_def)
  moreover have "take (pd_gpa p) out' @ pd_bytes p @ drop (page_end p) out' = put_page p out"
    if "out' = (if length out < page_end p then out @ replicate (page_end p - length out) 0 else out)"
    for out'
    by (rule nth_equalityI)
      (auto simp: that put_page_def page_end_def nth_append not_less)
  ultimately show ?thesis
    using assms unfolding page_end_def by (simp add: apply_page_def Let_def checked_add_def)
qed

lemma apply_pages_append:
  "apply_pages (ps @ qs) out = bindR (apply_pages ps out) (apply_pages qs)"
  by (induction ps arbitrary: out) (auto split: sum.split simp: bindR_def)

lemma try_apply_diffs_concat:
  "try_apply_diffs ds out = apply_pages (concat (map df_pages ds)) out"
  by (induction ds arbitrary: out) (auto simp: apply_pages_append bindR_def split: sum.split)

lemma apply_pages_find:
  "apply_pages ps out =
     (case find (\<lambda>p. MAX_DIFF_APPLY_BYTES < page_end p) ps of
        Some p \<Rightarrow> Err (page_error p)
      | None \<Rightarrow> Ok (fold put_page ps out))"
  by (induction ps arbitrary: out)
    (auto simp: apply_page_Err apply_page_Ok not_less bindR_def split: option.split)

text \<open>Replaying pages of an image over one of the same size.\<close>

lemma put_page_of:
  assumes "delta_of mem pfn = Some p" and "length out = length mem"
  shows "length (put_page p out) = length mem"
    and "i < length mem \<Longrightarrow> put_page p out ! i = (if i div PAGE_SIZE = pfn then mem ! i else out ! i)"
proof -
  define s where "s = pfn * PAGE_SIZE"
  have p: "pd_gpa p = s" "page_end p = min (s + PAGE_SIZE) (length mem)"
    "pd_bytes p = take PAGE_SIZE (drop s mem)" "s < length mem"
    using assms(1) by (auto simp: delta_of_Some page_end_def min_def s_def)
  show "length (put_page p out) = length mem" using assms(2) p by (simp add: put_page_def)
  assume i: "i < length mem"
  have "i div PAGE_SIZE = pfn \<longleftrightarrow> s \<le> i \<and> i < s + PAGE_SIZE"
    by (auto simp: PAGE_SIZE_def s_def)
  moreover have "take PAGE_SIZE (drop s mem) ! (i - s) = mem ! i" if "s \<le> i" "i < s + PAGE_SIZE"
    using that i by (subst nth_take) auto
  ultimately show "put_page p out ! i = (if i div PAGE_SIZE = pfn then mem ! i else out ! i)"
    using assms(2) p i by (auto simp: put_page_def)
qed

lemma fold_put_page_ofs:
  assumes "\<forall>p \<in> set ps. \<exists>pfn. delta_of mem pfn = Some p" and "length out = length mem"
  shows "length (fold put_page ps out) = length mem \<and>
    (\<forall>i < length mem. fold put_page ps out ! i =
       (if \<exists>p \<in> set ps. pd_gpa p = i div PAGE_SIZE * PAGE_SIZE then mem ! i else out ! i))"
  using assms
proof (induction ps arbitrary: out)
  case (Cons p ps)
  then obtain pfn where pfn: "delta_of mem pfn = Some p" by auto
  have "pd_gpa p = i div PAGE_SIZE * PAGE_SIZE \<longleftrightarrow> i div PAGE_SIZE = pfn" for i
    using pfn by (auto simp: delta_of_Some PAGE_SIZE_def)
  then show ?case
    using Cons.IH [of "put_page p out"] Cons.prems put_page_of [OF pfn Cons.prems(2)] by auto
qed simp

lemma built_pages_bounded:
  assumes "length mem \<le> MAX_DIFF_APPLY_BYTES" and "p \<in> set (df_pages (build_diff mem pfns st))"
  shows "page_end p \<le> MAX_DIFF_APPLY_BYTES"
  using assms by (auto simp: set_build_diff delta_of_Some page_end_def)

lemma apply_built_diff:
  assumes len: "length out = length mem" "length mem \<le> MAX_DIFF_APPLY_BYTES"
    and dirty: "\<And>i. i < length mem \<Longrightarrow> mem ! i \<noteq> out ! i \<Longrightarrow> i div PAGE_SIZE \<in> set pfns"
  shows "apply_pages (df_pages (build_diff mem pfns st)) out = Ok mem"
proof -
  let ?ps = "df_pages (build_diff mem pfns st)"
  have "find (\<lambda>p. MAX_DIFF_APPLY_BYTES < page_end p) ?ps = None"
    using built_pages_bounded [OF len(2)] by (auto simp: find_None_iff not_less)
  moreover have "fold put_page ?ps out = mem"
  proof (rule nth_equalityI)
    have ps: "\<forall>p \<in> set ?ps. \<exists>pfn. delta_of mem pfn = Some p" by (auto simp: set_build_diff)
    note f = fold_put_page_ofs [OF ps len(1)]
    show "length (fold put_page ?ps out) = length mem" using f by blast
    fix i assume "i < length (fold put_page ?ps out)"
    then have i: "i < length mem" using f by simp
    have "\<exists>p \<in> set ?ps. pd_gpa p = i div PAGE_SIZE * PAGE_SIZE" if "mem ! i \<noteq> out ! i"
    proof -
      have "i div PAGE_SIZE * PAGE_SIZE < length mem"
        using i div_times_less_eq_dividend [of i PAGE_SIZE] by (rule order.strict_trans1 [rotated])
      then have "i div PAGE_SIZE * PAGE_SIZE < 2 ^ 64" "i div PAGE_SIZE * PAGE_SIZE < length mem"
        using len(2) by (auto simp: MAX_DIFF_APPLY_BYTES_def)
      then show ?thesis using dirty [OF i that] by (auto simp: set_build_diff delta_of_Some)
    qed
    then show "fold put_page ?ps out ! i = mem ! i" using f i by (cases "mem ! i = out ! i") auto
  qed
  ultimately show ?thesis by (simp add: apply_pages_find)
qed

text \<open>Checkpoints in order: the image, the frames found dirty, the device state.\<close>

type_synonym checkpoint = "byte list \<times> u64 list \<times> byte list"

fun diff_of :: "checkpoint \<Rightarrow> diff_snapshot" where
  "diff_of (mem, pfns, st) = build_diff mem pfns st"

text \<open>Every byte that differs from the previous checkpoint lies in a dirty frame.\<close>

fun tracked_chain :: "byte list \<Rightarrow> checkpoint list \<Rightarrow> bool" where
  "tracked_chain m [] = True"
| "tracked_chain m ((mem, pfns, st) # cs) =
     (length mem = length m \<and>
      (\<forall>i < length m. mem ! i \<noteq> m ! i \<longrightarrow> i div PAGE_SIZE \<in> set pfns) \<and> tracked_chain mem cs)"

lemma apply_chain:
  "tracked_chain m cs \<Longrightarrow> length m \<le> MAX_DIFF_APPLY_BYTES \<Longrightarrow>
     try_apply_diffs (map diff_of cs) m = Ok (last (m # map fst cs))"
  by (induction m cs rule: tracked_chain.induct) (simp_all add: apply_built_diff bindR_def)

lemma build_diff_sorted:
  "sorted (map pd_gpa (df_pages (build_diff mem pfns st)))"
  by (simp add: build_diff_def)

lemma build_diff_distinct:
  assumes "distinct pfns"
  shows "distinct (map pd_gpa (df_pages (build_diff mem pfns st)))"
proof -
  have "distinct (map pd_gpa (List.map_filter (delta_of mem) pfns))"
    using assms
    by (induction pfns)
      (auto simp: List.map_filter_simps delta_of_Some PAGE_SIZE_def set_map_filter split: option.split)
  then show ?thesis
    by (simp add: build_diff_def distinct_map)
qed

lemma build_diff_inj:
  "inj_on pd_gpa (set (df_pages (build_diff mem pfns st)) \<union> set (df_pages (build_diff mem pfns' st)))"
  by (auto simp: inj_on_def set_build_diff delta_of_Some PAGE_SIZE_def)

section \<open>Device state\<close>

lemma collect_entries_Ok:
  "collect_entries devs b = Ok b' \<Longrightarrow> bt_inv (bl_entries b) \<Longrightarrow>
     bl_schema b' = bl_schema b \<and> bt_inv (bl_entries b') \<and>
     map_of (bl_entries b') = map_of (bl_entries b) ++ map_of (rev (map (map_prod id projr) devs))"
proof (induction devs arbitrary: b)
  case (Cons dev devs)
  then obtain bytes where bytes: "snd dev = Inr bytes" by (auto split: sum.splits)
  then show ?case
    using Cons.IH [of "b\<lparr>bl_entries := bt_insert (fst dev) bytes (bl_entries b)\<rparr>"] Cons.prems
    by (cases dev) (auto simp: bt_inv_insert bt_get_insert map_add_def fun_eq_iff split: option.split)
qed simp

lemma collect_blob_Ok:
  assumes "collect_blob devs = Ok b"
  shows "bl_schema b = SCHEMA_VERSION" and "validate_bounds b = Ok ()"
    and "blob_get key b = map_of (rev (map (map_prod id projr) devs)) key"
proof -
  have "collect_entries devs blob_new = Ok b \<and> validate_bounds b = Ok ()"
    using assms by (auto simp: collect_blob_def bindR_def split: sum.splits)
  then show "bl_schema b = SCHEMA_VERSION" "validate_bounds b = Ok ()"
    "blob_get key b = map_of (rev (map (map_prod id projr) devs)) key"
    using collect_entries_Ok [of devs blob_new b]
    by (auto simp: blob_new_def blob_get_def bt_inv_def)
qed

lemma entries_bounds_Ok:
  "entries_bounds kvs = Ok () \<longleftrightarrow>
     (\<forall>(k, v) \<in> set kvs. length k \<le> MAX_DEVICE_STATE_KEY_BYTES \<and> length v \<le> MAX_DEVICE_STATE_ENTRY_BYTES)"
  by (induction kvs) auto

section \<open>Clones\<close>

lemma digit_inj: "a < 16 \<Longrightarrow> b < 16 \<Longrightarrow> digit a = digit b \<longleftrightarrow> a = b"
  unfolding digit_def by (rule nth_eq_iff_index_eq) simp_all

lemma show_nat_nonempty [simp]: "show_nat n \<noteq> []"
  by (subst show_nat.simps) simp

lemma show_nat_nonempty' [simp]: "[] \<noteq> show_nat n"
  by (rule not_sym [OF show_nat_nonempty])

lemma show_nat_injD: "show_nat a = show_nat b \<Longrightarrow> a = b"
proof (induction a arbitrary: b rule: show_nat.induct)
  case (1 a)
  have eq: "(if a < 10 then [digit a] else show_nat (a div 10) @ [digit (a mod 10)]) =
    (if b < 10 then [digit b] else show_nat (b div 10) @ [digit (b mod 10)])"
    using 1(2) by (simp add: show_nat.simps [of a] show_nat.simps [of b])
  show ?case
  proof (cases "a < 10 \<or> b < 10")
    case True
    then show ?thesis using eq by (auto simp: digit_inj split: if_splits)
  next
    case False
    have lt: "n mod 10 < 16" for n :: nat by (rule less_trans [of _ 10]) simp_all
    have "show_nat (a div 10) = show_nat (b div 10)" "digit (a mod 10) = digit (b mod 10)"
      using eq False by auto
    then have "a div 10 = b div 10" "a mod 10 = b mod 10"
      using 1(1) [of "b div 10"] False digit_inj [OF lt lt] by auto
    then show ?thesis by (metis div_mult_mod_eq)
  qed
qed

lemma show_nat_inj [simp]: "show_nat a = show_nat b \<longleftrightarrow> a = b"
  using show_nat_injD by blast

lemma clone_mac_eq: "clone_mac i = clone_mac j \<longleftrightarrow> i mod 65536 = j mod 65536"
proof -
  have byte: "(of_nat a :: byte) = of_nat b \<longleftrightarrow> a mod 256 = b mod 256" for a b
    by (simp add: word_of_nat_eq_iff take_bit_eq_mod)
  have split: "n mod 65536 = n div 256 mod 256 * 256 + n mod 256" for n :: nat
    using mod_mult2_eq [of n 256 256] by simp
  have "x * 256 + a = y * 256 + b \<longleftrightarrow> x = y \<and> a = b" if "a < 256" "b < 256" for x y a b :: nat
  proof
    assume eq: "x * 256 + a = y * 256 + b"
    then have "(a + x * 256) div 256 = (b + y * 256) div 256" by (simp only: add.commute)
    then have "x = y" using that by (simp only: div_mult_self1 div_less)
    then show "x = y \<and> a = b" using eq by simp
  qed simp
  then show ?thesis
    unfolding clone_mac_def split [of i] split [of j] by (simp add: byte)
qed

end
