(* ===== verification/SnapshotClaims.thy ===== *)
theory SnapshotClaims
  imports SnapshotProofs
begin

text \<open>
  The properties of snapshots: replaying diffs reproduces the guest, validation accepts what
  \<open>create\<close> writes and names what was damaged, device state survives its encoding, the
  pre-copy loop ends, and clones do not share names.
\<close>

text \<open>
  C9: Base and diffs reproduce the full snapshot. Take any sequence of checkpoints in which
  every byte that changed since the previous one lies in a frame reported dirty. Replaying
  the diffs built at those checkpoints over the base image succeeds and gives the last image
  byte for byte.
\<close>

theorem diff_chain_replays:
  assumes "tracked_chain base cs" and "length base \<le> MAX_DIFF_APPLY_BYTES"
  shows "try_apply_diffs (map diff_of cs) base = Ok (last (base # map fst cs))"
  using assms by (rule apply_chain)

theorem diff_chain_replays_witness:
  "try_apply_diffs (map diff_of [([1, 2, 4], [0], []), ([1, 9, 4], [5, 0], [7])]) [1, 2, 3] =
     Ok [1, 9, 4]"
  using diff_chain_replays [of "[1, 2, 3]" "[([1, 2, 4], [0], []), ([1, 9, 4], [5, 0], [7])]"]
  by (simp add: MAX_DIFF_APPLY_BYTES_def PAGE_SIZE_def All_less_Suc numeral_3_eq_3)

text \<open>
  C31: Replay fails exactly when some page ends beyond 1 TiB, the error describes the first
  such page, and the infallible \<open>apply_diffs\<close> then returns the base image unchanged.
  Otherwise the result is as long as the base or the furthest page, whichever is longer.
\<close>

theorem replay_error_exact:
  "case find (\<lambda>p. MAX_DIFF_APPLY_BYTES < pd_gpa p + length (pd_bytes p)) (concat (map df_pages ds)) of
     Some p \<Rightarrow>
       try_apply_diffs ds base =
         Err (if pd_gpa p + length (pd_bytes p) < 2 ^ 64
              then ResizeTooLarge (pd_gpa p + length (pd_bytes p)) MAX_DIFF_APPLY_BYTES
              else RangeOverflow (pd_gpa p) (length (pd_bytes p))) \<and>
       apply_diffs base ds = base
   | None \<Rightarrow> \<exists>out. try_apply_diffs ds base = Ok out \<and> apply_diffs base ds = out \<and>
       length out = foldl max (length base)
         (map (\<lambda>p. pd_gpa p + length (pd_bytes p)) (concat (map df_pages ds)))"
proof -
  have len: "length (fold put_page ps out) = foldl max (length out) (map page_end ps)" for ps out
    by (induction ps arbitrary: out) (simp_all add: put_page_def)
  have fin: "page_end = (\<lambda>p. pd_gpa p + length (pd_bytes p))"
    by (rule ext) (simp add: page_end_def)
  show ?thesis
    using len [of "concat (map df_pages ds)" base]
    by (auto simp: try_apply_diffs_concat apply_pages_find apply_diffs_def fin
        page_error_def split: option.split)
qed

text \<open>
  A diff does not depend on the order in which the hash set of dirty frames is iterated:
  two enumerations of the same frames give the same diff, its pages in increasing address
  order.
\<close>

theorem build_diff_canonical:
  assumes "distinct xs" and "distinct ys" and "set xs = set ys"
  shows "build_diff mem xs st = build_diff mem ys st \<and>
    sorted (map pd_gpa (df_pages (build_diff mem xs st)))"
proof -
  have "set (df_pages (build_diff mem xs st)) = set (df_pages (build_diff mem ys st))"
    unfolding set_build_diff assms(3) ..
  then have "df_pages (build_diff mem xs st) = df_pages (build_diff mem ys st)"
    by (rule map_sorted_distinct_set_unique [OF build_diff_inj build_diff_sorted
          build_diff_distinct [OF assms(1)] build_diff_sorted build_diff_distinct [OF assms(2)]])
  then show ?thesis
    using build_diff_sorted by (simp add: build_diff_def)
qed

theorem build_diff_canonical_witness:
  "build_diff [1, 2, 3] [7, 0] [] = build_diff [1, 2, 3] [0, 7] [] \<and>
     sorted (map pd_gpa (df_pages (build_diff [1, 2, 3] [7, 0] [])))"
  using build_diff_canonical [of "[7, 0]" "[0, 7]" "[1, 2, 3]" "[]"] by auto

text \<open>
  C32: Validation accepts a snapshot exactly when its header is the one \<open>create\<close> writes
  for its two payloads, up to the flags, which validation does not look at.
\<close>

theorem restore_accepts_exactly:
  "validate_snapshot crc snap = Ok () \<longleftrightarrow>
     sn_meta snap =
       (sn_meta (create_snapshot crc (sn_state snap) (sn_mem snap) False))\<lparr>sm_flags := sm_flags (sn_meta snap)\<rparr>"
  by (cases "sn_meta snap")
    (auto simp: validate_snapshot_def create_snapshot_def snapshot_meta_new_def crc_verify_def Let_def)

text \<open>
  Damage to a payload of a created snapshot is reported as what it is: a length that
  changed before a checksum, the device state before the memory. A payload whose length and
  checksum are unchanged is accepted, so an undamaged snapshot is.
\<close>

theorem tampering_reported:
  "validate_snapshot crc ((create_snapshot crc st mem diff)\<lparr>sn_state := st', sn_mem := mem'\<rparr>) =
     (if length st' \<noteq> length st then Err (StateLength (length st) (length st'))
      else if length mem' \<noteq> length mem then Err (MemLength (length mem) (length mem'))
      else if crc st' \<noteq> crc st then Err (StateCrc (crc st) (crc st'))
      else if crc mem' \<noteq> crc mem then Err (MemCrc (crc mem) (crc mem'))
      else Ok ())"
  by (auto simp: validate_snapshot_def create_snapshot_def snapshot_meta_new_def crc_verify_def Let_def)

text \<open>
  C30: Device state survives a snapshot. When the codec decodes what it encoded, a blob
  collected from devices and encoded is decoded to the same blob, and looking up a key gives
  the state of the last device collected under that key.
\<close>

theorem device_state_roundtrip:
  assumes "\<And>b bytes. enc b = Ok bytes \<Longrightarrow> dec bytes = Ok b"
    and "collect_blob devs = Ok b" and "blob_to_bytes enc b = Ok bytes"
  shows "blob_from_bytes dec bytes = Ok b \<and>
    blob_get key b = map_of (rev (map (map_prod id projr) devs)) key"
proof -
  have "enc b = Ok bytes" "length bytes \<le> MAX_DEVICE_STATE_BLOB_BYTES"
    using assms(3) by (auto simp: blob_to_bytes_def bindR_def split: sum.splits if_splits)
  then show ?thesis
    using assms(1) [of b bytes] collect_blob_Ok [OF assms(2)]
    by (simp add: blob_from_bytes_def bindR_def)
qed

text \<open>A codec for blobs of at most one device, to exhibit the round trip.\<close>

definition rng_enc :: "state_blob \<Rightarrow> string + byte list" where
  "rng_enc b =
     (if bl_schema b \<noteq> SCHEMA_VERSION then Err ''unsupported''
      else case bl_entries b of
        [] \<Rightarrow> Ok [1, 0]
      | [kv] \<Rightarrow> if fst kv = ''rng'' then Ok (1 # 1 # snd kv) else Err ''unsupported''
      | _ \<Rightarrow> Err ''unsupported'')"

definition rng_dec :: "byte list \<Rightarrow> string + state_blob" where
  "rng_dec bytes =
     (if take 2 bytes = [1, 0] then Ok \<lparr>bl_schema = 1, bl_entries = []\<rparr>
      else if take 2 bytes = [1, 1] then Ok \<lparr>bl_schema = 1, bl_entries = [(''rng'', drop 2 bytes)]\<rparr>
      else Err ''eof'')"

lemma rng_codec: "rng_enc b = Ok bytes \<Longrightarrow> rng_dec bytes = Ok b"
  by (cases b) (auto simp: rng_enc_def rng_dec_def SCHEMA_VERSION_def split: list.splits if_splits)

theorem device_state_roundtrip_witness:
  "blob_from_bytes rng_dec [1, 1, 7] = Ok \<lparr>bl_schema = 1, bl_entries = [(''rng'', [7])]\<rparr> \<and>
     blob_get ''rng'' \<lparr>bl_schema = 1, bl_entries = [(''rng'', [7])]\<rparr> = Some [7]"
proof -
  let ?b = "\<lparr>bl_schema = 1, bl_entries = [(''rng'', [7 :: byte])]\<rparr>"
  have "collect_blob [(''rng'', Inr [7])] = Ok ?b"
    by (simp add: collect_blob_def bindR_def blob_new_def validate_bounds_def SCHEMA_VERSION_def
        MAX_DEVICE_STATE_ENTRIES_def MAX_DEVICE_STATE_KEY_BYTES_def MAX_DEVICE_STATE_ENTRY_BYTES_def)
  moreover have "blob_to_bytes rng_enc ?b = Ok [1, 1, 7]"
    by (simp add: blob_to_bytes_def bindR_def rng_enc_def validate_bounds_def SCHEMA_VERSION_def
        MAX_DEVICE_STATE_ENTRIES_def MAX_DEVICE_STATE_KEY_BYTES_def MAX_DEVICE_STATE_ENTRY_BYTES_def
        MAX_DEVICE_STATE_BLOB_BYTES_def)
  ultimately show ?thesis
    using device_state_roundtrip [of rng_enc rng_dec "[(''rng'', Inr [7])]" ?b "[1, 1, 7]" "''rng''", OF rng_codec]
    by simp
qed

lemma simulate_from_ends:
  assumes "simulate_from params rnd dirty = (decision, r)" and "rnd < max 1 (pp_max_rounds params)"
  shows "rnd < r \<and> r \<le> max 1 (pp_max_rounds params) \<and>
    (case decision of
       ContinueRound _ _ \<Rightarrow> False
     | Diverging r' \<Rightarrow> r' = r \<and> 2 \<le> r \<and> pp_copy_bandwidth_bps params \<le> pp_dirty_rate_bps params
     | FinalStop r' d \<Rightarrow> r' = r \<and>
         (pp_max_rounds params \<le> r \<or>
          min (d * 1000000) (2 ^ 128 - 1) div max (pp_copy_bandwidth_bps params) 1
            \<le> pp_target_downtime_us params))"
  using assms
proof (induction params rnd dirty rule: simulate_from.induct)
  case (1 params rnd dirty)
  show ?case
  proof (cases "decide params (rnd + 1) dirty")
    case (ContinueRound r' d)
    then have "rnd + 1 < pp_max_rounds params" by (rule decide_continue)
    then show ?thesis
      using 1(1) [OF refl refl ContinueRound] 1(2) ContinueRound
      by (simp add: simulate_from.simps [of params rnd] split: round_decision.splits)
  next
    case (FinalStop r' d)
    then have "decide params (rnd + 1) dirty = FinalStop r' d" .
    then show ?thesis
      using 1(2,3) by (auto simp: simulate_from.simps [of params rnd] decide_def split: if_splits)
  next
    case (Diverging r')
    then show ?thesis
      using 1(2,3) by (auto simp: simulate_from.simps [of params rnd] decide_def split: if_splits)
  qed
qed

text \<open>
  C33: The pre-copy loop always ends. It takes at most \<open>max_rounds\<close> rounds (one if that
  is zero), never ends undecided, and stops before the last round only when the residual
  copies within the downtime budget or the guest dirties memory at least as fast as it can be
  copied.
\<close>

theorem precopy_ends:
  "case simulate params dirty of (decision, r) \<Rightarrow>
     0 < r \<and> r \<le> max 1 (pp_max_rounds params) \<and>
     (case decision of
        ContinueRound _ _ \<Rightarrow> False
      | Diverging r' \<Rightarrow> r' = r \<and> 2 \<le> r \<and> pp_copy_bandwidth_bps params \<le> pp_dirty_rate_bps params
      | FinalStop r' d \<Rightarrow> r' = r \<and>
          (pp_max_rounds params \<le> r \<or>
           min (d * 1000000) (2 ^ 128 - 1) div max (pp_copy_bandwidth_bps params) 1
             \<le> pp_target_downtime_us params))"
  using simulate_from_ends [of params 0 dirty]
  by (cases "simulate_from params 0 dirty") (simp add: simulate_def)

text \<open>
  Clones do not share overlay files, taps or network namespaces. Their MAC addresses are
  distinct exactly for plans of at most 65,536 clones, since the index is written into two
  bytes.
\<close>

theorem clone_names_distinct:
  "distinct (map co_overlay_path (cp_overlays (build_clone_plan snap vol n dir))) \<and>
   distinct (map cn_tap_name (cp_nets (build_clone_plan snap vol n dir))) \<and>
   distinct (map cn_netns (cp_nets (build_clone_plan snap vol n dir))) \<and>
   (distinct (map cn_mac (cp_nets (build_clone_plan snap vol n dir))) \<longleftrightarrow> n \<le> 65536)"
proof -
  have "inj_on clone_mac {0..<n} \<longleftrightarrow> n \<le> 65536"
  proof
    assume inj: "inj_on clone_mac {0..<n}"
    show "n \<le> 65536"
    proof (rule ccontr)
      assume "\<not> n \<le> 65536"
      then show False
        using inj_onD [OF inj, of 0 65536] by (simp add: clone_mac_eq)
    qed
  next
    assume "n \<le> 65536"
    then show "inj_on clone_mac {0..<n}"
      by (auto simp: inj_on_def clone_mac_eq)
  qed
  then show ?thesis
    by (auto simp: build_clone_plan_def distinct_map inj_on_def comp_def)
qed

end
