(* ===== verification/Scheduler.thy ===== *)
theory Scheduler
  imports Float64 Stdlib
begin

text \<open>
  Admission and placement of VMs (\<open>taritd/src/scheduler.rs\<close>): the ledger of reserved
  resources, the scheduler around it, whose mutex may be poisoned, and the choice of a host.
  The lemmas show that the ledger's counters are the sums over the VMs it holds in every
  reachable state, so that releases never saturate and admissions never exceed the limits.
\<close>

type_synonym uuid = nat

record resource_shape =
  rs_vcpus :: u64
  rs_memory_mib :: u64

record resource_usage =
  ru_vm_count :: usize
  ru_vcpus :: u64
  ru_memory_mib :: u64

datatype reservation_error = AlreadyReserved | VmLimit | VcpuLimit | MemoryLimit | AccountingOverflow

text \<open>The configuration the scheduler reads.\<close>

record sched_config =
  cf_host_id :: string
  cf_max_vms :: usize
  cf_max_vcpus :: u64
  cf_max_memory_mib :: u64

record ledger =
  lg_by_vm :: "uuid \<rightharpoonup> resource_shape"
  lg_used :: resource_usage

definition shape_new :: "8 word \<Rightarrow> u64 \<Rightarrow> resource_shape" where
  "shape_new vcpus memory_mib = \<lparr>rs_vcpus = unat vcpus, rs_memory_mib = memory_mib\<rparr>"

definition ledger_default :: ledger where
  "ledger_default = \<lparr>lg_by_vm = Map.empty, lg_used = \<lparr>ru_vm_count = 0, ru_vcpus = 0, ru_memory_mib = 0\<rparr>\<rparr>"

definition ledger_reserve ::
  "uuid \<Rightarrow> resource_shape \<Rightarrow> sched_config \<Rightarrow> bool \<Rightarrow> ledger \<Rightarrow> reservation_error + ledger" where
  "ledger_reserve uid shape config enforce_limits l =
     (if lg_by_vm l uid \<noteq> None then Err AlreadyReserved
      else
        bindR (ok_or (checked_add 64 (ru_vm_count (lg_used l)) 1) AccountingOverflow) (\<lambda>vm_count.
        bindR (ok_or (checked_add 64 (ru_vcpus (lg_used l)) (rs_vcpus shape)) AccountingOverflow) (\<lambda>vcpus.
        bindR (ok_or (checked_add 64 (ru_memory_mib (lg_used l)) (rs_memory_mib shape)) AccountingOverflow)
          (\<lambda>memory_mib.
        if enforce_limits \<and> cf_max_vms config < vm_count then Err VmLimit
        else if enforce_limits \<and> cf_max_vcpus config < vcpus then Err VcpuLimit
        else if enforce_limits \<and> cf_max_memory_mib config < memory_mib then Err MemoryLimit
        else Ok \<lparr>lg_by_vm = (lg_by_vm l)(uid \<mapsto> shape),
                 lg_used = \<lparr>ru_vm_count = vm_count, ru_vcpus = vcpus, ru_memory_mib = memory_mib\<rparr>\<rparr>))))"

definition ledger_release :: "uuid \<Rightarrow> ledger \<Rightarrow> bool \<times> ledger" where
  "ledger_release uid l =
     (case lg_by_vm l uid of
        None \<Rightarrow> (False, l)
      | Some shape \<Rightarrow>
          (True, \<lparr>lg_by_vm = (lg_by_vm l)(uid := None),
                  lg_used = \<lparr>ru_vm_count = ru_vm_count (lg_used l) - 1,
                             ru_vcpus = ru_vcpus (lg_used l) - rs_vcpus shape,
                             ru_memory_mib = ru_memory_mib (lg_used l) - rs_memory_mib shape\<rparr>\<rparr>))"

record host_capacity =
  hc_host_id :: string
  hc_sandbox_count :: usize
  hc_free_vcpus :: u64
  hc_free_memory_mib :: u64
  hc_healthy :: bool

record placement =
  pl_host_id :: string
  pl_local :: bool

text \<open>The ledger's mutex: \<open>None\<close> once a thread has panicked holding it.\<close>

record scheduler =
  sc_config :: sched_config
  sc_ledger :: "ledger option"

definition scheduler_new :: "sched_config \<Rightarrow> scheduler" where
  "scheduler_new config = \<lparr>sc_config = config, sc_ledger = Some ledger_default\<rparr>"

definition sched_reserve ::
  "bool \<Rightarrow> uuid \<Rightarrow> resource_shape \<Rightarrow> scheduler \<Rightarrow> (reservation_error + unit) \<times> scheduler" where
  "sched_reserve enforce_limits uid shape s =
     (case sc_ledger s of
        None \<Rightarrow> (Err AccountingOverflow, s)
      | Some l \<Rightarrow>
          (case ledger_reserve uid shape (sc_config s) enforce_limits l of
             Inl e \<Rightarrow> (Err e, s)
           | Inr l' \<Rightarrow> (Ok (), s\<lparr>sc_ledger := Some l'\<rparr>)))"

definition try_reserve ::
  "uuid \<Rightarrow> resource_shape \<Rightarrow> scheduler \<Rightarrow> (reservation_error + unit) \<times> scheduler" where
  "try_reserve = sched_reserve True"

definition reserve_existing ::
  "uuid \<Rightarrow> resource_shape \<Rightarrow> scheduler \<Rightarrow> (reservation_error + unit) \<times> scheduler" where
  "reserve_existing = sched_reserve False"

definition sched_release :: "uuid \<Rightarrow> scheduler \<Rightarrow> bool \<times> scheduler" where
  "sched_release uid s =
     (case sc_ledger s of
        None \<Rightarrow> (False, s)
      | Some l \<Rightarrow> (case ledger_release uid l of (r, l') \<Rightarrow> (r, s\<lparr>sc_ledger := Some l'\<rparr>)))"

definition sched_usage :: "scheduler \<Rightarrow> resource_usage" where
  "sched_usage s =
     (case sc_ledger s of
        Some l \<Rightarrow> lg_used l
      | None \<Rightarrow> \<lparr>ru_vm_count = cf_max_vms (sc_config s), ru_vcpus = cf_max_vcpus (sc_config s),
                 ru_memory_mib = cf_max_memory_mib (sc_config s)\<rparr>)"

definition local_capacity :: "scheduler \<Rightarrow> host_capacity" where
  "local_capacity s =
     (let used = sched_usage s; at_vm_limit = cf_max_vms (sc_config s) \<le> ru_vm_count used in
      \<lparr>hc_host_id = cf_host_id (sc_config s),
       hc_sandbox_count = ru_vm_count used,
       hc_free_vcpus = (if at_vm_limit then 0 else cf_max_vcpus (sc_config s) - ru_vcpus used),
       hc_free_memory_mib = (if at_vm_limit then 0 else cf_max_memory_mib (sc_config s) - ru_memory_mib used),
       hc_healthy = True\<rparr>)"

primrec fleet_totals :: "host_capacity list \<Rightarrow> usize \<times> usize \<Rightarrow> usize \<times> usize" where
  "fleet_totals [] acc = acc"
| "fleet_totals (p # ps) acc =
     fleet_totals ps
       (if hc_healthy p then (wrapping_add 64 (fst acc) (hc_sandbox_count p), wrapping_add 64 (snd acc) 1)
        else acc)"

definition fleet_average_density :: "host_capacity list \<Rightarrow> host_capacity \<Rightarrow> f64" where
  "fleet_average_density peers loc =
     (case fleet_totals peers (hc_sandbox_count loc, 1) of
        (tot, hosts) \<Rightarrow> f64_div (f64_of_nat tot) (f64_of_nat hosts))"

definition fits :: "8 word \<Rightarrow> u64 \<Rightarrow> host_capacity \<Rightarrow> bool" where
  "fits req_vcpus req_mem_mib h \<longleftrightarrow>
     hc_healthy h \<and> unat req_vcpus \<le> hc_free_vcpus h \<and> req_mem_mib \<le> hc_free_memory_mib h"

definition candidates :: "string \<Rightarrow> 8 word \<Rightarrow> u64 \<Rightarrow> host_capacity list \<Rightarrow> host_capacity list" where
  "candidates self req_vcpus req_mem_mib peers =
     sort_key hc_sandbox_count
       (filter (\<lambda>p. fits req_vcpus req_mem_mib p \<and> hc_host_id p \<noteq> self) peers)"

definition place ::
  "8 word \<Rightarrow> u64 \<Rightarrow> host_capacity list \<Rightarrow> scheduler \<Rightarrow> string + placement" where
  "place req_vcpus req_mem_mib peers s =
     (let loc = local_capacity s in
      if fits req_vcpus req_mem_mib loc \<and>
         f64_le (f64_of_nat (hc_sandbox_count loc)) (f64_add (fleet_average_density peers loc) (Finite 1))
      then Ok \<lparr>pl_host_id = hc_host_id loc, pl_local = True\<rparr>
      else
        case candidates (cf_host_id (sc_config s)) req_vcpus req_mem_mib peers of
          peer # _ \<Rightarrow> Ok \<lparr>pl_host_id = hc_host_id peer, pl_local = False\<rparr>
        | [] \<Rightarrow>
            if fits req_vcpus req_mem_mib loc
            then Ok \<lparr>pl_host_id = hc_host_id loc, pl_local = True\<rparr>
            else Err ''no capacity on local host or peers'')"

section \<open>The accounting invariant\<close>

text \<open>The sum of a resource over the VMs of a ledger.\<close>

definition reserved :: "(resource_shape \<Rightarrow> nat) \<Rightarrow> (uuid \<rightharpoonup> resource_shape) \<Rightarrow> nat" where
  "reserved weight m = (\<Sum>uid \<in> dom m. weight (the (m uid)))"

lemma reserved_insert:
  "finite (dom m) \<Longrightarrow> m uid = None \<Longrightarrow> reserved w (m(uid \<mapsto> sh)) = reserved w m + w sh"
  by (simp add: reserved_def domIff cong: sum.cong_simp) (auto intro!: sum.cong)

lemma reserved_remove:
  "finite (dom m) \<Longrightarrow> m uid = Some sh \<Longrightarrow> reserved w m = reserved w (m(uid := None)) + w sh"
  using reserved_insert [of "m(uid := None)" uid w sh] by (simp add: map_upd_triv)

definition ledger_inv :: "ledger \<Rightarrow> bool" where
  "ledger_inv l \<longleftrightarrow> finite (dom (lg_by_vm l)) \<and>
     ru_vm_count (lg_used l) = card (dom (lg_by_vm l)) \<and>
     ru_vcpus (lg_used l) = reserved rs_vcpus (lg_by_vm l) \<and>
     ru_memory_mib (lg_used l) = reserved rs_memory_mib (lg_by_vm l) \<and>
     ru_vm_count (lg_used l) < 2 ^ 64 \<and> ru_vcpus (lg_used l) < 2 ^ 64 \<and> ru_memory_mib (lg_used l) < 2 ^ 64"

lemma ledger_inv_default: "ledger_inv ledger_default"
  by (simp add: ledger_inv_def ledger_default_def reserved_def)

text \<open>What a successful reservation requires and does.\<close>

lemma ledger_reserve_Ok:
  "ledger_reserve uid shape config strict l = Ok l' \<longleftrightarrow>
     lg_by_vm l uid = None \<and>
     lg_by_vm l' = (lg_by_vm l)(uid \<mapsto> shape) \<and>
     lg_used l' = \<lparr>ru_vm_count = ru_vm_count (lg_used l) + 1,
       ru_vcpus = ru_vcpus (lg_used l) + rs_vcpus shape,
       ru_memory_mib = ru_memory_mib (lg_used l) + rs_memory_mib shape\<rparr> \<and>
     ru_vm_count (lg_used l') < 2 ^ 64 \<and> ru_vcpus (lg_used l') < 2 ^ 64 \<and> ru_memory_mib (lg_used l') < 2 ^ 64 \<and>
     (strict \<longrightarrow> ru_vm_count (lg_used l') \<le> cf_max_vms config \<and> ru_vcpus (lg_used l') \<le> cf_max_vcpus config \<and>
       ru_memory_mib (lg_used l') \<le> cf_max_memory_mib config)"
  by (cases l') (auto simp: ledger_reserve_def bindR_def ok_or_def checked_add_def)

lemma ledger_inv_reserve:
  "ledger_inv l \<Longrightarrow> ledger_reserve uid shape config strict l = Ok l' \<Longrightarrow> ledger_inv l'"
  by (auto simp: ledger_reserve_Ok ledger_inv_def reserved_insert domIff)

lemma ledger_inv_release:
  assumes "ledger_inv l"
  shows "ledger_inv (snd (ledger_release uid l))"
proof (cases "lg_by_vm l uid")
  case (Some sh)
  then have "card (dom (lg_by_vm l)) = card (dom ((lg_by_vm l)(uid := None))) + 1"
    using assms card.remove [of "dom (lg_by_vm l)" uid] by (simp add: ledger_inv_def domI)
  then show ?thesis
    using assms Some reserved_remove [of "lg_by_vm l" uid sh]
    by (simp add: ledger_release_def ledger_inv_def)
qed (simp add: ledger_release_def assms)

section \<open>Histories\<close>

text \<open>The operations the orchestrator performs, and a panic that poisons the mutex.\<close>

inductive sched_step :: "scheduler \<Rightarrow> scheduler \<Rightarrow> bool" where
  admit: "sched_step s (snd (try_reserve uid shape s))"
| adopt: "sched_step s (snd (reserve_existing uid shape s))"
| vacate: "sched_step s (snd (sched_release uid s))"
| poison: "sched_step s (s\<lparr>sc_ledger := None\<rparr>)"

definition sched_inv :: "scheduler \<Rightarrow> bool" where
  "sched_inv s \<longleftrightarrow> (\<forall>l. sc_ledger s = Some l \<longrightarrow> ledger_inv l)"

lemma sched_inv_reserve: "sched_inv s \<Longrightarrow> sched_inv (snd (sched_reserve strict uid shape s))"
  by (auto simp: sched_inv_def sched_reserve_def dest: ledger_inv_reserve split: option.split sum.split)

lemma sched_inv_release: "sched_inv s \<Longrightarrow> sched_inv (snd (sched_release uid s))"
  using ledger_inv_release [of _ uid]
  by (auto simp: sched_inv_def sched_release_def split: option.split prod.split) (metis snd_conv)

lemma sched_inv_step: "sched_step s s' \<Longrightarrow> sched_inv s \<Longrightarrow> sched_inv s'"
  by (induction rule: sched_step.induct)
    (simp_all add: try_reserve_def reserve_existing_def sched_inv_reserve sched_inv_release,
     simp add: sched_inv_def)

lemma sched_inv_reachable: "sched_step\<^sup>*\<^sup>* (scheduler_new config) s \<Longrightarrow> sched_inv s"
proof (induction rule: rtranclp_induct)
  case base
  then show ?case by (simp add: sched_inv_def scheduler_new_def ledger_inv_default)
next
  case (step s s')
  then show ?case using sched_inv_step by blast
qed

lemma sched_config_step: "sched_step s s' \<Longrightarrow> sc_config s' = sc_config s"
  by (induction rule: sched_step.induct)
    (auto simp: try_reserve_def reserve_existing_def sched_reserve_def sched_release_def
      split: option.split sum.split prod.split)

lemma sched_config_reachable: "sched_step\<^sup>*\<^sup>* s s' \<Longrightarrow> sc_config s' = sc_config s"
  by (induction rule: rtranclp_induct) (simp_all add: sched_config_step)

lemma try_reserve_Ok:
  assumes "fst (try_reserve uid shape s) = Ok ()"
  obtains l l' where "sc_ledger s = Some l" "ledger_reserve uid shape (sc_config s) True l = Ok l'"
    "snd (try_reserve uid shape s) = s\<lparr>sc_ledger := Some l'\<rparr>"
  using assms by (auto simp: try_reserve_def sched_reserve_def split: option.splits sum.splits)

lemma release_reserved:
  "ledger_reserve uid shape config strict l = Ok l' \<Longrightarrow> ledger_release uid l' = (True, l)"
  by (cases l; cases "lg_used l") (auto simp: ledger_reserve_Ok ledger_release_def fun_upd_idem)

text \<open>
  C16: In every history of admissions, adoptions, releases and panics the ledger's counters
  are the sums over the VMs it holds. An admission that succeeds keeps all three within the
  configured limits, and releasing the VM restores the scheduler exactly.
\<close>

theorem ledger_accounts:
  assumes "sched_step\<^sup>*\<^sup>* (scheduler_new config) s"
  shows "(\<forall>l. sc_ledger s = Some l \<longrightarrow> ledger_inv l) \<and>
    (fst (try_reserve uid shape s) = Ok () \<longrightarrow>
       (let s' = snd (try_reserve uid shape s); used = sched_usage s' in
        ru_vm_count used \<le> cf_max_vms config \<and> ru_vcpus used \<le> cf_max_vcpus config \<and>
        ru_memory_mib used \<le> cf_max_memory_mib config \<and> sched_release uid s' = (True, s)))"
proof -
  have config: "sc_config s = config"
    using sched_config_reachable [OF assms] by (simp add: scheduler_new_def)
  have "ru_vm_count (sched_usage s') \<le> cf_max_vms config \<and> ru_vcpus (sched_usage s') \<le> cf_max_vcpus config \<and>
      ru_memory_mib (sched_usage s') \<le> cf_max_memory_mib config \<and> sched_release uid s' = (True, s)"
    if ok: "fst (try_reserve uid shape s) = Ok ()" and s': "s' = snd (try_reserve uid shape s)" for s'
  proof -
    obtain l l' where l: "sc_ledger s = Some l" "ledger_reserve uid shape config True l = Ok l'"
      "s' = s\<lparr>sc_ledger := Some l'\<rparr>"
      using try_reserve_Ok [OF ok] config s' by metis
    then show ?thesis
      using release_reserved [OF l(2)]
      by (auto simp: sched_usage_def sched_release_def ledger_reserve_Ok)
  qed
  then show ?thesis
    using sched_inv_reachable [OF assms] by (simp add: sched_inv_def Let_def)
qed

text \<open>A host with room for two VMs, on which one is admitted.\<close>

definition ex_config :: sched_config where
  "ex_config = \<lparr>cf_host_id = ''a'', cf_max_vms = 2, cf_max_vcpus = 4, cf_max_memory_mib = 1024\<rparr>"

definition ex_shape :: resource_shape where
  "ex_shape = \<lparr>rs_vcpus = 2, rs_memory_mib = 512\<rparr>"

definition ex_sched :: scheduler where
  "ex_sched = snd (try_reserve 1 ex_shape (scheduler_new ex_config))"

lemma ex_sched_reachable: "sched_step\<^sup>*\<^sup>* (scheduler_new ex_config) ex_sched"
  unfolding ex_sched_def by (intro r_into_rtranclp sched_step.admit)

lemmas sched_eval = try_reserve_def sched_reserve_def ledger_reserve_def ledger_default_def scheduler_new_def
  ex_config_def ex_shape_def bindR_def ok_or_def checked_add_def

theorem ledger_accounts_witness:
  "fst (try_reserve 7 ex_shape ex_sched) = Ok () \<and>
   sched_release 7 (snd (try_reserve 7 ex_shape ex_sched)) = (True, ex_sched)"
proof -
  have "fst (try_reserve 7 ex_shape ex_sched) = Ok ()"
    by (simp add: ex_sched_def sched_eval)
  then show ?thesis
    using ledger_accounts [OF ex_sched_reachable, of 7 ex_shape] by (simp add: Let_def)
qed

section \<open>Placement\<close>

lemma candidates_set:
  "set (candidates self v m peers) = {p \<in> set peers. fits v m p \<and> hc_host_id p \<noteq> self}"
  by (auto simp: candidates_def)

lemma candidates_least:
  "candidates self v m peers = p # ps \<Longrightarrow> q \<in> set (p # ps) \<Longrightarrow> hc_sandbox_count p \<le> hc_sandbox_count q"
  using sorted_sort_key [of hc_sandbox_count "filter (\<lambda>p. fits v m p \<and> hc_host_id p \<noteq> self) peers"]
  unfolding candidates_def [symmetric] by auto

text \<open>Room for a request that asks for something means the ledger admits it.\<close>

lemma fits_admitted:
  assumes "fits v m (local_capacity s)" and "0 < unat v" and "0 < m"
    and "sc_ledger s = Some l" and "lg_by_vm l uid = None"
    and "cf_max_vms (sc_config s) < 2 ^ 64" "cf_max_vcpus (sc_config s) < 2 ^ 64"
      "cf_max_memory_mib (sc_config s) < 2 ^ 64"
  shows "fst (try_reserve uid (shape_new v m) s) = Ok ()"
  using assms
  by (auto simp: fits_def local_capacity_def sched_usage_def Let_def try_reserve_def sched_reserve_def
      ledger_reserve_def bindR_def ok_or_def checked_add_def shape_new_def split: if_splits)

text \<open>
  C17: Placement is sound and complete. A request for some CPU and memory that is placed
  locally is then admitted by the ledger, under any new id; one placed on a peer goes to a
  healthy peer with room, no busier than any other such peer; and placement fails exactly
  when neither this host nor any other healthy host has room.
\<close>

theorem placement_sound_complete:
  assumes "0 < unat v" and "0 < m" and "sc_ledger s = Some l"
    and "cf_max_vms (sc_config s) < 2 ^ 64" "cf_max_vcpus (sc_config s) < 2 ^ 64"
      "cf_max_memory_mib (sc_config s) < 2 ^ 64"
  shows "case place v m peers s of
    Inl e \<Rightarrow> \<not> fits v m (local_capacity s) \<and>
      (\<forall>p \<in> set peers. hc_host_id p \<noteq> cf_host_id (sc_config s) \<longrightarrow> \<not> fits v m p)
  | Inr pl \<Rightarrow>
      if pl_local pl
      then pl_host_id pl = cf_host_id (sc_config s) \<and>
        (\<forall>uid. lg_by_vm l uid = None \<longrightarrow> fst (try_reserve uid (shape_new v m) s) = Ok ())
      else \<exists>p \<in> set peers. pl_host_id pl = hc_host_id p \<and> fits v m p \<and>
        hc_host_id p \<noteq> cf_host_id (sc_config s) \<and>
        (\<forall>q \<in> set peers. fits v m q \<and> hc_host_id q \<noteq> cf_host_id (sc_config s) \<longrightarrow>
           hc_sandbox_count p \<le> hc_sandbox_count q)"
proof -
  let ?self = "cf_host_id (sc_config s)"
  have admitted: "\<forall>uid. lg_by_vm l uid = None \<longrightarrow> fst (try_reserve uid (shape_new v m) s) = Ok ()"
    if "fits v m (local_capacity s)"
    using fits_admitted [OF that assms(1-3) _ assms(4-6)] by blast
  have self: "hc_host_id (local_capacity s) = ?self"
    by (simp add: local_capacity_def Let_def)
  show ?thesis
  proof (cases "candidates ?self v m peers")
    case Nil
    then have "\<forall>p \<in> set peers. hc_host_id p \<noteq> ?self \<longrightarrow> \<not> fits v m p"
      using candidates_set [of ?self v m peers] by auto
    then show ?thesis
      using Nil admitted by (auto simp: place_def Let_def self)
  next
    case (Cons p ps)
    have p: "p \<in> set peers" "fits v m p" "hc_host_id p \<noteq> ?self"
      using candidates_set [of ?self v m peers] Cons by auto
    have "hc_sandbox_count p \<le> hc_sandbox_count q"
      if "q \<in> set peers" "fits v m q" "hc_host_id q \<noteq> ?self" for q
      using candidates_least [OF Cons] candidates_set [of ?self v m peers] that Cons by auto
    then show ?thesis
      using Cons admitted p by (auto simp: place_def Let_def self)
  qed
qed

theorem placement_sound_complete_witness:
  "place 1 256 [] ex_sched = Ok \<lparr>pl_host_id = ''a'', pl_local = True\<rparr> \<and>
   fst (try_reserve 7 (shape_new 1 256) ex_sched) = Ok ()"
proof -
  have fits: "fits 1 256 (local_capacity ex_sched)" "hc_host_id (local_capacity ex_sched) = ''a''"
    by (simp_all add: fits_def local_capacity_def sched_usage_def ex_sched_def sched_eval Let_def)
  then have place: "place 1 256 [] ex_sched = Ok \<lparr>pl_host_id = ''a'', pl_local = True\<rparr>"
    by (simp add: place_def candidates_def Let_def)
  obtain l where "sc_ledger ex_sched = Some l" "lg_by_vm l 7 = None"
    by (simp add: ex_sched_def sched_eval)
  then show ?thesis
    using placement_sound_complete [of 1 256 ex_sched l "[]"] place
    by (simp add: ex_sched_def sched_eval)
qed

end
