(* ===== verification/Balloon.thy ===== *)
theory Balloon
  imports Memory VQueue
begin

text \<open>
  The virtio balloon (\<open>vmm-devices/src/virtio/balloon.rs\<close>) with its virtio-mmio
  registers (\<open>regs.rs\<close>): the device record, every register read and write, the two
  queues, parsing of page-frame lists, inflation through the memory backend, reset, and
  saving and restoring. Its queue passes run the virtqueue processor with a handler that
  discards guest pages, so the device's memory is threaded through the pass.
\<close>

section \<open>Registers\<close>

definition R_MAGIC_VALUE :: u64 where "R_MAGIC_VALUE = 0x000"
definition R_VERSION :: u64 where "R_VERSION = 0x004"
definition R_DEVICE_ID :: u64 where "R_DEVICE_ID = 0x008"
definition R_VENDOR_ID :: u64 where "R_VENDOR_ID = 0x00c"
definition R_HOST_FEATURES :: u64 where "R_HOST_FEATURES = 0x010"
definition R_HOST_FEATURES_SEL :: u64 where "R_HOST_FEATURES_SEL = 0x014"
definition R_GUEST_FEATURES :: u64 where "R_GUEST_FEATURES = 0x020"
definition R_GUEST_FEATURES_SEL :: u64 where "R_GUEST_FEATURES_SEL = 0x024"
definition R_QUEUE_SEL :: u64 where "R_QUEUE_SEL = 0x030"
definition R_QUEUE_NUM_MAX :: u64 where "R_QUEUE_NUM_MAX = 0x034"
definition R_QUEUE_NUM :: u64 where "R_QUEUE_NUM = 0x038"
definition R_QUEUE_READY :: u64 where "R_QUEUE_READY = 0x044"
definition R_QUEUE_NOTIFY :: u64 where "R_QUEUE_NOTIFY = 0x050"
definition R_INTERRUPT_STATUS :: u64 where "R_INTERRUPT_STATUS = 0x060"
definition R_INTERRUPT_ACK :: u64 where "R_INTERRUPT_ACK = 0x064"
definition R_STATUS :: u64 where "R_STATUS = 0x070"
definition R_QUEUE_DESC_LOW :: u64 where "R_QUEUE_DESC_LOW = 0x080"
definition R_QUEUE_DESC_HIGH :: u64 where "R_QUEUE_DESC_HIGH = 0x084"
definition R_QUEUE_DRIVER_LOW :: u64 where "R_QUEUE_DRIVER_LOW = 0x090"
definition R_QUEUE_DRIVER_HIGH :: u64 where "R_QUEUE_DRIVER_HIGH = 0x094"
definition R_QUEUE_DEVICE_LOW :: u64 where "R_QUEUE_DEVICE_LOW = 0x0a0"
definition R_QUEUE_DEVICE_HIGH :: u64 where "R_QUEUE_DEVICE_HIGH = 0x0a4"
definition R_CONFIG_GENERATION :: u64 where "R_CONFIG_GENERATION = 0x0fc"
definition R_CONFIG :: u64 where "R_CONFIG = 0x100"
definition VIRTIO_MAGIC :: u32 where "VIRTIO_MAGIC = 0x74726976"

lemmas reg_defs = R_MAGIC_VALUE_def R_VERSION_def R_DEVICE_ID_def R_VENDOR_ID_def R_HOST_FEATURES_def
  R_HOST_FEATURES_SEL_def R_GUEST_FEATURES_def R_GUEST_FEATURES_SEL_def R_QUEUE_SEL_def
  R_QUEUE_NUM_MAX_def R_QUEUE_NUM_def R_QUEUE_READY_def R_QUEUE_NOTIFY_def R_INTERRUPT_STATUS_def
  R_INTERRUPT_ACK_def R_STATUS_def R_QUEUE_DESC_LOW_def R_QUEUE_DESC_HIGH_def R_QUEUE_DRIVER_LOW_def
  R_QUEUE_DRIVER_HIGH_def R_QUEUE_DEVICE_LOW_def R_QUEUE_DEVICE_HIGH_def R_CONFIG_GENERATION_def
  R_CONFIG_def

definition DRIVER_OK :: u32 where "DRIVER_OK = 4"
definition DEVICE_ID_BALLOON :: u32 where "DEVICE_ID_BALLOON = 5"
definition MAX_PFNS_PER_REQUEST :: usize where "MAX_PFNS_PER_REQUEST = 256"
definition QUEUE_INFLATE :: usize where "QUEUE_INFLATE = 0"
definition QUEUE_DEFLATE :: usize where "QUEUE_DEFLATE = 1"
definition QUEUE_COUNT :: usize where "QUEUE_COUNT = 2"
definition FEATURES_LOW :: u32 where "FEATURES_LOW = 0"
definition FEATURES_HIGH :: u32 where "FEATURES_HIGH = 1"
definition INT_VRING :: u32 where "INT_VRING = 1"
definition INT_CONFIG :: u32 where "INT_CONFIG = 2"

text \<open>Bitwise negation at width \<open>w\<close>.\<close>

definition bit_not :: "nat \<Rightarrow> nat \<Rightarrow> nat" where
  "bit_not w x = 2 ^ w - 1 - x"

definition set_low :: "u32 \<Rightarrow> u64 \<Rightarrow> u64" where
  "set_low v addr = (addr AND bit_not 64 0xffffffff) OR v"

definition set_high :: "u32 \<Rightarrow> u64 \<Rightarrow> u64" where
  "set_high v addr = (addr AND 0xffffffff) OR push_bit 32 v"

section \<open>Queue configuration\<close>

record queue_state =
  qs_size :: u16
  qs_desc :: u64
  qs_avail :: u64
  qs_used :: u64
  qs_ready :: bool

definition queue_state_default :: queue_state where
  "queue_state_default = \<lparr>qs_size = 0, qs_desc = 0, qs_avail = 0, qs_used = 0, qs_ready = False\<rparr>"

definition valid_size :: "queue_state \<Rightarrow> bool" where
  "valid_size q = is_valid_queue_size (qs_size q) MAX_QUEUE_SIZE"

definition set_size :: "u32 \<Rightarrow> queue_state \<Rightarrow> queue_state" where
  "set_size raw q =
     (if 2 ^ 16 \<le> raw then q\<lparr>qs_size := 0, qs_ready := False\<rparr>
      else if is_valid_queue_size (of_nat raw) MAX_QUEUE_SIZE then q\<lparr>qs_size := of_nat raw\<rparr>
      else q\<lparr>qs_size := 0, qs_ready := False\<rparr>)"

definition set_ready :: "bool \<Rightarrow> queue_state \<Rightarrow> queue_state" where
  "set_ready ready q = q\<lparr>qs_ready := ready \<and> valid_size q\<rparr>"

definition qs_config :: "queue_state \<Rightarrow> queue_config option" where
  "qs_config q =
     (if qs_ready q \<and> valid_size q
      then Some \<lparr>q_size = qs_size q, q_desc = qs_desc q, q_avail = qs_avail q, q_used = qs_used q, q_ready = True\<rparr>
      else None)"

section \<open>The device\<close>

text \<open>The event descriptor is its counter.\<close>

record 'm balloon =
  bn_irq :: u32
  bn_status :: u32
  bn_queue_sel :: u32
  bn_host_features_sel :: u32
  bn_guest_features_sel :: u32
  bn_guest_features_low :: u32
  bn_guest_features_high :: u32
  bn_queues :: "queue_state list"
  bn_processors :: "vq option list"
  bn_memory :: "'m guest_memory"
  bn_activated :: bool
  bn_interrupt_status :: u32
  bn_config_generation :: u32
  bn_target_pages :: u32
  bn_actual_pages :: u32
  bn_irq_evt :: "nat option"
  bn_inflate_pages :: u64
  bn_deflate_pages :: u64
  bn_rejected_pfns :: u64

record balloon_state =
  bs_status :: u32
  bs_queue_sel :: u32
  bs_host_features_sel :: u32
  bs_guest_features_sel :: u32
  bs_guest_features_low :: u32
  bs_guest_features_high :: u32
  bs_queues :: "queue_state list"
  bs_processors :: "vq_state option list"
  bs_activated :: bool
  bs_interrupt_status :: u32
  bs_config_generation :: u32
  bs_target_pages :: u32
  bs_actual_pages :: u32

definition balloon_new :: "u32 \<Rightarrow> 'm guest_memory \<Rightarrow> u32 \<Rightarrow> string + 'm balloon" where
  "balloon_new irq memory target_pages =
     (if gm_size memory div PAGE_SIZE < target_pages then Err ''balloon target exceeds guest memory''
      else Ok \<lparr>bn_irq = irq, bn_status = 0, bn_queue_sel = 0, bn_host_features_sel = 0,
        bn_guest_features_sel = 0, bn_guest_features_low = 0, bn_guest_features_high = 0,
        bn_queues = replicate QUEUE_COUNT queue_state_default, bn_processors = replicate QUEUE_COUNT None,
        bn_memory = memory, bn_activated = False, bn_interrupt_status = 0, bn_config_generation = 0,
        bn_target_pages = target_pages, bn_actual_pages = 0, bn_irq_evt = None,
        bn_inflate_pages = 0, bn_deflate_pages = 0, bn_rejected_pfns = 0\<rparr>)"

definition set_irq_evt :: "nat \<Rightarrow> 'm balloon \<Rightarrow> 'm balloon" where
  "set_irq_evt event b = b\<lparr>bn_irq_evt := Some event\<rparr>"

definition has_pending_interrupt :: "'m balloon \<Rightarrow> bool" where
  "has_pending_interrupt b \<longleftrightarrow> bn_interrupt_status b \<noteq> 0"

definition trigger_interrupt :: "u32 \<Rightarrow> 'm balloon \<Rightarrow> 'm balloon" where
  "trigger_interrupt kind b =
     b\<lparr>bn_interrupt_status := bn_interrupt_status b OR kind,
       bn_irq_evt := map_option Suc (bn_irq_evt b)\<rparr>"

definition reassert_pending_interrupt :: "'m balloon \<Rightarrow> 'm balloon" where
  "reassert_pending_interrupt b =
     (if bn_interrupt_status b = 0 then b else b\<lparr>bn_irq_evt := map_option Suc (bn_irq_evt b)\<rparr>)"

definition set_target_pages :: "u32 \<Rightarrow> 'm balloon \<Rightarrow> (string + unit) \<times> 'm balloon" where
  "set_target_pages pages b =
     (if gm_size (bn_memory b) div PAGE_SIZE < pages then (Err ''balloon target exceeds guest memory'', b)
      else (Ok (), trigger_interrupt INT_CONFIG
        (b\<lparr>bn_target_pages := pages, bn_config_generation := wrapping_add 32 (bn_config_generation b) 1\<rparr>)))"

definition selected_queue :: "'m balloon \<Rightarrow> queue_state option" where
  "selected_queue b =
     (if bn_queue_sel b < length (bn_queues b) then Some (bn_queues b ! bn_queue_sel b) else None)"

definition update_selected_queue :: "(queue_state \<Rightarrow> queue_state) \<Rightarrow> 'm balloon \<Rightarrow> 'm balloon" where
  "update_selected_queue f b =
     (if bn_queue_sel b < length (bn_queues b)
      then b\<lparr>bn_queues := (bn_queues b)[bn_queue_sel b := f (bn_queues b ! bn_queue_sel b)]\<rparr> else b)"

section \<open>Page-frame requests\<close>

primrec total_pfns :: "buffer list \<Rightarrow> usize \<Rightarrow> usize option" where
  "total_pfns [] tot = Some tot"
| "total_pfns (b # bs) tot =
     (if snd b = 0 \<or> snd b mod 4 \<noteq> 0 then None
      else Option.bind (checked_add 64 tot (snd b div 4)) (total_pfns bs))"

definition read_pfn :: "'m ram_ops \<Rightarrow> 'm guest_memory \<Rightarrow> u64 \<Rightarrow> u64 \<Rightarrow> u32 option" where
  "read_pfn G gm address offset =
     Option.bind (checked_add 64 address offset) (\<lambda>pfn_address.
     Option.bind (rd G (gm_mem gm) pfn_address 4) (\<lambda>raw.
     Option.bind (checked_mul 64 (from_le raw) PAGE_SIZE) (\<lambda>start.
     Option.bind (checked_add 64 start PAGE_SIZE) (\<lambda>fin.
     if gm_size gm < fin then None else Some (from_le raw)))))"

primrec read_pfns :: "'m ram_ops \<Rightarrow> 'm guest_memory \<Rightarrow> (u64 \<times> u64) list \<Rightarrow> u32 list \<Rightarrow> u32 list option" where
  "read_pfns G gm [] pfns = Some pfns"
| "read_pfns G gm (slot # slots) pfns =
     Option.bind (read_pfn G gm (fst slot) (snd slot)) (\<lambda>pfn. read_pfns G gm slots (pfns @ [pfn]))"

definition pfn_slots :: "buffer list \<Rightarrow> (u64 \<times> u64) list" where
  "pfn_slots readable = concat (map (\<lambda>(address, len). map (\<lambda>k. (address, 4 * k)) [0..<div_ceil len 4]) readable)"

definition parse_pfns ::
  "'m ram_ops \<Rightarrow> 'm guest_memory \<Rightarrow> buffer list \<Rightarrow> buffer list \<Rightarrow> u32 list option" where
  "parse_pfns G gm readable writable =
     (if writable \<noteq> [] then None
      else Option.bind (total_pfns readable 0) (\<lambda>tot.
        if tot = 0 \<or> MAX_PFNS_PER_REQUEST < tot then None
        else read_pfns G gm (pfn_slots readable) []))"

text \<open>The longest run of consecutive frames, and what follows it.\<close>

fun take_run :: "u32 \<Rightarrow> u32 list \<Rightarrow> u32 \<times> u32 list" where
  "take_run fin [] = (fin, [])"
| "take_run fin (p # ps) = (if p = saturating_add 32 fin 1 then take_run p ps else (fin, p # ps))"

lemma take_run_shorter: "take_run fin ps = (fin', rest) \<Longrightarrow> length rest \<le> length ps"
  by (induction fin ps rule: take_run.induct) (auto split: if_splits)

text \<open>Release the runs in order; \<open>None\<close> is a panic in the backend.\<close>

function inflate_runs ::
  "'m host_ops \<Rightarrow> file_id list \<Rightarrow> u32 list \<Rightarrow> 'm guest_memory \<Rightarrow> (bool \<times> 'm guest_memory) option" where
  "inflate_runs H held [] gm = Some (True, gm)"
| "inflate_runs H held (start # ps) gm =
     (case take_run start ps of (fin, rest) \<Rightarrow>
        case discard_range H held (start * PAGE_SIZE) ((fin - start + 1) * PAGE_SIZE) gm of
          None \<Rightarrow> None
        | Some (r, gm') \<Rightarrow>
            (case r of Inl _ \<Rightarrow> Some (False, gm') | Inr _ \<Rightarrow> inflate_runs H held rest gm'))"
  by pat_completeness auto

termination inflate_runs
  by (relation "measure (\<lambda>(_, _, ps, _). length ps)")
    (auto simp: less_Suc_eq_le dest!: take_run_shorter [OF sym])

definition inflate ::
  "'m host_ops \<Rightarrow> file_id list \<Rightarrow> u32 list \<Rightarrow> 'm balloon \<Rightarrow> (bool \<times> 'm balloon) option" where
  "inflate H held pfns b =
     (let pfns' = remdups_adj (sort pfns) in
      map_option (\<lambda>(ok, gm).
        (ok, b\<lparr>bn_memory := gm,
               bn_inflate_pages := (if ok then wrapping_add 64 (bn_inflate_pages b) (length pfns')
                                    else bn_inflate_pages b)\<rparr>))
        (inflate_runs H held pfns' (bn_memory b)))"

section \<open>Queue passes\<close>

text \<open>The device's memory as the queue processor sees it, and back.\<close>

definition tracked :: "'m guest_memory \<Rightarrow> 'm dmem" where
  "tracked gm = \<lparr>dm_mem = gm_mem gm, dm_dirty = Some (gm_dirty gm)\<rparr>"

definition with_tracked :: "'m dmem \<Rightarrow> 'm balloon \<Rightarrow> 'm balloon" where
  "with_tracked dm b =
     b\<lparr>bn_memory := (bn_memory b)\<lparr>gm_mem := dm_mem dm,
        gm_dirty := (case dm_dirty dm of Some d \<Rightarrow> d | None \<Rightarrow> gm_dirty (bn_memory b))\<rparr>\<rparr>"

definition count_rejected :: "'m balloon \<Rightarrow> 'm balloon" where
  "count_rejected b = b\<lparr>bn_rejected_pfns := wrapping_add 64 (bn_rejected_pfns b) 1\<rparr>"

definition serve_request ::
  "'m ram_ops \<Rightarrow> 'm host_ops \<Rightarrow> file_id list \<Rightarrow> usize \<Rightarrow> buffer list \<Rightarrow> buffer list \<Rightarrow> 'm balloon \<Rightarrow>
   'm balloon option" where
  "serve_request G H held queue_index readable writable b =
     (case parse_pfns G (bn_memory b) readable writable of
        None \<Rightarrow> Some (count_rejected b)
      | Some pfns \<Rightarrow>
          if queue_index = QUEUE_INFLATE then
            map_option (\<lambda>(ok, b'). if ok then b' else count_rejected b') (inflate H held pfns b)
          else if queue_index = QUEUE_DEFLATE then
            Some (b\<lparr>bn_deflate_pages := wrapping_add 64 (bn_deflate_pages b) (length pfns)\<rparr>)
          else Some b)"

text \<open>The closure given to the processor. Its state is the device, \<open>None\<close> after a panic.\<close>

definition balloon_handler ::
  "'m ram_ops \<Rightarrow> 'm host_ops \<Rightarrow> file_id list \<Rightarrow> usize \<Rightarrow> ('m balloon option, 'm) desc_handler" where
  "balloon_handler G H held queue_index s dm readable writable =
     (case s of
        None \<Rightarrow> (None, None, dm)
      | Some b \<Rightarrow>
          (case serve_request G H held queue_index readable writable (with_tracked dm b) of
             None \<Rightarrow> (None, None, dm)
           | Some b' \<Rightarrow> (Some 0, Some b', tracked (bn_memory b'))))"

text \<open>\<open>None\<close> when the call panics.\<close>

definition balloon_process_queue ::
  "'m ram_ops \<Rightarrow> 'm host_ops \<Rightarrow> file_id list \<Rightarrow> usize \<Rightarrow> 'm balloon \<Rightarrow> (usize \<times> 'm balloon) option" where
  "balloon_process_queue G H held queue_index b =
     (if QUEUE_COUNT \<le> queue_index then Some (0, b)
      else
        case (if queue_index < length (bn_queues b) then qs_config (bn_queues b ! queue_index) else None) of
          None \<Rightarrow> Some (0, b)
        | Some config \<Rightarrow>
            if length (bn_processors b) \<le> queue_index then None
            else
              let processor = update_config config
                    (case bn_processors b ! queue_index of None \<Rightarrow> vq_new config | Some q \<Rightarrow> q)
              in
              Option.bind
                (process_queue_descriptors_dirty G (balloon_handler G H held queue_index) processor (Some b)
                   (tracked (bn_memory b))) (\<lambda>p.
              map_option (\<lambda>b'.
                let b1 = (with_tracked (pr_dm p) b')
                      \<lparr>bn_processors := (bn_processors b')[queue_index := Some (pr_vq p)]\<rparr>
                in (pr_done p, if 0 < pr_done p then trigger_interrupt INT_VRING b1 else b1))
                (pr_state p)))"

section \<open>Reset, save and restore\<close>

definition balloon_reset :: "'m balloon \<Rightarrow> 'm balloon" where
  "balloon_reset b =
     b\<lparr>bn_status := 0, bn_activated := False, bn_queue_sel := 0, bn_host_features_sel := 0,
       bn_guest_features_sel := 0, bn_guest_features_low := 0, bn_guest_features_high := 0,
       bn_interrupt_status := 0, bn_queues := map (\<lambda>_. queue_state_default) (bn_queues b),
       bn_processors := replicate QUEUE_COUNT None\<rparr>"

definition balloon_save :: "'m balloon \<Rightarrow> balloon_state" where
  "balloon_save b =
     \<lparr>bs_status = bn_status b, bs_queue_sel = bn_queue_sel b,
      bs_host_features_sel = bn_host_features_sel b, bs_guest_features_sel = bn_guest_features_sel b,
      bs_guest_features_low = bn_guest_features_low b, bs_guest_features_high = bn_guest_features_high b,
      bs_queues = bn_queues b, bs_processors = map (map_option vq_save_state) (bn_processors b),
      bs_activated = bn_activated b, bs_interrupt_status = bn_interrupt_status b,
      bs_config_generation = bn_config_generation b, bs_target_pages = bn_target_pages b,
      bs_actual_pages = bn_actual_pages b\<rparr>"

definition restore_processor :: "queue_state list \<Rightarrow> nat \<times> vq_state option \<Rightarrow> vq option" where
  "restore_processor queues = (\<lambda>(index, saved).
     Option.bind saved (\<lambda>st.
     Option.bind (if index < length queues then Some (queues ! index) else None) (\<lambda>q.
     map_option (\<lambda>config. vq_from_state config st) (qs_config q))))"

definition balloon_apply_state :: "balloon_state \<Rightarrow> 'm balloon \<Rightarrow> 'm balloon" where
  "balloon_apply_state st b =
     b\<lparr>bn_status := bs_status st, bn_queue_sel := bs_queue_sel st,
       bn_host_features_sel := bs_host_features_sel st, bn_guest_features_sel := bs_guest_features_sel st,
       bn_guest_features_low := bs_guest_features_low st, bn_guest_features_high := bs_guest_features_high st,
       bn_queues := bs_queues st,
       bn_processors := map (restore_processor (bs_queues st)) (enumerate 0 (bs_processors st)),
       bn_activated := bs_activated st, bn_interrupt_status := bs_interrupt_status st,
       bn_config_generation := bs_config_generation st, bn_target_pages := bs_target_pages st,
       bn_actual_pages := bs_actual_pages st\<rparr>"

section \<open>Register access\<close>

definition of_selected :: "(queue_state \<Rightarrow> nat) \<Rightarrow> 'm balloon \<Rightarrow> nat" where
  "of_selected f b = (case selected_queue b of None \<Rightarrow> 0 | Some q \<Rightarrow> f q)"

definition balloon_mmio_read :: "u64 \<Rightarrow> 'm balloon \<Rightarrow> u64" where
  "balloon_mmio_read offset b =
     (if offset = R_MAGIC_VALUE then VIRTIO_MAGIC
      else if offset = R_VERSION then 2
      else if offset = R_DEVICE_ID then DEVICE_ID_BALLOON
      else if offset = R_VENDOR_ID then 0
      else if offset = R_HOST_FEATURES then
        (if bn_host_features_sel b = 0 then FEATURES_LOW
         else if bn_host_features_sel b = 1 then FEATURES_HIGH else 0)
      else if offset = R_QUEUE_NUM_MAX \<and> bn_queue_sel b < QUEUE_COUNT then unat MAX_QUEUE_SIZE
      else if offset = R_QUEUE_NUM then of_selected (\<lambda>q. unat (qs_size q)) b
      else if offset = R_QUEUE_READY then of_selected (\<lambda>q. of_bool (qs_ready q \<and> valid_size q)) b
      else if offset = R_STATUS then bn_status b
      else if offset = R_INTERRUPT_STATUS then bn_interrupt_status b
      else if offset = R_CONFIG_GENERATION then bn_config_generation b
      else if offset = R_QUEUE_DESC_LOW then of_selected (\<lambda>q. qs_desc q mod 2 ^ 32) b
      else if offset = R_QUEUE_DESC_HIGH then of_selected (\<lambda>q. drop_bit 32 (qs_desc q) mod 2 ^ 32) b
      else if offset = R_QUEUE_DRIVER_LOW then of_selected (\<lambda>q. qs_avail q mod 2 ^ 32) b
      else if offset = R_QUEUE_DRIVER_HIGH then of_selected (\<lambda>q. drop_bit 32 (qs_avail q) mod 2 ^ 32) b
      else if offset = R_QUEUE_DEVICE_LOW then of_selected (\<lambda>q. qs_used q mod 2 ^ 32) b
      else if offset = R_QUEUE_DEVICE_HIGH then of_selected (\<lambda>q. drop_bit 32 (qs_used q) mod 2 ^ 32) b
      else if offset = R_CONFIG then bn_target_pages b
      else if offset = R_CONFIG + 4 then bn_actual_pages b
      else 0)"

definition write_guest_features :: "u32 \<Rightarrow> 'm balloon \<Rightarrow> 'm balloon" where
  "write_guest_features value b =
     (if bn_guest_features_sel b = 0 then b\<lparr>bn_guest_features_low := value AND FEATURES_LOW\<rparr>
      else if bn_guest_features_sel b = 1 then b\<lparr>bn_guest_features_high := value AND FEATURES_HIGH\<rparr>
      else b)"

definition write_actual :: "u32 \<Rightarrow> 'm balloon \<Rightarrow> 'm balloon" where
  "write_actual value b =
     (if value \<le> gm_size (bn_memory b) div PAGE_SIZE then b\<lparr>bn_actual_pages := value\<rparr>
      else count_rejected b)"

text \<open>The registers whose write only changes the device's own fields.\<close>

definition write_register :: "u64 \<Rightarrow> u32 \<Rightarrow> 'm balloon \<Rightarrow> 'm balloon" where
  "write_register offset value b =
    (if offset = R_STATUS then
      (if value = 0 then balloon_reset b
       else b\<lparr>bn_status := value, bn_activated := value AND DRIVER_OK \<noteq> 0\<rparr>)
    else if offset = R_HOST_FEATURES_SEL then b\<lparr>bn_host_features_sel := value\<rparr>
    else if offset = R_GUEST_FEATURES_SEL then b\<lparr>bn_guest_features_sel := value\<rparr>
    else if offset = R_GUEST_FEATURES then write_guest_features value b
    else if offset = R_QUEUE_SEL then b\<lparr>bn_queue_sel := value\<rparr>
    else if offset = R_QUEUE_NUM then update_selected_queue (set_size value) b
    else if offset = R_QUEUE_READY then update_selected_queue (set_ready (value \<noteq> 0)) b
    else if offset = R_QUEUE_DESC_LOW then
      update_selected_queue (\<lambda>q. q\<lparr>qs_desc := set_low value (qs_desc q)\<rparr>) b
    else if offset = R_QUEUE_DESC_HIGH then
      update_selected_queue (\<lambda>q. q\<lparr>qs_desc := set_high value (qs_desc q)\<rparr>) b
    else if offset = R_QUEUE_DRIVER_LOW then
      update_selected_queue (\<lambda>q. q\<lparr>qs_avail := set_low value (qs_avail q)\<rparr>) b
    else if offset = R_QUEUE_DRIVER_HIGH then
      update_selected_queue (\<lambda>q. q\<lparr>qs_avail := set_high value (qs_avail q)\<rparr>) b
    else if offset = R_QUEUE_DEVICE_LOW then
      update_selected_queue (\<lambda>q. q\<lparr>qs_used := set_low value (qs_used q)\<rparr>) b
    else if offset = R_QUEUE_DEVICE_HIGH then
      update_selected_queue (\<lambda>q. q\<lparr>qs_used := set_high value (qs_used q)\<rparr>) b
    else if offset = R_INTERRUPT_ACK then
      b\<lparr>bn_interrupt_status := bn_interrupt_status b AND bit_not 32 value\<rparr>
    else if offset = R_CONFIG + 4 then write_actual value b
    else b)"

definition balloon_mmio_write ::
  "'m ram_ops \<Rightarrow> 'm host_ops \<Rightarrow> file_id list \<Rightarrow> u64 \<Rightarrow> u64 \<Rightarrow> 'm balloon \<Rightarrow> 'm balloon option" where
  "balloon_mmio_write G H held offset value64 b =
     (let value = value64 mod 2 ^ 32 in
      if offset = R_QUEUE_NOTIFY then map_option snd (balloon_process_queue G H held value b)
      else Some (write_register offset value b))"

end
