(* ===== verification/BalloonProofs.thy ===== *)
theory BalloonProofs
  imports Balloon VQueueClaims
begin

text \<open>
  Lemmas on the balloon: the runs a frame list is cut into, what inflating does to guest
  memory, the well-formedness every register access keeps, and the simulation between a
  device and its restored copy.
\<close>

section \<open>Runs of frames\<close>

lemma take_run_correct:
  assumes "take_run p ps = (fin, rest)" and "sorted_wrt (<) (p # ps)" and "\<forall>q \<in> set (p # ps). q < 2 ^ 32"
  shows "p \<le> fin \<and> fin < 2 ^ 32 \<and> set (p # ps) = {p..fin} \<union> set rest \<and> sorted_wrt (<) rest \<and>
    (\<forall>q \<in> set rest. fin < q)"
  using assms
proof (induction p ps rule: take_run.induct)
  case (2 fin' p ps)
  show ?case
  proof (cases "p = saturating_add 32 fin' 1")
    case True
    then have p: "p = Suc fin'" using 2(3,4) by (auto simp: saturating_add_def min_def split: if_splits)
    have "p \<le> fin \<and> fin < 2 ^ 32 \<and> set (p # ps) = {p..fin} \<union> set rest \<and> sorted_wrt (<) rest \<and>
      (\<forall>q \<in> set rest. fin < q)"
      using 2(1) [OF True] 2(2-4) True by simp
    moreover from this have "{fin'..fin} = insert fin' {p..fin}" using p by auto
    ultimately show ?thesis using p by auto
  next
    case False
    then show ?thesis using 2(2-4) by auto
  qed
qed auto

lemma sorted_dedup: "sorted (ps :: nat list) \<Longrightarrow> sorted_wrt (<) (remdups_adj ps)"
  by (induction ps rule: remdups_adj.induct) (auto simp: order.strict_trans1 order.strict_iff_order)

lemmas sorted_frames = sorted_dedup [OF sorted_sort]

lemma run_range:
  assumes "p \<le> fin"
  shows "p * PAGE_SIZE \<le> g \<and> g < p * PAGE_SIZE + (fin - p + 1) * PAGE_SIZE \<longleftrightarrow> g div PAGE_SIZE \<in> {p..fin}"
proof -
  have fin: "p * PAGE_SIZE + (fin - p + 1) * PAGE_SIZE = (fin + 1) * PAGE_SIZE"
    using assms by (simp flip: add_mult_distrib)
  have "p * PAGE_SIZE \<le> g \<longleftrightarrow> p \<le> g div PAGE_SIZE"
    by (simp add: PAGE_SIZE_def less_eq_div_iff_mult_less_eq)
  moreover have "g < (fin + 1) * PAGE_SIZE \<longleftrightarrow> g div PAGE_SIZE < fin + 1"
    by (simp add: PAGE_SIZE_def div_less_iff_less_mult)
  ultimately show ?thesis unfolding fin by (simp add: less_Suc_eq_le)
qed

section \<open>Discarding\<close>

lemma discard_range_size: "discard_range H held gpa len gm = Some (r, gm') \<Longrightarrow> gm_size gm' = gm_size gm"
  by (auto simp: discard_range_def mark_host_dirty_def Let_def split: if_splits option.splits sum.splits)
    (metis old.unit.exhaust sum.exhaust)+

lemma discard_range_fails:
  "gm_lazy gm = None \<Longrightarrow> discard_range H held gpa len gm = Some (Err e, gm') \<Longrightarrow> gm' = gm"
  by (auto simp: discard_range_def split: if_splits option.splits)

text \<open>What releasing the frames \<open>D\<close> does to the memory.\<close>

definition releases :: "'m ram_ops \<Rightarrow> 'm host_ops \<Rightarrow> nat set \<Rightarrow> 'm guest_memory \<Rightarrow> 'm guest_memory \<Rightarrow> bool" where
  "releases G H D gm gm' \<longleftrightarrow>
     gm_inv H gm' \<and> gm_lazy gm' = None \<and> gm_size gm' = gm_size gm \<and> gm_dirty gm \<subseteq> gm_dirty gm' \<and>
     (\<forall>g. g + 1 < 2 ^ 64 \<longrightarrow> rd G (gm_mem gm') g 1 =
        (if g div PAGE_SIZE \<in> D then Some [0] else rd G (gm_mem gm) g 1)) \<and>
     (\<forall>g i. g div PAGE_SIZE \<in> D \<longrightarrow> gpa_to_offset (gm_size gm) g = Some i \<longrightarrow> i div PAGE_SIZE \<in> gm_dirty gm')"

lemma releases_none: "gm_inv H gm \<Longrightarrow> gm_lazy gm = None \<Longrightarrow> releases G H {} gm gm"
  by (simp add: releases_def)

lemma releases_trans:
  "releases G H D gm gm' \<Longrightarrow> releases G H E gm' gm'' \<Longrightarrow> releases G H (D \<union> E) gm gm''"
  unfolding releases_def by (auto split: if_splits)

context host_mm
begin

lemma discard_run:
  assumes inv: "gm_inv H gm" "gm_lazy gm = None" and p: "p \<le> fin"
  shows "\<exists>r gm'. discard_range H held (p * PAGE_SIZE) ((fin - p + 1) * PAGE_SIZE) gm = Some (r, gm') \<and>
    (case r of Inl _ \<Rightarrow> gm' = gm | Inr _ \<Rightarrow> releases G H {p..fin} gm gm')"
proof -
  let ?a = "p * PAGE_SIZE" and ?n = "(fin - p + 1) * PAGE_SIZE"
  have "discard_range H held ?a ?n gm \<noteq> None"
  proof (cases "gpa_range_to_offset (gm_size gm) ?a ?n")
    case (Some off)
    have n: "0 < ?n" by (simp add: PAGE_SIZE_def)
    have "off + ?n < 2 ^ 64" using range_offset_bound [OF Some n] inv by (simp add: gm_inv_def)
    then obtain fr where "forget held off ?n (gm_ranges gm) = Some fr"
      using forget_backing [OF _ n, of "gm_ranges gm" off held] inv by (auto simp: gm_inv_def)
    then show ?thesis
      using Some inv by (simp add: discard_range_def split: option.split)
  qed (simp add: discard_range_def)
  then obtain r gm' where d: "discard_range H held ?a ?n gm = Some (r, gm')" by auto
  show ?thesis
  proof (cases r)
    case (Inl e)
    then show ?thesis using d discard_range_fails [OF inv(2)] by auto
  next
    case (Inr u)
    then have ok: "discard_range H held ?a ?n gm = Some (Ok (), gm')" using d by simp
    obtain off src where r: "gpa_range_to_offset (gm_size gm) ?a ?n = Some off" and n: "0 < ?n"
      and al: "page_aligned off" "page_aligned ?n" and dr: "dropped H (gm_mem gm) off ?n src (gm_mem gm')"
      and src: "\<And>i. off \<le> i \<Longrightarrow> i < off + ?n \<Longrightarrow> src i = None"
      and gm': "gm_size gm' = gm_size gm" "gm_lazy gm' = None" "gm_file_backed gm' = gm_file_backed gm"
      and dirty: "gm_dirty gm' = mark_range off ?n (gm_dirty gm)"
      and fr: "ranges_inv (gm_ranges gm')"
        "backing (fr_runs (gm_ranges gm')) = (backing (fr_runs (gm_ranges gm))) |` (- {off..<off + ?n})"
        "\<not> gm_file_backed gm \<longrightarrow> fr_runs (gm_ranges gm') = []"
      using discard_range_cases [OF inv ok] by auto
    have "off + ?n < 2 ^ 64" using range_offset_bound [OF r n] inv by (simp add: gm_inv_def)
    then have "i div PAGE_SIZE \<in> gm_dirty gm'"
      if "g div PAGE_SIZE \<in> {p..fin}" "gpa_to_offset (gm_size gm) g = Some i" for g i
      unfolding dirty using range_image [OF r n that(2)] run_range [OF p, of g] that
      by (intro mark_range_covers) simp_all
    then have "releases G H {p..fin} gm gm'"
      using discard_effect [OF inv(1) r n al dr src gm'(1,3) fr] run_range [OF p] gm' dirty mark_range_mono
      unfolding releases_def by simp
    then show ?thesis using d Inr by auto
  qed
qed

lemma inflate_runs_releases:
  assumes "sorted_wrt (<) pfns" and "\<forall>p \<in> set pfns. p < 2 ^ 32" and "gm_inv H gm" "gm_lazy gm = None"
  shows "\<exists>ok gm' D. inflate_runs H held pfns gm = Some (ok, gm') \<and> releases G H D gm gm' \<and>
    D \<subseteq> set pfns \<and> (ok \<longrightarrow> D = set pfns)"
  using assms
proof (induction pfns arbitrary: gm rule: length_induct)
  case (1 pfns)
  show ?case
  proof (cases pfns)
    case Nil
    then show ?thesis using releases_none [OF 1(4,5)] by (auto intro!: exI [of _ "{}"])
  next
    case (Cons p ps)
    obtain fin rest where t: "take_run p ps = (fin, rest)" by fastforce
    have run: "p \<le> fin" "set pfns = {p..fin} \<union> set rest" "sorted_wrt (<) rest"
      using take_run_correct [OF t] 1(2,3) Cons by auto
    obtain r gm1 where d: "discard_range H held (p * PAGE_SIZE) ((fin - p + 1) * PAGE_SIZE) gm = Some (r, gm1)"
      and eff: "case r of Inl _ \<Rightarrow> gm1 = gm | Inr _ \<Rightarrow> releases G H {p..fin} gm gm1"
      using discard_run [OF 1(4,5) run(1)] by blast
    show ?thesis
    proof (cases r)
      case (Inl e)
      then show ?thesis
        using d eff t releases_none [OF 1(4,5)] Cons by (auto intro!: exI [of _ "{}"])
    next
      case (Inr u)
      then have rel: "releases G H {p..fin} gm gm1" using eff by simp
      then have inv1: "gm_inv H gm1" "gm_lazy gm1 = None" by (simp_all add: releases_def)
      have "length rest < length pfns" using take_run_shorter [OF t] Cons by simp
      then obtain ok gm' D where "inflate_runs H held rest gm1 = Some (ok, gm')" "releases G H D gm1 gm'"
        "D \<subseteq> set rest" "ok \<longrightarrow> D = set rest"
        using 1(1) [rule_format, of rest gm1] run 1(3) inv1 by auto
      then show ?thesis
        using d Inr t Cons releases_trans [OF rel] run(2) by (auto intro!: exI [of _ "{p..fin} \<union> D"])
    qed
  qed
qed

end

section \<open>Parsed requests\<close>

lemma read_pfn_Some: "read_pfn G gm a k = Some p \<Longrightarrow> (p + 1) * PAGE_SIZE \<le> gm_size gm"
  by (auto simp: read_pfn_def Option.bind_eq_Some_conv split: if_splits)

lemma read_pfns_all:
  assumes "\<And>a k p. read_pfn G gm a k = Some p \<Longrightarrow> Q p"
    and "read_pfns G gm slots acc = Some pfns" and "\<forall>p \<in> set acc. Q p"
  shows "\<forall>p \<in> set pfns. Q p"
  using assms(2,3)
proof (induction slots arbitrary: acc)
  case (Cons slot slots)
  obtain p where p: "read_pfn G gm (fst slot) (snd slot) = Some p"
    and r: "read_pfns G gm slots (acc @ [p]) = Some pfns"
    using Cons.prems(1) by (cases "read_pfn G gm (fst slot) (snd slot)") auto
  then show ?case using Cons.IH [OF r] Cons.prems(2) assms(1) [OF p] by simp
qed simp

lemma read_pfns_length:
  "read_pfns G gm slots acc = Some pfns \<Longrightarrow> length pfns = length acc + length slots"
  by (induction slots arbitrary: acc) (fastforce simp: Option.bind_eq_Some_conv)+

lemma read_pfns_ok:
  assumes "read_pfns G gm slots [] = Some pfns"
  shows "length pfns = length slots \<and> (\<forall>p \<in> set pfns. (p + 1) * PAGE_SIZE \<le> gm_size gm)"
  using read_pfns_length [OF assms]
    read_pfns_all [where Q = "\<lambda>p. (p + 1) * PAGE_SIZE \<le> gm_size gm", OF read_pfn_Some assms] by simp

lemma total_pfns_slots:
  "total_pfns bs tot = Some n \<Longrightarrow> n = tot + length (pfn_slots bs)"
proof (induction bs arbitrary: tot)
  case (Cons b bs)
  then obtain tot' where t: "snd b mod 4 = 0" "tot' = tot + snd b div 4" "total_pfns bs tot' = Some n"
    by (auto split: if_splits bind_splits simp: checked_add_def)
  moreover have "div_ceil (snd b) 4 = snd b div 4" using t(1) by (simp add: div_ceil_def)
  ultimately show ?case using Cons.IH [OF t(3)] by (cases b) (simp add: pfn_slots_def)
qed (simp add: pfn_slots_def)

lemma parse_pfns_ok:
  assumes "parse_pfns G gm readable writable = Some pfns"
  shows "0 < length pfns \<and> length pfns \<le> MAX_PFNS_PER_REQUEST \<and> (\<forall>p \<in> set pfns. (p + 1) * PAGE_SIZE \<le> gm_size gm)"
proof -
  obtain tot where t: "total_pfns readable 0 = Some tot" "0 < tot" "tot \<le> MAX_PFNS_PER_REQUEST"
    "read_pfns G gm (pfn_slots readable) [] = Some pfns"
    using assms by (auto simp: parse_pfns_def split: if_splits bind_splits)
  then show ?thesis
    using read_pfns_ok [OF t(4)] total_pfns_slots [OF t(1)] by simp
qed

section \<open>Passes of a queue\<close>

text \<open>A processor that neither suppresses events nor holds receive buffers.\<close>

definition quiet :: "vq \<Rightarrow> bool" where
  "quiet q \<longleftrightarrow> \<not> vq_event_idx q \<and> vq_peeked q = []"

lemma quiet_new: "quiet (vq_new cfg)" "quiet (vq_from_state cfg st)"
  by (simp_all add: quiet_def vq_new_def vq_from_state_def vq_new_with_indices_def)

lemma quiet_update: "quiet q \<Longrightarrow> quiet (update_config cfg q)"
  by (simp add: quiet_def update_config_def)

lemma use_chain_frame [simp]:
  "pr_state (use_chain G head len addr p) = pr_state p"
  "quiet (pr_vq (use_chain G head len addr p)) = quiet (pr_vq p)"
  by (simp_all add: use_chain_def quiet_def)

lemma reject_quiet [simp]: "quiet (reject_available_chain q) = quiet q"
  by (simp add: reject_available_chain_def quiet_def)

text \<open>One iteration of the descriptor loop: an exit or the next state.\<close>

definition loop_step ::
  "'m ram_ops \<Rightarrow> ('s, 'm) desc_handler \<Rightarrow> u16 \<Rightarrow> ('s, 'm) progress \<Rightarrow>
   (bool \<times> ('s, 'm) progress) + ('s, 'm) progress" where
  "loop_step G h i p =
     (if vq_last_avail (pr_vq p) = i then Inl (False, p)
      else case next_head G p of
        None \<Rightarrow> Inl (True, p)
      | Some head \<Rightarrow>
          (case walk_descriptor_chain G (dm_mem (pr_dm p)) (vq_config (pr_vq p)) head of
             None \<Rightarrow> Inr (p\<lparr>pr_vq := reject_available_chain (pr_vq p)\<rparr>)
           | Some c \<Rightarrow>
               (case h (pr_state p) (pr_dm p) (ch_readable c) (ch_writable c) of (r, s, dm) \<Rightarrow>
                  let p' = p\<lparr>pr_state := s, pr_dm := dm\<rparr> in
                  case r of
                    None \<Rightarrow> Inl (True, p')
                  | Some used_len \<Rightarrow>
                      (case used_entry_addr (vq_config (pr_vq p)) (vq_last_used (pr_vq p)) of
                         None \<Rightarrow> Inl (True, p')
                       | Some addr \<Rightarrow> Inr (use_chain G head used_len addr p')))))"

lemma descriptors_loop_step:
  "descriptors_loop G h i p = (case loop_step G h i p of Inl r \<Rightarrow> r | Inr p' \<Rightarrow> descriptors_loop G h i p')"
  by (subst descriptors_loop.simps)
    (auto simp: loop_step_def Let_def split: option.split prod.split)

lemma loop_step_closer:
  "loop_step G h i p = Inr p' \<Longrightarrow> unat (i - vq_last_avail (pr_vq p')) < unat (i - vq_last_avail (pr_vq p))"
  by (auto simp: loop_step_def Let_def reject_available_chain_def use_chain_def ring_step
      split: if_splits option.splits prod.splits)

lemma loop_induct [case_names step]:
  assumes "\<And>p. (\<And>p'. loop_step G h i p = Inr p' \<Longrightarrow> P p') \<Longrightarrow> P p"
  shows "P p"
proof (induction "unat (i - vq_last_avail (pr_vq p))" arbitrary: p rule: less_induct)
  case less
  then show ?case using assms loop_step_closer by blast
qed

text \<open>A property of the handler's state that it keeps holds at the end.\<close>

lemma descriptors_loop_inv:
  assumes keep: "\<And>s dm r w x s' dm'. I s \<Longrightarrow> h s dm r w = (x, s', dm') \<Longrightarrow> I s'"
    and "I (pr_state p)" and "quiet (pr_vq p)"
  shows "I (pr_state (snd (descriptors_loop G h i p))) \<and> quiet (pr_vq (snd (descriptors_loop G h i p)))"
  using assms(2-)
proof (induction p rule: loop_induct [where G = G and h = h and i = i])
  case (step p)
  have "case loop_step G h i p of
      Inl r \<Rightarrow> I (pr_state (snd r)) \<and> quiet (pr_vq (snd r)) | Inr p' \<Rightarrow> I (pr_state p') \<and> quiet (pr_vq p')"
    using step.prems keep by (auto simp: loop_step_def Let_def split: option.split prod.split)
  then show ?case
    using step.IH by (subst (1 2) descriptors_loop_step) (auto split: sum.splits)
qed

lemma descriptors_loop_event:
  "\<not> vq_event_idx (pr_vq p) \<Longrightarrow> \<not> vq_event_idx (pr_vq (snd (descriptors_loop G h i p)))"
proof (induction p rule: loop_induct [where G = G and h = h and i = i])
  case (step p)
  have "case loop_step G h i p of
      Inl r \<Rightarrow> \<not> vq_event_idx (pr_vq (snd r)) | Inr p' \<Rightarrow> \<not> vq_event_idx (pr_vq p')"
    using step.prems
    by (auto simp: loop_step_def Let_def use_chain_def reject_available_chain_def split: option.split prod.split)
  then show ?case
    using step.IH by (subst descriptors_loop_step) (auto split: sum.splits)
qed

text \<open>Handlers that agree on all but a part of their states run the loop alike.\<close>

definition alike :: "('s \<Rightarrow> 't \<Rightarrow> bool) \<Rightarrow> ('s, 'm) progress \<Rightarrow> ('t, 'm) progress \<Rightarrow> bool" where
  "alike R p q \<longleftrightarrow> pr_vq p = pr_vq q \<and> pr_dm p = pr_dm q \<and> pr_done p = pr_done q \<and> R (pr_state p) (pr_state q)"

definition handlers_agree :: "('s \<Rightarrow> 't \<Rightarrow> bool) \<Rightarrow> ('s, 'm) desc_handler \<Rightarrow> ('t, 'm) desc_handler \<Rightarrow> bool" where
  "handlers_agree R h k \<longleftrightarrow> (\<forall>s t dm r w. R s t \<longrightarrow>
     (case (h s dm r w, k t dm r w) of ((x, s', d), (y, t', e)) \<Rightarrow> x = y \<and> d = e \<and> R s' t'))"

lemma loop_step_alike:
  assumes "handlers_agree R h k" and "alike R p q"
  shows "rel_sum (rel_prod (=) (alike R)) (alike R) (loop_step G h i p) (loop_step G k i q)"
proof -
  have nh: "next_head G p = next_head G q"
    using assms(2) by (simp add: alike_def next_head_def)
  show ?thesis
  proof (cases "Option.bind (if vq_last_avail (pr_vq q) = i then None else next_head G q)
      (\<lambda>head. map_option (Pair head) (walk_descriptor_chain G (dm_mem (pr_dm q)) (vq_config (pr_vq q)) head))")
    case None
    then show ?thesis
      using assms(2) unfolding loop_step_def nh
      by (auto simp: alike_def split: option.splits if_splits)
  next
    case (Some hc)
    then obtain head c where hc: "vq_last_avail (pr_vq q) \<noteq> i" "next_head G q = Some head"
      "walk_descriptor_chain G (dm_mem (pr_dm q)) (vq_config (pr_vq q)) head = Some c"
      by (auto split: if_splits simp: Option.bind_eq_Some_conv)
    obtain x s d where h: "h (pr_state p) (pr_dm p) (ch_readable c) (ch_writable c) = (x, s, d)"
      by (metis prod_cases3)
    obtain y t e where k: "k (pr_state q) (pr_dm q) (ch_readable c) (ch_writable c) = (y, t, e)"
      by (metis prod_cases3)
    have "R (pr_state p) (pr_state q)" "pr_dm p = pr_dm q" using assms(2) by (simp_all add: alike_def)
    then have "x = y \<and> d = e \<and> R s t"
      using assms(1) [unfolded handlers_agree_def, rule_format, of "pr_state p" "pr_state q" "pr_dm q"
          "ch_readable c" "ch_writable c"] h k by simp
    then show ?thesis
      using assms(2) hc h k unfolding loop_step_def nh
      by (simp add: alike_def Let_def use_chain_def split: option.split)
  qed
qed

lemma descriptors_loop_alike:
  assumes "handlers_agree R h k" and "alike R p q"
  shows "rel_prod (=) (alike R) (descriptors_loop G h i p) (descriptors_loop G k i q)"
  using assms(2)
proof (induction p arbitrary: q rule: loop_induct [where G = G and h = h and i = i])
  case (step p)
  note rel = loop_step_alike [OF assms(1) step.prems, of G i]
  show ?case
    using rel step.IH
    by (subst (1 2) descriptors_loop_step)
      (cases "loop_step G h i p"; cases "loop_step G k i q"; simp)
qed

text \<open>With events not suppressed, one pass of the inner loop is all there is.\<close>

lemma process_quiet:
  assumes "\<not> vq_event_idx q"
  shows "process_queue_descriptors_dirty G h q s dm =
    (let p = \<lparr>pr_vq = q, pr_state = s, pr_dm = dm, pr_done = 0\<rparr> in
     if \<not> queue_is_usable G (dm_mem dm) (vq_config q) then Some p
     else case read_avail_idx G (dm_mem dm) (vq_config q) of
       None \<Rightarrow> Some p
     | Some i \<Rightarrow>
         let p1 = snd (descriptors_loop G h i p)
         in Some (p1\<lparr>pr_dm := publish_used_idx G (pr_vq p1) (pr_dm p1)\<rparr>))"
proof -
  define p where "p = \<lparr>pr_vq = q, pr_state = s, pr_dm = dm, pr_done = 0 :: nat\<rparr>"
  have "\<not> vq_event_idx (pr_vq (snd (descriptors_loop G h i p)))" for i
    by (rule descriptors_loop_event) (simp add: p_def assms)
  then have "descriptors_outer G h p =
      (case read_avail_idx G (dm_mem dm) (vq_config q) of
         None \<Rightarrow> Some p
       | Some i \<Rightarrow>
           let p1 = snd (descriptors_loop G h i p)
           in Some (p1\<lparr>pr_dm := publish_used_idx G (pr_vq p1) (pr_dm p1)\<rparr>))"
    by (subst descriptors_outer.simps) (auto simp: p_def Let_def case_prod_beta split: option.split)
  then show ?thesis
    unfolding process_queue_descriptors_dirty_def Let_def p_def [symmetric] by simp
qed

section \<open>Well-formed devices\<close>

definition queue_wf :: "queue_state \<Rightarrow> bool" where
  "queue_wf q \<longleftrightarrow> (qs_size q = 0 \<or> valid_size q) \<and> (qs_ready q \<longrightarrow> valid_size q) \<and>
     qs_desc q < 2 ^ 64 \<and> qs_avail q < 2 ^ 64 \<and> qs_used q < 2 ^ 64"

definition balloon_wf :: "'m balloon \<Rightarrow> bool" where
  "balloon_wf b \<longleftrightarrow>
     length (bn_queues b) = QUEUE_COUNT \<and> length (bn_processors b) = QUEUE_COUNT \<and>
     (\<forall>q \<in> set (bn_queues b). queue_wf q) \<and> (\<forall>q. Some q \<in> set (bn_processors b) \<longrightarrow> quiet q) \<and>
     bn_target_pages b \<le> gm_size (bn_memory b) div PAGE_SIZE \<and>
     bn_actual_pages b \<le> gm_size (bn_memory b) div PAGE_SIZE \<and>
     bn_guest_features_low b = 0 \<and> bn_guest_features_high b \<le> 1 \<and> bn_interrupt_status b < 4"

lemma or_less: "a < 2 ^ n \<Longrightarrow> b < 2 ^ n \<Longrightarrow> a OR b < (2 ^ n :: nat)"
  by (metis take_bit_nat_eq_self_iff take_bit_or)

lemma and_less: "a < 2 ^ n \<Longrightarrow> a AND b < (2 ^ n :: nat)"
  by (metis and.assoc mask_eq_exp_minus_1 and.commute take_bit_eq_mask take_bit_nat_eq_self_iff)

lemma set_low_less: "v < 2 ^ 32 \<Longrightarrow> a < 2 ^ 64 \<Longrightarrow> set_low v a < 2 ^ 64"
  unfolding set_low_def by (rule or_less) (simp_all add: and_less [of a 64, simplified])

lemma set_high_less: "v < 2 ^ 32 \<Longrightarrow> a < 2 ^ 64 \<Longrightarrow> set_high v a < 2 ^ 64"
  unfolding set_high_def
  by (rule or_less) (simp_all add: and_less [of a 64, simplified] push_bit_eq_mult)

lemma queue_wf_default: "queue_wf queue_state_default"
  by (simp add: queue_wf_def queue_state_default_def)

lemma queue_wf_set_size: "queue_wf q \<Longrightarrow> queue_wf (set_size v q)"
  by (auto simp: queue_wf_def set_size_def valid_size_def)

lemma queue_wf_set_ready: "queue_wf q \<Longrightarrow> queue_wf (set_ready r q)"
  by (auto simp: queue_wf_def set_ready_def valid_size_def)

lemma queue_wf_set_addr:
  "queue_wf q \<Longrightarrow> a < 2 ^ 64 \<Longrightarrow> queue_wf (q\<lparr>qs_desc := a\<rparr>)"
  "queue_wf q \<Longrightarrow> a < 2 ^ 64 \<Longrightarrow> queue_wf (q\<lparr>qs_avail := a\<rparr>)"
  "queue_wf q \<Longrightarrow> a < 2 ^ 64 \<Longrightarrow> queue_wf (q\<lparr>qs_used := a\<rparr>)"
  by (auto simp: queue_wf_def valid_size_def)

lemma balloon_wf_new: "balloon_new irq gm target = Ok b \<Longrightarrow> balloon_wf b"
  by (auto simp: balloon_new_def balloon_wf_def queue_wf_default split: if_splits)

lemma trigger_wf: "balloon_wf b \<Longrightarrow> kind < 4 \<Longrightarrow> balloon_wf (trigger_interrupt kind b)"
  using or_less [of "bn_interrupt_status b" 2 kind] by (simp add: balloon_wf_def trigger_interrupt_def)

lemma set_target_wf: "balloon_wf b \<Longrightarrow> balloon_wf (snd (set_target_pages pages b))"
  by (auto simp: set_target_pages_def INT_CONFIG_def intro!: trigger_wf) (simp add: balloon_wf_def)

lemma update_queue_wf:
  assumes "balloon_wf b" and "\<And>q. queue_wf q \<Longrightarrow> queue_wf (f q)"
  shows "balloon_wf (update_selected_queue f b)"
proof -
  have "queue_wf q" if "q \<in> set ((bn_queues b)[i := f (bn_queues b ! i)])" "i < length (bn_queues b)" for q i
    using that assms set_update_subset_insert [of "bn_queues b" i "f (bn_queues b ! i)"]
    by (auto simp: balloon_wf_def)
  then show ?thesis using assms(1) by (simp add: balloon_wf_def update_selected_queue_def)
qed

lemma reset_wf: "balloon_wf b \<Longrightarrow> balloon_wf (balloon_reset b)"
  by (simp add: balloon_wf_def balloon_reset_def queue_wf_default)

text \<open>The registers: all but the processors, the memory and the counters.\<close>

definition same_regs :: "'m balloon \<Rightarrow> 'm balloon \<Rightarrow> bool" where
  "same_regs b b' \<longleftrightarrow>
     bn_irq b' = bn_irq b \<and> bn_status b' = bn_status b \<and> bn_queue_sel b' = bn_queue_sel b \<and>
     bn_host_features_sel b' = bn_host_features_sel b \<and> bn_guest_features_sel b' = bn_guest_features_sel b \<and>
     bn_guest_features_low b' = bn_guest_features_low b \<and> bn_guest_features_high b' = bn_guest_features_high b \<and>
     bn_queues b' = bn_queues b \<and> bn_activated b' = bn_activated b \<and>
     bn_interrupt_status b' = bn_interrupt_status b \<and> bn_config_generation b' = bn_config_generation b \<and>
     bn_target_pages b' = bn_target_pages b \<and> bn_actual_pages b' = bn_actual_pages b \<and>
     bn_irq_evt b' = bn_irq_evt b"

text \<open>What serving requests leaves alone.\<close>

definition same_device :: "'m balloon \<Rightarrow> 'm balloon \<Rightarrow> bool" where
  "same_device b b' \<longleftrightarrow> same_regs b b' \<and> bn_processors b' = bn_processors b \<and>
     gm_size (bn_memory b') = gm_size (bn_memory b)"

lemma same_device_refl [simp]: "same_device b b"
  by (simp add: same_device_def same_regs_def)

lemma same_device_trans: "same_device b b' \<Longrightarrow> same_device b' b'' \<Longrightarrow> same_device b b''"
  by (simp add: same_device_def same_regs_def)

lemma same_device_tracked [simp]: "same_device b (with_tracked dm b)"
  by (simp add: same_device_def same_regs_def with_tracked_def)

lemma same_device_count [simp]: "same_device b (count_rejected b)"
  by (simp add: same_device_def same_regs_def count_rejected_def)

lemma same_device_wf: "same_device b b' \<Longrightarrow> balloon_wf b \<Longrightarrow> balloon_wf b'"
  by (simp add: same_device_def same_regs_def balloon_wf_def)

lemma inflate_runs_size: "inflate_runs H held ps gm = Some (ok, gm') \<Longrightarrow> gm_size gm' = gm_size gm"
proof (induction H held ps gm rule: inflate_runs.induct)
  case (2 H held p ps gm)
  obtain fin rest where t: "take_run p ps = (fin, rest)" by fastforce
  obtain r gm1 where d: "discard_range H held (p * PAGE_SIZE) ((fin - p + 1) * PAGE_SIZE) gm = Some (r, gm1)"
    using 2(2) t by (auto split: option.splits)
  show ?case
  proof (cases r)
    case (Inl e)
    then show ?thesis using 2(2) t d discard_range_size [OF d] by simp
  next
    case (Inr u)
    then show ?thesis using 2(1) [OF t [symmetric] d refl Inr] 2(2) t d discard_range_size [OF d] by simp
  qed
qed simp

lemma inflate_same_device:
  assumes "inflate H held pfns b = Some (ok, b')"
  shows "same_device b b'"
proof -
  obtain gm where gm: "inflate_runs H held (remdups_adj (sort pfns)) (bn_memory b) = Some (ok, gm)"
    "bn_memory b' = gm" "same_regs b b'" "bn_processors b' = bn_processors b"
    using assms by (auto simp: inflate_def Let_def same_regs_def)
  then show ?thesis using inflate_runs_size [OF gm(1)] by (simp add: same_device_def)
qed

lemma serve_same_device:
  assumes "serve_request G H held i r w b = Some b'"
  shows "same_device b b'"
proof (cases "parse_pfns G (bn_memory b) r w")
  case None
  then show ?thesis using assms by (auto simp: serve_request_def)
next
  case (Some pfns)
  show ?thesis
  proof (cases "i = QUEUE_INFLATE")
    case True
    then obtain ok b1 where b1: "inflate H held pfns b = Some (ok, b1)" "b' = (if ok then b1 else count_rejected b1)"
      using assms Some by (auto simp: serve_request_def)
    then show ?thesis
      using inflate_same_device [OF b1(1)] same_device_trans [OF inflate_same_device [OF b1(1)] same_device_count]
      by simp
  next
    case False
    then show ?thesis
      using assms Some by (auto simp: serve_request_def same_device_def same_regs_def split: if_splits)
  qed
qed

end
