(* ===== verification/BalloonClaims.thy ===== *)
theory BalloonClaims
  imports BalloonProofs
begin

text \<open>
  The properties of the balloon: its registers stay within their bounds whatever the guest
  writes, inflating zeroes exactly the frames the guest gave up, and a restored device
  answers every later access as the saved one would have.
\<close>

section \<open>A queue pass of the device\<close>

text \<open>The handler's state stays the device it was started with, or a panic.\<close>

definition served_device :: "'m balloon \<Rightarrow> 'm balloon option \<Rightarrow> bool" where
  "served_device b s \<longleftrightarrow> (\<forall>c. s = Some c \<longrightarrow> same_device b c)"

lemma handler_same_device:
  assumes "served_device b s" and h: "balloon_handler G H held i s dm r w = (x, s', dm')"
  shows "served_device b s'"
proof (cases s)
  case None
  then show ?thesis using h by (simp add: balloon_handler_def served_device_def)
next
  case (Some c)
  then have "same_device b (with_tracked dm c)"
    using assms(1) same_device_trans [OF _ same_device_tracked] by (simp add: served_device_def)
  moreover have "s' = serve_request G H held i r w (with_tracked dm c)"
    using h Some by (auto simp: balloon_handler_def split: option.splits)
  ultimately show ?thesis
    using serve_same_device same_device_trans unfolding served_device_def by metis
qed

text \<open>The pass on a quiet processor returns, and its outcome is that of the inner loop.\<close>

lemma balloon_pass:
  assumes "quiet q"
  obtains p where "process_queue_descriptors_dirty G (balloon_handler G H held i) q (Some b) dm = Some p"
    "quiet (pr_vq p)" "served_device b (pr_state p)"
proof -
  let ?h = "balloon_handler G H held i" and ?p = "\<lparr>pr_vq = q, pr_state = Some b, pr_dm = dm, pr_done = 0\<rparr>"
  have start: "served_device b (pr_state ?p)" "quiet (pr_vq ?p)" "\<not> vq_event_idx q"
    using assms by (simp_all add: served_device_def quiet_def)
  have "served_device b (pr_state (snd (descriptors_loop G ?h j ?p))) \<and>
      quiet (pr_vq (snd (descriptors_loop G ?h j ?p)))" for j
    by (rule descriptors_loop_inv [where I = "served_device b", OF handler_same_device start(1,2)])
  then show ?thesis
    using that process_quiet [OF start(3), of G ?h "Some b" dm] start(1,2)
    by (cases "queue_is_usable G (dm_mem dm) (vq_config q)"; cases "read_avail_idx G (dm_mem dm) (vq_config q)")
      (simp_all add: Let_def)
qed

text \<open>The processor a pass starts from.\<close>

definition pass_processor :: "usize \<Rightarrow> queue_config \<Rightarrow> 'm balloon \<Rightarrow> vq" where
  "pass_processor i cfg b = update_config cfg (case bn_processors b ! i of None \<Rightarrow> vq_new cfg | Some q \<Rightarrow> q)"

lemma pass_processor_quiet:
  "balloon_wf b \<Longrightarrow> i < QUEUE_COUNT \<Longrightarrow> quiet (pass_processor i cfg b)"
  by (auto simp: pass_processor_def balloon_wf_def quiet_update quiet_new split: option.split
      intro!: quiet_update) (metis nth_mem)

lemma set_processor_wf:
  assumes "balloon_wf b" and "quiet q"
  shows "balloon_wf (b\<lparr>bn_processors := (bn_processors b)[i := Some q]\<rparr>)"
proof -
  have "quiet r" if "Some r \<in> set ((bn_processors b)[i := Some q])" for r
    using that assms set_update_subset_insert [of "bn_processors b" i "Some q"] by (auto simp: balloon_wf_def)
  then show ?thesis using assms(1) by (simp add: balloon_wf_def)
qed

lemma process_queue_wf:
  assumes wf: "balloon_wf b" and b': "balloon_process_queue G H held i b = Some (n, b')"
  shows "balloon_wf b' \<and> gm_size (bn_memory b') = gm_size (bn_memory b)"
proof (cases "i < QUEUE_COUNT \<and> qs_config (bn_queues b ! i) \<noteq> None")
  case False
  then show ?thesis
    using b' wf by (auto simp: balloon_process_queue_def balloon_wf_def split: if_splits option.splits)
next
  case True
  then obtain cfg where cfg: "i < QUEUE_COUNT" "qs_config (bn_queues b ! i) = Some cfg" by auto
  have len: "i < length (bn_queues b)" "i < length (bn_processors b)" using wf cfg(1) by (simp_all add: balloon_wf_def)
  obtain p where p: "process_queue_descriptors_dirty G (balloon_handler G H held i) (pass_processor i cfg b)
      (Some b) (tracked (bn_memory b)) = Some p" "quiet (pr_vq p)" "served_device b (pr_state p)"
    by (rule balloon_pass [OF pass_processor_quiet [OF wf cfg(1)]])
  obtain c where c: "pr_state p = Some c"
    "b' = (let b1 = (with_tracked (pr_dm p) c)\<lparr>bn_processors := (bn_processors c)[i := Some (pr_vq p)]\<rparr>
       in if 0 < pr_done p then trigger_interrupt INT_VRING b1 else b1)"
    using b' cfg len p(1) by (auto simp: balloon_process_queue_def pass_processor_def Let_def)
  have dev: "same_device b (with_tracked (pr_dm p) c)"
    using p(3) c(1) same_device_trans [OF _ same_device_tracked] by (simp add: served_device_def)
  moreover have "bn_processors (with_tracked (pr_dm p) c) = bn_processors c" by (simp add: with_tracked_def)
  ultimately have "balloon_wf ((with_tracked (pr_dm p) c)\<lparr>bn_processors := (bn_processors c)[i := Some (pr_vq p)]\<rparr>)"
    using set_processor_wf [OF same_device_wf [OF dev wf] p(2), of i] by simp
  moreover have "gm_size (bn_memory (with_tracked (pr_dm p) c)) = gm_size (bn_memory b)"
    using dev by (simp add: same_device_def)
  ultimately show ?thesis
    using c(2) by (simp add: Let_def trigger_wf INT_VRING_def) (simp add: trigger_interrupt_def)
qed

section \<open>Register accesses\<close>

lemma mod_two_le: "v mod 2 \<le> Suc 0" for v :: nat
  using mod_less_divisor [of 2 v] by linarith

lemma write_features_wf: "balloon_wf b \<Longrightarrow> balloon_wf (write_guest_features v b)"
  by (simp add: balloon_wf_def write_guest_features_def FEATURES_LOW_def FEATURES_HIGH_def and_one_eq mod_two_le)

lemma write_actual_wf: "balloon_wf b \<Longrightarrow> balloon_wf (write_actual v b)"
  by (simp add: balloon_wf_def write_actual_def count_rejected_def)

lemma plain_writes_wf:
  assumes "balloon_wf b"
  shows "balloon_wf (b\<lparr>bn_status := v, bn_activated := a\<rparr>)" "balloon_wf (b\<lparr>bn_host_features_sel := v\<rparr>)"
    "balloon_wf (b\<lparr>bn_guest_features_sel := v\<rparr>)" "balloon_wf (b\<lparr>bn_queue_sel := v\<rparr>)"
    "balloon_wf (b\<lparr>bn_interrupt_status := bn_interrupt_status b AND w\<rparr>)"
  using assms and_less [of "bn_interrupt_status b" 2 w] by (simp_all add: balloon_wf_def)

lemmas queue_writes_wf = update_queue_wf [OF _ queue_wf_set_size] update_queue_wf [OF _ queue_wf_set_ready]

lemma addr_writes_wf:
  assumes "balloon_wf b" and "v < 2 ^ 32"
  shows "balloon_wf (update_selected_queue (\<lambda>q. q\<lparr>qs_desc := set_low v (qs_desc q)\<rparr>) b)"
    "balloon_wf (update_selected_queue (\<lambda>q. q\<lparr>qs_desc := set_high v (qs_desc q)\<rparr>) b)"
    "balloon_wf (update_selected_queue (\<lambda>q. q\<lparr>qs_avail := set_low v (qs_avail q)\<rparr>) b)"
    "balloon_wf (update_selected_queue (\<lambda>q. q\<lparr>qs_avail := set_high v (qs_avail q)\<rparr>) b)"
    "balloon_wf (update_selected_queue (\<lambda>q. q\<lparr>qs_used := set_low v (qs_used q)\<rparr>) b)"
    "balloon_wf (update_selected_queue (\<lambda>q. q\<lparr>qs_used := set_high v (qs_used q)\<rparr>) b)"
  using assms(2)
  by (intro update_queue_wf [OF assms(1)] queue_wf_set_addr set_low_less set_high_less,
      simp_all add: queue_wf_def)+

lemma size_update [simp]:
  "bn_memory (update_selected_queue f b) = bn_memory b" "bn_memory (write_guest_features v b) = bn_memory b"
  "bn_memory (write_actual v b) = bn_memory b" "bn_memory (balloon_reset b) = bn_memory b"
  by (simp_all add: update_selected_queue_def write_guest_features_def write_actual_def count_rejected_def
      balloon_reset_def)

lemma if_wf: "balloon_wf x \<Longrightarrow> balloon_wf y \<Longrightarrow> balloon_wf (if c then x else y)"
  by simp

lemma if_memory: "bn_memory x = gm \<Longrightarrow> bn_memory y = gm \<Longrightarrow> bn_memory (if c then x else y) = gm"
  by simp

lemma write_register_wf:
  assumes "balloon_wf b" and "v < 2 ^ 32"
  shows "balloon_wf (write_register offset v b)"
  unfolding write_register_def
  by (intro if_wf assms reset_wf write_features_wf write_actual_wf plain_writes_wf queue_writes_wf addr_writes_wf)

lemma write_register_memory [simp]: "bn_memory (write_register offset v b) = bn_memory b"
  unfolding write_register_def by (intro if_memory) simp_all

lemma mmio_write_wf:
  assumes "balloon_wf b" and "balloon_mmio_write G H held offset value b = Some b'"
  shows "balloon_wf b' \<and> gm_size (bn_memory b') = gm_size (bn_memory b)"
proof (cases "offset = R_QUEUE_NOTIFY")
  case True
  then show ?thesis
    using assms(2) process_queue_wf [OF assms(1)] by (auto simp: balloon_mmio_write_def Let_def)
next
  case False
  then have "b' = write_register offset (value mod 2 ^ 32) b"
    using assms(2) by (simp add: balloon_mmio_write_def Let_def)
  then show ?thesis
    using write_register_wf [OF assms(1), of "value mod 2 ^ 32" offset] by simp
qed

text \<open>A sequence of accesses by the guest, and target changes by the host; the answers in order.\<close>

datatype balloon_access = ReadReg u64 | WriteReg u64 u64 | SetTarget u32

fun balloon_run ::
  "'m ram_ops \<Rightarrow> 'm host_ops \<Rightarrow> file_id list \<Rightarrow> balloon_access list \<Rightarrow> 'm balloon \<Rightarrow> (nat list \<times> 'm balloon) option" where
  "balloon_run G H held [] b = Some ([], b)"
| "balloon_run G H held (ReadReg offset # as) b =
     map_option (\<lambda>(out, b'). (balloon_mmio_read offset b # out, b')) (balloon_run G H held as b)"
| "balloon_run G H held (WriteReg offset value # as) b =
     Option.bind (balloon_mmio_write G H held offset value b) (balloon_run G H held as)"
| "balloon_run G H held (SetTarget pages # as) b =
     (case set_target_pages pages b of (r, b') \<Rightarrow>
        map_option (\<lambda>(out, b''). ((if r = Ok () then 1 else 0) # out, b'')) (balloon_run G H held as b'))"

lemma set_target_memory: "bn_memory (snd (set_target_pages pages b)) = bn_memory b"
  by (simp add: set_target_pages_def trigger_interrupt_def)

lemma balloon_run_wf:
  "balloon_run G H held as b = Some (out, b') \<Longrightarrow> balloon_wf b \<Longrightarrow>
     balloon_wf b' \<and> gm_size (bn_memory b') = gm_size (bn_memory b)"
proof (induction G H held as b arbitrary: out rule: balloon_run.induct)
  case (3 G H held offset v as b)
  obtain c where c: "balloon_mmio_write G H held offset v b = Some c" "balloon_run G H held as c = Some (out, b')"
    using 3(2) by (auto simp: Option.bind_eq_Some_conv)
  show ?case using 3(1) [OF c] mmio_write_wf [OF 3(3) c(1)] by simp
next
  case (4 G H held pages as b)
  obtain r b1 where t: "set_target_pages pages b = (r, b1)" by fastforce
  obtain out' where run: "balloon_run G H held as b1 = Some (out', b')" using 4(2) t by auto
  show ?case
    using 4(1) [OF t [symmetric] run] set_target_wf [OF 4(3), of pages] set_target_memory [of pages b] t by simp
qed auto

text \<open>
  C34: Whatever the guest writes to its registers and its queues, in any order, and whatever
  targets the host sets, the device stays well formed: two queues, ready only with a size
  that is a power of two within the limit; ring addresses of 64 bits; a target and an actual
  size no larger than guest memory; no feature negotiated that was not offered; and only the
  two defined interrupt bits set.
\<close>

theorem balloon_stays_wf:
  assumes "balloon_new irq gm target = Ok b0" and "balloon_run G H held as b0 = Some (out, b)"
  shows "balloon_wf b"
  using balloon_run_wf [OF assms(2) balloon_wf_new [OF assms(1)]] by simp

section \<open>Inflating\<close>

lemma wrapping_Suc: "wrapping_add 64 x 1 \<noteq> x"
proof
  assume eq: "wrapping_add 64 x 1 = x"
  then have "x < 2 ^ 64" unfolding wrapping_add_def by (metis mod_less_divisor zero_less_numeral zero_less_power)
  then have "x + 1 < 2 ^ 64 \<or> x + 1 = 2 ^ 64" by linarith
  then show False
  proof
    assume "x + 1 < 2 ^ 64"
    then show False using eq by (simp only: wrapping_add_def mod_less)
  next
    assume "x + 1 = 2 ^ 64"
    then show False using eq by (simp only: wrapping_add_def mod_self) simp
  qed
qed

context guest_ram
begin

lemma read_pfn_less:
  assumes "read_pfn G gm a k = Some p"
  shows "p < 2 ^ 32"
proof -
  obtain raw b where raw: "rd G (gm_mem gm) b 4 = Some raw" "p = from_le raw"
    using assms by (auto simp: read_pfn_def Option.bind_eq_Some_conv split: if_splits)
  then show ?thesis using from_le_less [of raw] rd_length [OF raw(1)] by simp
qed

lemma read_pfns_less:
  "read_pfns G gm slots [] = Some pfns \<Longrightarrow> \<forall>p \<in> set pfns. p < 2 ^ 32"
  by (rule read_pfns_all [where Q = "\<lambda>p. p < 2 ^ 32"]) (use read_pfn_less in auto)

lemma parse_pfns_less: "parse_pfns G gm r w = Some pfns \<Longrightarrow> p \<in> set pfns \<Longrightarrow> p < 2 ^ 32"
  using read_pfns_less [of gm "pfn_slots r" pfns]
  by (auto simp: parse_pfns_def Option.bind_eq_Some_conv split: if_splits)

end

lemma serve_inflate_releases:
  assumes "host_mm G H" and inv: "gm_inv H (bn_memory b)" and lazy: "gm_lazy (bn_memory b) = None"
  shows "\<exists>b'. serve_request G H held QUEUE_INFLATE readable writable b = Some b' \<and>
    (case parse_pfns G (bn_memory b) readable writable of
       None \<Rightarrow> bn_memory b' = bn_memory b
     | Some pfns \<Rightarrow>
         (\<forall>p \<in> set pfns. (p + 1) * PAGE_SIZE \<le> gm_size (bn_memory b)) \<and>
         (\<exists>D \<subseteq> set pfns. (bn_rejected_pfns b' = bn_rejected_pfns b \<longrightarrow> D = set pfns) \<and>
            releases G H D (bn_memory b) (bn_memory b')))"
proof (cases "parse_pfns G (bn_memory b) readable writable")
  case None
  then show ?thesis by (simp add: serve_request_def count_rejected_def)
next
  case (Some pfns)
  have "guest_ram G" using assms(1) by (rule host_mm.axioms(1))
  then have "\<forall>p \<in> set (remdups_adj (sort pfns)). p < 2 ^ 32"
    using guest_ram.parse_pfns_less [OF _ Some] by auto
  note rel = host_mm.inflate_runs_releases [OF assms(1) sorted_frames this inv lazy, of held]
  have frames: "set (remdups_adj (sort pfns)) = set pfns" by simp
  obtain ok gm' D where d: "inflate_runs H held (remdups_adj (sort pfns)) (bn_memory b) = Some (ok, gm')"
    "releases G H D (bn_memory b) gm'" "D \<subseteq> set pfns" "ok \<longrightarrow> D = set pfns"
    using rel unfolding frames by blast
  define b1 where "b1 = b\<lparr>bn_memory := gm', bn_inflate_pages :=
    (if ok then wrapping_add 64 (bn_inflate_pages b) (length (remdups_adj (sort pfns))) else bn_inflate_pages b)\<rparr>"
  have mem: "bn_memory b1 = gm'" "bn_memory (count_rejected b1) = gm'"
    "bn_rejected_pfns (count_rejected b1) = wrapping_add 64 (bn_rejected_pfns b) 1"
    by (simp_all add: b1_def count_rejected_def)
  have serve: "serve_request G H held QUEUE_INFLATE readable writable b =
      Some (if ok then b1 else count_rejected b1)"
    using Some d(1) by (simp add: serve_request_def inflate_def Let_def b1_def)
  have frames: "\<exists>D \<subseteq> set pfns. (bn_rejected_pfns (if ok then b1 else count_rejected b1) = bn_rejected_pfns b \<longrightarrow>
      D = set pfns) \<and> releases G H D (bn_memory b) (bn_memory (if ok then b1 else count_rejected b1))"
    using d(2-4) mem wrapping_Suc [of "bn_rejected_pfns b"] by (cases ok; intro exI [of _ D]; simp)
  show ?thesis
    unfolding serve Some option.case using parse_pfns_ok [OF Some] frames by blast
qed


section \<open>Saving and restoring\<close>

text \<open>Processors at the same place in their rings; the configuration is refreshed at each pass.\<close>

definition same_cursor :: "vq \<Rightarrow> vq \<Rightarrow> bool" where
  "same_cursor q q' \<longleftrightarrow> quiet q \<and> quiet q' \<and> vq_last_avail q' = vq_last_avail q \<and> vq_last_used q' = vq_last_used q"

definition twin :: "'m balloon \<Rightarrow> 'm balloon \<Rightarrow> bool" where
  "twin b b' \<longleftrightarrow> same_regs b b' \<and> bn_memory b' = bn_memory b \<and>
     list_all2 (rel_option same_cursor) (bn_processors b) (bn_processors b')"

lemma same_cursor_update: "same_cursor q q' \<Longrightarrow> update_config cfg q' = update_config cfg q"
  by (cases q; cases q') (simp add: same_cursor_def quiet_def update_config_def)

lemma twin_pass_processor:
  assumes "twin b b'" and "i < length (bn_processors b)"
  shows "pass_processor i cfg b' = pass_processor i cfg b"
  using assms list_all2_nthD [of "rel_option same_cursor" "bn_processors b" "bn_processors b'" i]
  by (cases "bn_processors b ! i"; cases "bn_processors b' ! i")
    (auto simp: twin_def pass_processor_def same_cursor_update)

text \<open>During a pass the two devices differ only in their processors and counters.\<close>

definition twin_state :: "'m balloon \<Rightarrow> 'm balloon \<Rightarrow> 'm balloon option \<Rightarrow> 'm balloon option \<Rightarrow> bool" where
  "twin_state b b' = rel_option (\<lambda>c c'. same_regs c c' \<and> bn_memory c' = bn_memory c \<and>
     bn_processors c = bn_processors b \<and> bn_processors c' = bn_processors b')"

lemma serve_twin:
  assumes "same_regs c c'" and "bn_memory c' = bn_memory c"
  shows "rel_option (\<lambda>d d'. same_regs d d' \<and> bn_memory d' = bn_memory d \<and>
      bn_processors d = bn_processors c \<and> bn_processors d' = bn_processors c')
    (serve_request G H held i r w c) (serve_request G H held i r w c')"
proof (cases "parse_pfns G (bn_memory c) r w")
  case None
  then show ?thesis using assms by (simp add: serve_request_def count_rejected_def same_regs_def)
next
  case (Some pfns)
  show ?thesis
  proof (cases "i = QUEUE_INFLATE")
    case True
    show ?thesis
    proof (cases "inflate_runs H held (remdups_adj (sort pfns)) (bn_memory c)")
      case None
      then show ?thesis using Some True assms by (simp add: serve_request_def inflate_def)
    next
      case (Some okgm)
      then show ?thesis
        using \<open>parse_pfns G (bn_memory c) r w = Some pfns\<close> True assms
        by (cases okgm; cases "fst okgm")
          (simp_all add: serve_request_def inflate_def Let_def count_rejected_def same_regs_def)
    qed
  next
    case False
    then show ?thesis using Some assms by (simp add: serve_request_def same_regs_def)
  qed
qed

lemma handler_twin:
  "handlers_agree (twin_state b b') (balloon_handler G H held i) (balloon_handler G H held i)"
proof -
  have "case (balloon_handler G H held i s dm r w, balloon_handler G H held i t dm r w) of
      ((x, s', d), (y, t', e)) \<Rightarrow> x = y \<and> d = e \<and> twin_state b b' s' t'"
    if st: "twin_state b b' s t" for s t dm r w
  proof (cases s)
    case None
    then show ?thesis using st by (simp add: balloon_handler_def twin_state_def)
  next
    case (Some c)
    obtain c' where t: "t = Some c'" using st Some by (cases t) (simp_all add: twin_state_def)
    then have c': "t = Some c'" "same_regs c c'" "bn_memory c' = bn_memory c"
      "bn_processors c = bn_processors b" "bn_processors c' = bn_processors b'"
      using st Some by (simp_all add: twin_state_def)
    have "same_regs (with_tracked dm c) (with_tracked dm c')"
      "bn_memory (with_tracked dm c') = bn_memory (with_tracked dm c)"
      "bn_processors (with_tracked dm c) = bn_processors b" "bn_processors (with_tracked dm c') = bn_processors b'"
      using c' by (simp_all add: with_tracked_def same_regs_def split: option.split)
    then show ?thesis
      using serve_twin [of "with_tracked dm c" "with_tracked dm c'" G H held i r w] Some c'(1)
      by (cases "serve_request G H held i r w (with_tracked dm c)";
          cases "serve_request G H held i r w (with_tracked dm c')")
        (simp_all add: balloon_handler_def twin_state_def)
  qed
  then show ?thesis unfolding handlers_agree_def by blast
qed

lemma pass_twin:
  assumes "quiet q" and "twin_state b b' (Some c) (Some c')"
  shows "rel_option (alike (twin_state b b'))
    (process_queue_descriptors_dirty G (balloon_handler G H held i) q (Some c) dm)
    (process_queue_descriptors_dirty G (balloon_handler G H held i) q (Some c') dm)"
proof -
  let ?h = "balloon_handler G H held i"
  let ?p = "\<lambda>s. \<lparr>pr_vq = q, pr_state = s, pr_dm = dm, pr_done = 0\<rparr>"
  have q: "\<not> vq_event_idx q" using assms(1) by (simp add: quiet_def)
  have start: "alike (twin_state b b') (?p (Some c)) (?p (Some c'))" using assms(2) by (simp add: alike_def)
  have "alike (twin_state b b')
      (let p1 = snd (descriptors_loop G ?h j (?p (Some c))) in p1\<lparr>pr_dm := publish_used_idx G (pr_vq p1) (pr_dm p1)\<rparr>)
      (let p1 = snd (descriptors_loop G ?h j (?p (Some c'))) in p1\<lparr>pr_dm := publish_used_idx G (pr_vq p1) (pr_dm p1)\<rparr>)"
    for j
    using descriptors_loop_alike [OF handler_twin [of b b' G H held i] start, of G j]
    by (auto simp: rel_prod_sel alike_def Let_def)
  then show ?thesis
    using start
    by (simp only: process_quiet [OF q] Let_def) (simp split: option.split)
qed

text \<open>The device at the end of a pass.\<close>

definition finish_pass :: "usize \<Rightarrow> ('m balloon option, 'm) progress \<Rightarrow> 'm balloon \<Rightarrow> 'm balloon" where
  "finish_pass i p c =
     (let b1 = (with_tracked (pr_dm p) c)\<lparr>bn_processors := (bn_processors c)[i := Some (pr_vq p)]\<rparr>
      in if 0 < pr_done p then trigger_interrupt INT_VRING b1 else b1)"

lemma process_queue_eq:
  assumes "i < QUEUE_COUNT" and "i < length (bn_queues b)" and "qs_config (bn_queues b ! i) = Some cfg"
    and "i < length (bn_processors b)"
  shows "balloon_process_queue G H held i b =
    Option.bind (process_queue_descriptors_dirty G (balloon_handler G H held i) (pass_processor i cfg b) (Some b)
      (tracked (bn_memory b))) (\<lambda>p. map_option (\<lambda>c. (pr_done p, finish_pass i p c)) (pr_state p))"
  using assms by (simp add: balloon_process_queue_def pass_processor_def finish_pass_def Let_def)

lemma process_queue_idle:
  "\<not> (i < QUEUE_COUNT \<and> i < length (bn_queues b) \<and> qs_config (bn_queues b ! i) \<noteq> None) \<Longrightarrow>
     balloon_process_queue G H held i b = Some (0, b)"
  by (auto simp: balloon_process_queue_def)

lemma finish_twin:
  assumes "twin b b'" and "alike (twin_state b b') p p'" and "pr_state p = Some c" and "pr_state p' = Some c'"
    and "quiet (pr_vq p)"
  shows "twin (finish_pass i p c) (finish_pass i p' c')"
proof -
  have c: "same_regs c c'" "bn_memory c' = bn_memory c" "bn_processors c = bn_processors b"
    "bn_processors c' = bn_processors b'" and p: "pr_vq p' = pr_vq p" "pr_dm p' = pr_dm p" "pr_done p' = pr_done p"
    using assms(2-4) by (simp_all add: alike_def twin_state_def)
  have "list_all2 (rel_option same_cursor) ((bn_processors b)[i := Some (pr_vq p)]) ((bn_processors b')[i := Some (pr_vq p)])"
    using assms(1,5) by (intro list_all2_update_cong) (simp_all add: twin_def same_cursor_def)
  then show ?thesis
    using c p
    by (simp add: twin_def finish_pass_def Let_def with_tracked_def trigger_interrupt_def same_regs_def
        split: option.split)
qed

lemma process_queue_twin:
  assumes wf: "balloon_wf b" and twin: "twin b b'"
  shows "rel_option (rel_prod (=) twin) (balloon_process_queue G H held i b) (balloon_process_queue G H held i b')"
proof (cases "i < QUEUE_COUNT \<and> i < length (bn_queues b) \<and> qs_config (bn_queues b ! i) \<noteq> None")
  case False
  moreover have "bn_queues b' = bn_queues b" using twin by (simp add: twin_def same_regs_def)
  ultimately show ?thesis using twin by (simp add: process_queue_idle)
next
  case True
  then obtain cfg where cfg: "i < QUEUE_COUNT" "i < length (bn_queues b)" "qs_config (bn_queues b ! i) = Some cfg"
    by auto
  have regs: "bn_queues b' = bn_queues b" "bn_memory b' = bn_memory b" "length (bn_processors b') = length (bn_processors b)"
    using twin by (auto simp: twin_def same_regs_def dest: list_all2_lengthD)
  have len: "i < length (bn_processors b)" using wf cfg(1) by (simp add: balloon_wf_def)
  define q where "q = pass_processor i cfg b"
  have q: "quiet q" "pass_processor i cfg b' = q"
    using pass_processor_quiet [OF wf cfg(1)] twin_pass_processor [OF twin len] by (simp_all add: q_def)
  have "twin_state b b' (Some b) (Some b')" using twin by (simp add: twin_state_def twin_def)
  note pass = pass_twin [OF q(1) this, of G H held i "tracked (bn_memory b)"]
  obtain p where p: "process_queue_descriptors_dirty G (balloon_handler G H held i) q (Some b)
      (tracked (bn_memory b)) = Some p" "quiet (pr_vq p)" "served_device b (pr_state p)"
    by (rule balloon_pass [OF q(1)])
  obtain p' where p': "process_queue_descriptors_dirty G (balloon_handler G H held i) q (Some b')
      (tracked (bn_memory b)) = Some p'" "alike (twin_state b b') p p'"
    using pass p(1) by (auto simp: option_rel_Some1)
  have run: "balloon_process_queue G H held i b = map_option (\<lambda>c. (pr_done p, finish_pass i p c)) (pr_state p)"
    "balloon_process_queue G H held i b' = map_option (\<lambda>c. (pr_done p', finish_pass i p' c)) (pr_state p')"
    using process_queue_eq [OF cfg len] process_queue_eq [of i b' cfg G H held] cfg len regs p(1) p'(1) q(2)
    by (simp_all add: q_def)
  show ?thesis
  proof (cases "pr_state p")
    case None
    then show ?thesis using run p'(2) by (simp add: alike_def twin_state_def)
  next
    case (Some c)
    then obtain c' where "pr_state p' = Some c'"
      using p'(2) by (cases "pr_state p'") (simp_all add: alike_def twin_state_def)
    then show ?thesis
      using run Some finish_twin [OF twin p'(2) Some _ p(2)] p'(2) by (simp add: alike_def)
  qed
qed

lemma twin_read: "twin b b' \<Longrightarrow> balloon_mmio_read offset b' = balloon_mmio_read offset b"
  unfolding balloon_mmio_read_def of_selected_def selected_queue_def twin_def same_regs_def
  by (elim conjE) (simp only:)

lemma if_twin: "twin x x' \<Longrightarrow> twin y y' \<Longrightarrow> twin (if c then x else y) (if c then x' else y')"
  by simp

lemma update_queue_twin: "twin b b' \<Longrightarrow> twin (update_selected_queue f b) (update_selected_queue f b')"
  by (simp add: twin_def same_regs_def update_selected_queue_def)

lemma features_twin: "twin b b' \<Longrightarrow> twin (write_guest_features v b) (write_guest_features v b')"
  by (simp add: twin_def same_regs_def write_guest_features_def)

lemma actual_twin: "twin b b' \<Longrightarrow> twin (write_actual v b) (write_actual v b')"
  by (simp add: twin_def same_regs_def write_actual_def count_rejected_def)

lemma reset_twin: "twin b b' \<Longrightarrow> twin (balloon_reset b) (balloon_reset b')"
  by (simp add: twin_def same_regs_def balloon_reset_def list_all2_conv_all_nth)

lemma plain_writes_twin:
  assumes "twin b b'"
  shows "twin (b\<lparr>bn_status := v, bn_activated := a\<rparr>) (b'\<lparr>bn_status := v, bn_activated := a\<rparr>)"
    "twin (b\<lparr>bn_host_features_sel := v\<rparr>) (b'\<lparr>bn_host_features_sel := v\<rparr>)"
    "twin (b\<lparr>bn_guest_features_sel := v\<rparr>) (b'\<lparr>bn_guest_features_sel := v\<rparr>)"
    "twin (b\<lparr>bn_queue_sel := v\<rparr>) (b'\<lparr>bn_queue_sel := v\<rparr>)"
    "twin (b\<lparr>bn_interrupt_status := bn_interrupt_status b AND w\<rparr>)
      (b'\<lparr>bn_interrupt_status := bn_interrupt_status b' AND w\<rparr>)"
  using assms by (simp_all add: twin_def same_regs_def)

lemma write_register_twin: "twin b b' \<Longrightarrow> twin (write_register offset v b) (write_register offset v b')"
  unfolding write_register_def
  by (intro if_twin update_queue_twin features_twin actual_twin reset_twin plain_writes_twin)

lemma mmio_write_twin:
  assumes "balloon_wf b" and "twin b b'"
  shows "rel_option twin (balloon_mmio_write G H held offset v b) (balloon_mmio_write G H held offset v b')"
proof (cases "offset = R_QUEUE_NOTIFY")
  case True
  then show ?thesis
    using process_queue_twin [OF assms, of G H held "v mod 2 ^ 32"]
    by (cases "balloon_process_queue G H held (v mod 2 ^ 32) b";
        cases "balloon_process_queue G H held (v mod 2 ^ 32) b'")
      (auto simp: balloon_mmio_write_def Let_def rel_prod_sel)
next
  case False
  then show ?thesis using write_register_twin [OF assms(2)] by (simp add: balloon_mmio_write_def Let_def)
qed

lemma set_target_twin:
  "twin b b' \<Longrightarrow> rel_prod (=) twin (set_target_pages pages b) (set_target_pages pages b')"
  by (simp add: twin_def same_regs_def set_target_pages_def trigger_interrupt_def)

lemma balloon_run_twin:
  "balloon_wf b \<Longrightarrow> twin b b' \<Longrightarrow>
     rel_option (rel_prod (=) twin) (balloon_run G H held as b) (balloon_run G H held as b')"
proof (induction G H held as b arbitrary: b' rule: balloon_run.induct)
  case (2 G H held offset as b)
  show ?case
    using 2(1) [OF 2(2,3)] twin_read [OF 2(3), of offset]
    by (cases "balloon_run G H held as b"; cases "balloon_run G H held as b'") (auto simp: rel_prod_sel)
next
  case (3 G H held offset v as b)
  note rel = mmio_write_twin [OF 3(2,3), of G H held offset v]
  show ?case
  proof (cases "balloon_mmio_write G H held offset v b")
    case None
    then show ?thesis using rel by simp
  next
    case (Some c)
    then obtain c' where "balloon_mmio_write G H held offset v b' = Some c'" "twin c c'"
      using rel by (auto simp: option_rel_Some1)
    then show ?thesis using 3(1) [OF Some] mmio_write_wf [OF 3(2) Some] Some by simp
  qed
next
  case (4 G H held pages as b)
  obtain r c c' where t: "set_target_pages pages b = (r, c)" "set_target_pages pages b' = (r, c')" "twin c c'"
    using set_target_twin [OF 4(3), of pages]
    by (cases "set_target_pages pages b"; cases "set_target_pages pages b'") auto
  have "balloon_wf c" using set_target_wf [OF 4(2), of pages] t(1) by simp
  from 4(1) [OF t(1) [symmetric] this t(3)] t(1,2) show ?case
    by (cases "balloon_run G H held as c"; cases "balloon_run G H held as c'") (auto simp: rel_prod_sel)
qed simp

text \<open>The queues whose place in the ring is saved are configured.\<close>

definition cursors_kept :: "'m balloon \<Rightarrow> bool" where
  "cursors_kept b \<longleftrightarrow>
     (\<forall>i < QUEUE_COUNT. bn_processors b ! i \<noteq> None \<longrightarrow> qs_config (bn_queues b ! i) \<noteq> None)"

lemma restore_twin:
  assumes wf: "balloon_wf b" and kept: "cursors_kept b"
    and host: "bn_irq b0 = bn_irq b" "bn_memory b0 = bn_memory b" "bn_irq_evt b0 = bn_irq_evt b"
  shows "twin b (balloon_apply_state (balloon_save b) b0)"
proof -
  have "rel_option same_cursor (bn_processors b ! i)
      (restore_processor (bn_queues b) (i, map_option vq_save_state (bn_processors b ! i)))"
    if i: "i < QUEUE_COUNT" for i
  proof (cases "bn_processors b ! i")
    case (Some q)
    obtain cfg where cfg: "qs_config (bn_queues b ! i) = Some cfg"
      using kept i Some unfolding cursors_kept_def by blast
    have "i < length (bn_processors b)" "i < length (bn_queues b)" using wf i by (simp_all add: balloon_wf_def)
    then have "quiet q" using wf Some nth_mem [of i "bn_processors b"] unfolding balloon_wf_def by simp
    then show ?thesis
      using Some cfg \<open>i < length (bn_queues b)\<close>
      by (simp add: restore_processor_def same_cursor_def quiet_def vq_from_state_def vq_new_with_indices_def vq_save_state_def)
  qed (simp add: restore_processor_def)
  then show ?thesis
    using wf host
    by (simp add: twin_def same_regs_def balloon_apply_state_def balloon_save_def balloon_wf_def
        list_all2_conv_all_nth nth_enumerate_eq)
qed


section \<open>Examples\<close>

text \<open>A balloon over the memory that holds the example ring.\<close>

definition ex_balloon_mem :: "packed_mem guest_memory" where
  "ex_balloon_mem = \<lparr>gm_mem = ex_ring, gm_size = 0x10000, gm_dirty = {}, gm_lazy = None,
     gm_file_backed = False, gm_ranges = empty_ranges\<rparr>"

definition ex_balloon :: "packed_mem balloon" where
  "ex_balloon = projr (balloon_new 5 ex_balloon_mem 4)"

lemma ex_balloon_new: "balloon_new 5 ex_balloon_mem 4 = Ok ex_balloon"
  by (simp add: ex_balloon_def balloon_new_def ex_balloon_mem_def PAGE_SIZE_def)

text \<open>The driver selects the deflate queue, gives it eight entries and enables it.\<close>

definition ex_setup :: "balloon_access list" where
  "ex_setup = [WriteReg R_QUEUE_SEL 1, WriteReg R_QUEUE_NUM 8, WriteReg R_QUEUE_READY 1, ReadReg R_QUEUE_READY]"

lemmas balloon_eval = ex_balloon_def balloon_new_def ex_balloon_mem_def PAGE_SIZE_def ex_setup_def
  balloon_mmio_write_def write_register_def balloon_mmio_read_def reg_defs update_selected_queue_def
  selected_queue_def of_selected_def set_size_def set_ready_def valid_size_def is_valid_queue_size_def
  MAX_QUEUE_SIZE_def QUEUE_COUNT_def queue_state_default_def VIRTIO_MAGIC_def

lemma replicate_two: "replicate 2 x = [x, x]"
  by (simp add: numeral_2_eq_2)

definition ex_ready :: "packed_mem balloon" where
  "ex_ready = snd (the (balloon_run packed_ops packed_host [] ex_setup ex_balloon))"

lemma ex_setup_run: "balloon_run packed_ops packed_host [] ex_setup ex_balloon = Some ([1], ex_ready)"
  by (simp add: ex_ready_def balloon_eval replicate_two)

theorem balloon_stays_wf_witness:
  "balloon_run packed_ops packed_host [] ex_setup ex_balloon = Some ([1], ex_ready) \<and> balloon_wf ex_ready"
  using balloon_stays_wf [OF ex_balloon_new ex_setup_run] ex_setup_run by simp

lemma all_less_two: "(\<forall>i < 2. P i) \<longleftrightarrow> P 0 \<and> P (1 :: nat)"
  by (auto simp: less_2_cases_iff)

lemma ex_ready_simps:
  "cursors_kept ex_ready" "bn_irq ex_balloon = bn_irq ex_ready" "bn_memory ex_balloon = bn_memory ex_ready"
  "bn_irq_evt ex_balloon = bn_irq_evt ex_ready"
  by (simp_all add: cursors_kept_def ex_ready_def balloon_eval replicate_two all_less_two)

lemma ex_ready_later:
  "map_option fst (balloon_run packed_ops packed_host []
     [ReadReg R_QUEUE_NUM, WriteReg R_QUEUE_READY 0, ReadReg R_QUEUE_READY] ex_ready) = Some [8, 0]"
  by (simp add: ex_ready_def balloon_eval replicate_two)


lemma ex_balloon_inv: "gm_inv packed_host ex_balloon_mem"
  by (simp add: gm_inv_def ex_balloon_mem_def ex_ring_def packed_host_def ranges_inv_empty [unfolded empty_ranges_def]
      backing_empty empty_ranges_def page_aligned_def PAGE_SIZE_def)

text \<open>The word at \<open>0x2002\<close> is 1: the guest gives up its second page.\<close>

lemma ex_parse: "parse_pfns packed_ops ex_balloon_mem [(0x2002, 4)] [] = Some [1]"
  by (simp add: parse_pfns_def checked_add_def MAX_PFNS_PER_REQUEST_def pfn_slots_def div_ceil_def read_pfn_def
      ex_balloon_mem_def ex_rd upt_rec_numeral ex_bytes_def checked_mul_def PAGE_SIZE_def)

lemma ex_inflate_ok:
  "map_option bn_rejected_pfns (serve_request packed_ops packed_host [] QUEUE_INFLATE [(0x2002, 4)] [] ex_balloon) = Some 0"
proof -
  have mem: "bn_memory ex_balloon = ex_balloon_mem" "bn_rejected_pfns ex_balloon = 0"
    by (simp_all add: ex_balloon_def balloon_new_def ex_balloon_mem_def PAGE_SIZE_def)
  have r: "gpa_range_to_offset 0x10000 4096 4096 = Some 4096"
    by (simp add: gpa_range_to_offset_def gpa_to_offset_def gap_defs checked_add_def checked_sub_def)
  obtain gm where "discard_range packed_host [] 4096 4096 ex_balloon_mem = Some (Ok (), gm)"
    by (simp add: discard_range_def ex_balloon_mem_def r packed_host_def)
  then show ?thesis
    by (simp add: serve_request_def mem ex_parse inflate_def PAGE_SIZE_def)
qed


end
