(* ===== verification/RateLimit.thy ===== *)
theory RateLimit
  imports Prelude
begin

text \<open>
  The token buckets: the rate limiter of the device data paths
  (\<open>vmm-devices/src/rate_limit.rs\<close>), two buckets that are charged together, and the
  plain bucket of \<open>vmm-net/src/rate_limit.rs\<close>. Time is in nanoseconds. Tokens of the
  device bucket are an \<open>i128\<close>, hence an integer: a request larger than the bucket is let
  through when the bucket is full and leaves a debt.
\<close>

section \<open>Device buckets\<close>

definition NANOS_PER_SEC :: u64 where "NANOS_PER_SEC = 1000000000"

definition i128_max :: int where "i128_max = 2 ^ 127 - 1"
definition i128_min :: int where "i128_min = - (2 ^ 127)"

definition saturate_i128 :: "int \<Rightarrow> int" where
  "saturate_i128 x = max i128_min (min i128_max x)"

record token_bucket =
  tb_capacity :: u64
  tb_refill_per_sec :: u64
  tb_tokens :: int
  tb_last_refill_ns :: u64

definition bucket_new_at :: "u64 \<Rightarrow> u64 \<Rightarrow> u64 \<Rightarrow> token_bucket" where
  "bucket_new_at capacity refill_per_sec now_ns =
     \<lparr>tb_capacity = capacity, tb_refill_per_sec = refill_per_sec, tb_tokens = int capacity,
      tb_last_refill_ns = now_ns\<rparr>"

definition bucket_new :: "u64 \<Rightarrow> u64 \<Rightarrow> token_bucket" where
  "bucket_new capacity refill_per_sec = bucket_new_at capacity refill_per_sec 0"

definition refill :: "u64 \<Rightarrow> token_bucket \<Rightarrow> token_bucket" where
  "refill now_ns b =
     (if tb_refill_per_sec b = 0 \<or> now_ns \<le> tb_last_refill_ns b then b
      else
        let elapsed_ns = now_ns - tb_last_refill_ns b;
            added = elapsed_ns * tb_refill_per_sec b div NANOS_PER_SEC
        in if added = 0 then b
           else
             let elapsed_for_added = max (added * NANOS_PER_SEC div tb_refill_per_sec b) 1;
                 tokens = min (saturate_i128 (tb_tokens b + min (int added) i128_max)) (int (tb_capacity b))
             in if int (tb_capacity b) \<le> tokens
                then b\<lparr>tb_tokens := tokens, tb_last_refill_ns := now_ns\<rparr>
                else b\<lparr>tb_tokens := tokens,
                       tb_last_refill_ns := saturating_add 64 (tb_last_refill_ns b)
                         (min elapsed_for_added elapsed_ns)\<rparr>)"

definition can_consume :: "u64 \<Rightarrow> token_bucket \<Rightarrow> bool" where
  "can_consume amount b =
     (if amount = 0 then True
      else if tb_capacity b = 0 then False
      else if amount \<le> tb_capacity b then int amount \<le> tb_tokens b
      else int (tb_capacity b) \<le> tb_tokens b)"

definition consume_without_refill :: "u64 \<Rightarrow> token_bucket \<Rightarrow> token_bucket" where
  "consume_without_refill amount b = b\<lparr>tb_tokens := saturate_i128 (tb_tokens b - int amount)\<rparr>"

definition consume :: "u64 \<Rightarrow> u64 \<Rightarrow> token_bucket \<Rightarrow> bool \<times> token_bucket" where
  "consume amount now_ns b =
     (let b' = refill now_ns b in
      if \<not> can_consume amount b' then (False, b') else (True, consume_without_refill amount b'))"

section \<open>The limiter\<close>

text \<open>The clock is the sequence of its readings to come.\<close>

record rate_limiter =
  rl_ops :: token_bucket
  rl_bytes :: token_bucket
  rl_clock :: "nat \<Rightarrow> u64"

definition limiter_new_with_clock :: "u64 \<Rightarrow> u64 \<Rightarrow> (nat \<Rightarrow> u64) \<Rightarrow> rate_limiter" where
  "limiter_new_with_clock ops_per_sec bytes_per_sec clock =
     (let now_ns = clock 0 in
      \<lparr>rl_ops = bucket_new_at ops_per_sec ops_per_sec now_ns,
       rl_bytes = bucket_new_at bytes_per_sec bytes_per_sec now_ns,
       rl_clock = (\<lambda>i. clock (Suc i))\<rparr>)"

definition try_charge_at :: "u64 \<Rightarrow> u64 \<Rightarrow> u64 \<Rightarrow> rate_limiter \<Rightarrow> bool \<times> rate_limiter" where
  "try_charge_at ops bytes now_ns rl =
     (let rl' = rl\<lparr>rl_ops := refill now_ns (rl_ops rl), rl_bytes := refill now_ns (rl_bytes rl)\<rparr> in
      if \<not> can_consume ops (rl_ops rl') \<or> \<not> can_consume bytes (rl_bytes rl') then (False, rl')
      else (True, rl'\<lparr>rl_ops := consume_without_refill ops (rl_ops rl'),
                      rl_bytes := consume_without_refill bytes (rl_bytes rl')\<rparr>))"

definition try_charge :: "u64 \<Rightarrow> u64 \<Rightarrow> rate_limiter \<Rightarrow> bool \<times> rate_limiter" where
  "try_charge ops bytes rl =
     try_charge_at ops bytes (rl_clock rl 0) (rl\<lparr>rl_clock := (\<lambda>i. rl_clock rl (Suc i))\<rparr>)"

section \<open>The plain bucket\<close>

record net_bucket =
  nb_capacity :: u64
  nb_refill_per_sec :: u64
  nb_tokens :: u64
  nb_last_refill_ns :: u64

definition net_bucket_new :: "u64 \<Rightarrow> u64 \<Rightarrow> net_bucket" where
  "net_bucket_new capacity refill_per_sec =
     \<lparr>nb_capacity = capacity, nb_refill_per_sec = refill_per_sec, nb_tokens = capacity,
      nb_last_refill_ns = 0\<rparr>"

definition net_refill :: "u64 \<Rightarrow> net_bucket \<Rightarrow> net_bucket" where
  "net_refill now_ns b =
     (if nb_refill_per_sec b = 0 then b
      else if now_ns \<le> nb_last_refill_ns b then b
      else
        let elapsed_ns = now_ns - nb_last_refill_ns b;
            added = (elapsed_ns * nb_refill_per_sec b div 1000000000) mod 2 ^ 64
        in b\<lparr>nb_tokens := min (saturating_add 64 (nb_tokens b) added) (nb_capacity b),
             nb_last_refill_ns := now_ns\<rparr>)"

definition net_consume :: "u64 \<Rightarrow> u64 \<Rightarrow> net_bucket \<Rightarrow> bool \<times> net_bucket" where
  "net_consume n now_ns b =
     (let b' = net_refill now_ns b in
      if n \<le> nb_tokens b' then (True, b'\<lparr>nb_tokens := nb_tokens b' - n\<rparr>) else (False, b'))"

section \<open>Accounting\<close>

text \<open>The limits the constructor and the debt put on a bucket.\<close>

definition bucket_wf :: "token_bucket \<Rightarrow> bool" where
  "bucket_wf b \<longleftrightarrow> tb_capacity b < 2 ^ 64 \<and> tb_refill_per_sec b < 2 ^ 64 \<and> tb_last_refill_ns b < 2 ^ 64 \<and>
     tb_tokens b \<le> int (tb_capacity b) \<and> - (2 ^ 64) \<le> tb_tokens b"

text \<open>
  What a bucket holds, in billionths of a token, less what the time up to its last refill was
  worth. Time alone does not change it.
\<close>

definition balance :: "token_bucket \<Rightarrow> int" where
  "balance b = tb_tokens b * int NANOS_PER_SEC - int (tb_refill_per_sec b) * int (tb_last_refill_ns b)"

text \<open>The most one refill rounds in the bucket's favour.\<close>

definition rounding :: "u64 \<Rightarrow> u64" where
  "rounding rate = (if rate dvd NANOS_PER_SEC then 0 else rate - 1)"

lemma saturate_small: "- (2 ^ 127) \<le> x \<Longrightarrow> x < 2 ^ 127 \<Longrightarrow> saturate_i128 x = x"
  by (simp add: saturate_i128_def i128_max_def i128_min_def)

lemma added_small:
  assumes "e < 2 ^ 64" and "r < 2 ^ 64"
  shows "e * r div NANOS_PER_SEC < 2 ^ 100"
proof -
  have "e * r \<le> 2 ^ 64 * 2 ^ 64" using assms by (intro mult_mono) simp_all
  also have "\<dots> < 2 ^ 100 * NANOS_PER_SEC" by (simp add: NANOS_PER_SEC_def)
  finally show ?thesis by (simp add: less_mult_imp_div_less)
qed

lemma added_tokens:
  assumes "bucket_wf b" and "a < 2 ^ 100"
  shows "saturate_i128 (tb_tokens b + min (int a) i128_max) = tb_tokens b + int a"
proof -
  have a: "int a < 2 ^ 100" using assms(2) by (metis of_nat_less_numeral_power_cancel_iff)
  then have m: "min (int a) i128_max = int a" by (simp add: i128_max_def)
  have c: "int (tb_capacity b) < 2 ^ 64"
    using assms(1) by (metis bucket_wf_def of_nat_less_numeral_power_cancel_iff)
  have "- (2 ^ 64) \<le> tb_tokens b + int a" "tb_tokens b + int a < 2 ^ 64 + 2 ^ 100"
    using assms(1) a c by (simp_all add: bucket_wf_def)
  then show ?thesis unfolding m by (intro saturate_small) simp_all
qed

text \<open>A refill does nothing, fills the bucket, or adds the whole tokens the elapsed time is worth.\<close>

lemma refill_cases:
  assumes wf: "bucket_wf b" and now: "now < 2 ^ 64"
  obtains
    (idle) "refill now b = b"
      "tb_refill_per_sec b = 0 \<or> now \<le> tb_last_refill_ns b \<or>
       (now - tb_last_refill_ns b) * tb_refill_per_sec b < NANOS_PER_SEC"
  | (full) a where "refill now b = b\<lparr>tb_tokens := int (tb_capacity b), tb_last_refill_ns := now\<rparr>"
      "tb_last_refill_ns b < now" "a = (now - tb_last_refill_ns b) * tb_refill_per_sec b div NANOS_PER_SEC"
      "int (tb_capacity b) \<le> tb_tokens b + int a"
  | (part) a e where "refill now b = b\<lparr>tb_tokens := tb_tokens b + int a, tb_last_refill_ns := tb_last_refill_ns b + e\<rparr>"
      "0 < tb_refill_per_sec b" "tb_last_refill_ns b < now"
      "a = (now - tb_last_refill_ns b) * tb_refill_per_sec b div NANOS_PER_SEC" "0 < a"
      "e = max (a * NANOS_PER_SEC div tb_refill_per_sec b) 1" "e \<le> now - tb_last_refill_ns b"
      "tb_tokens b + int a < int (tb_capacity b)"
proof (cases "tb_refill_per_sec b = 0 \<or> now \<le> tb_last_refill_ns b \<or>
    (now - tb_last_refill_ns b) * tb_refill_per_sec b < NANOS_PER_SEC")
  case True
  then have "refill now b = b" by (elim disjE) (simp_all add: refill_def)
  then show ?thesis using True by (rule idle)
next
  case False
  define R E a where "R = tb_refill_per_sec b" and "E = now - tb_last_refill_ns b" and "a = E * R div NANOS_PER_SEC"
  have R: "0 < R" "tb_last_refill_ns b < now" "NANOS_PER_SEC \<le> E * R" using False by (simp_all add: R_def E_def)
  then have a: "0 < a" by (simp add: a_def div_greater_zero_iff NANOS_PER_SEC_def)
  have "a < 2 ^ 100" unfolding a_def by (rule added_small) (use wf now in \<open>simp_all add: bucket_wf_def R_def E_def\<close>)
  note t = added_tokens [OF wf this]
  have "a * NANOS_PER_SEC \<le> E * R" by (simp add: a_def)
  then have "a * NANOS_PER_SEC div R \<le> E * R div R" by (rule div_le_mono)
  then have "a * NANOS_PER_SEC div R \<le> E" using R(1) by simp
  then have e: "max (a * NANOS_PER_SEC div R) 1 \<le> E" using R(2) by (simp add: E_def)
  show ?thesis
  proof (cases "int (tb_capacity b) \<le> tb_tokens b + int a")
    case True
    then have "refill now b = b\<lparr>tb_tokens := int (tb_capacity b), tb_last_refill_ns := now\<rparr>"
      using R a t unfolding refill_def R_def [symmetric] E_def [symmetric] Let_def a_def [symmetric] by simp
    then show ?thesis by (rule full [OF _ R(2) a_def [unfolded R_def E_def] True])
  next
    case c: False
    have "tb_last_refill_ns b + max (a * NANOS_PER_SEC div R) 1 \<le> now" using e R(2) unfolding E_def by linarith
    then have "tb_last_refill_ns b + max (a * NANOS_PER_SEC div R) 1 \<le> 2 ^ 64 - 1" using now by linarith
    then have "saturating_add 64 (tb_last_refill_ns b) (min (max (a * NANOS_PER_SEC div R) 1) E) =
        tb_last_refill_ns b + max (a * NANOS_PER_SEC div R) 1"
      unfolding saturating_add_def min_absorb1 [OF e] by (rule min_absorb1)
    then have "refill now b = b\<lparr>tb_tokens := tb_tokens b + int a,
        tb_last_refill_ns := tb_last_refill_ns b + max (a * NANOS_PER_SEC div R) 1\<rparr>"
      using R a t c unfolding refill_def R_def [symmetric] E_def [symmetric] Let_def a_def [symmetric] by simp
    from this [unfolded R_def] show ?thesis
      by (rule part [OF _ R(1) [unfolded R_def] R(2) a_def [unfolded R_def E_def] a refl])
        (use c e in \<open>simp_all add: R_def E_def\<close>)
  qed
qed

lemma refill_keeps:
  assumes wf: "bucket_wf b" and now: "now < 2 ^ 64"
  shows "bucket_wf (refill now b) \<and> tb_capacity (refill now b) = tb_capacity b \<and>
    tb_refill_per_sec (refill now b) = tb_refill_per_sec b \<and> tb_tokens b \<le> tb_tokens (refill now b) \<and>
    tb_last_refill_ns (refill now b) \<le> max (tb_last_refill_ns b) now"
  using wf now
proof (cases rule: refill_cases)
  case idle
  then show ?thesis using wf by simp
next
  case (full a)
  then show ?thesis using wf now by (simp add: bucket_wf_def)
next
  case (part a e)
  have "tb_last_refill_ns b + e \<le> now" using part(3,7) by linarith
  then show ?thesis using wf now part(8) by (simp add: bucket_wf_def part(1))
qed

lemma refill_balance:
  assumes wf: "bucket_wf b" and now: "now < 2 ^ 64"
  shows "balance (refill now b) \<le> balance b + int (rounding (tb_refill_per_sec b))"
  using wf now
proof (cases rule: refill_cases)
  case idle
  then show ?thesis by simp
next
  case (full a)
  let ?R = "tb_refill_per_sec b" and ?l = "tb_last_refill_ns b"
  have "a * NANOS_PER_SEC \<le> (now - ?l) * ?R" using full(3) by simp
  then have "int a * int NANOS_PER_SEC \<le> (int now - int ?l) * int ?R"
    using full(2) by (metis of_nat_diff of_nat_le_iff of_nat_mult less_imp_le)
  moreover have "int (tb_capacity b) * int NANOS_PER_SEC \<le> (tb_tokens b + int a) * int NANOS_PER_SEC"
    using full(4) by (intro mult_right_mono) simp_all
  ultimately show ?thesis by (simp add: full(1) balance_def algebra_simps)
next
  case (part a e)
  let ?R = "tb_refill_per_sec b"
  have "a * NANOS_PER_SEC \<le> ?R * (a * NANOS_PER_SEC div ?R) + rounding ?R"
  proof (cases "?R dvd NANOS_PER_SEC")
    case True
    then show ?thesis by (simp add: rounding_def)
  next
    case False
    have "a * NANOS_PER_SEC mod ?R \<le> ?R - 1" using part(2) by (simp add: less_Suc_eq_le [symmetric])
    moreover have "rounding ?R = ?R - 1" using False by (simp add: rounding_def)
    ultimately show ?thesis using mult_div_mod_eq [of ?R "a * NANOS_PER_SEC"] by linarith
  qed
  also have "\<dots> \<le> ?R * e + rounding ?R" by (simp add: part(6))
  finally have "int a * int NANOS_PER_SEC \<le> int ?R * int e + int (rounding ?R)"
    by (metis of_nat_add of_nat_le_iff of_nat_mult)
  then show ?thesis by (simp add: part(1) balance_def algebra_simps)
qed

text \<open>At rates up to one token a nanosecond a refill that does not fill the bucket loses nothing.\<close>

lemma refill_no_loss:
  assumes wf: "bucket_wf b" and now: "now < 2 ^ 64" and "tb_refill_per_sec b \<le> NANOS_PER_SEC"
  shows "tb_tokens (refill now b) = int (tb_capacity b) \<or> balance b \<le> balance (refill now b)"
  using wf now
proof (cases rule: refill_cases)
  case (part a e)
  let ?R = "tb_refill_per_sec b"
  have "?R \<le> a * NANOS_PER_SEC" using part(5) assms(3) by (cases a) simp_all
  then have "0 < a * NANOS_PER_SEC div ?R" using part(2) by (simp add: div_greater_zero_iff)
  then have "e = a * NANOS_PER_SEC div ?R" using part(6) by simp
  then have "?R * e \<le> a * NANOS_PER_SEC" by simp
  then have "int ?R * int e \<le> int a * int NANOS_PER_SEC" by (metis of_nat_le_iff of_nat_mult)
  then show ?thesis by (simp add: part(1) balance_def algebra_simps)
qed simp_all

lemma consume_balance:
  assumes "bucket_wf b" and "can_consume amount b" and "amount < 2 ^ 64"
  shows "consume_without_refill amount b = b\<lparr>tb_tokens := tb_tokens b - int amount\<rparr>"
    and "bucket_wf (consume_without_refill amount b)"
    and "balance (consume_without_refill amount b) = balance b - int amount * int NANOS_PER_SEC"
    and "min (tb_tokens b) (- int (amount - tb_capacity b)) \<le> tb_tokens (consume_without_refill amount b)"
proof -
  have a: "int amount < 2 ^ 64" using assms(3) by (metis of_nat_less_numeral_power_cancel_iff)
  have low: "min (tb_tokens b) (- int (amount - tb_capacity b)) \<le> tb_tokens b - int amount"
    using assms(2) by (auto simp: can_consume_def split: if_splits)
  then have "- (2 ^ 64) \<le> tb_tokens b - int amount"
    using assms(1) a by (auto simp: bucket_wf_def min_le_iff_disj)
  moreover have "int (tb_capacity b) < 2 ^ 64"
    using assms(1) by (metis bucket_wf_def of_nat_less_numeral_power_cancel_iff)
  ultimately show c: "consume_without_refill amount b = b\<lparr>tb_tokens := tb_tokens b - int amount\<rparr>"
    and "bucket_wf (consume_without_refill amount b)"
    using assms(1) by (simp_all add: consume_without_refill_def saturate_small bucket_wf_def)
  show "balance (consume_without_refill amount b) = balance b - int amount * int NANOS_PER_SEC"
    by (simp add: c balance_def algebra_simps)
  show "min (tb_tokens b) (- int (amount - tb_capacity b)) \<le> tb_tokens (consume_without_refill amount b)"
    using low by (simp add: c)
qed

section \<open>Histories of charges\<close>

text \<open>Charge a limiter with a list of requests; the sums of what was granted.\<close>

fun charge_all :: "(u64 \<times> u64) list \<Rightarrow> rate_limiter \<Rightarrow> (u64 \<times> u64) \<times> rate_limiter" where
  "charge_all [] rl = ((0, 0), rl)"
| "charge_all ((ops, bytes) # cs) rl =
     (case try_charge ops bytes rl of (ok, rl1) \<Rightarrow>
        (case charge_all cs rl1 of ((go, gb), rl2) \<Rightarrow>
           ((if ok then ops + go else go, if ok then bytes + gb else gb), rl2)))"

text \<open>What a bucket granted, given the rate, the largest request and the readings so far.\<close>

definition accounted :: "u64 \<Rightarrow> u64 \<Rightarrow> u64 \<Rightarrow> nat \<Rightarrow> u64 \<Rightarrow> u64 \<Rightarrow> token_bucket \<Rightarrow> bool" where
  "accounted rate t0 largest k now granted b \<longleftrightarrow>
     bucket_wf b \<and> tb_capacity b = rate \<and> tb_refill_per_sec b = rate \<and> t0 \<le> now \<and> tb_last_refill_ns b \<le> now \<and>
     - int (largest - rate) \<le> tb_tokens b \<and>
     int granted * int NANOS_PER_SEC + balance b \<le>
       int rate * int NANOS_PER_SEC - int rate * int t0 + int k * int (rounding rate)"

lemma accounted_new: "rate < 2 ^ 64 \<Longrightarrow> t0 < 2 ^ 64 \<Longrightarrow> accounted rate t0 largest 0 t0 0 (bucket_new_at rate rate t0)"
  by (simp add: accounted_def bucket_new_at_def bucket_wf_def balance_def)

lemma accounted_refill:
  assumes "accounted rate t0 largest k now granted b" and "now \<le> now'" and "now' < 2 ^ 64"
  shows "accounted rate t0 largest (Suc k) now' granted (refill now' b)"
proof -
  have wf: "bucket_wf b" using assms(1) by (simp add: accounted_def)
  note keep = refill_keeps [OF wf assms(3)]
  have "balance (refill now' b) \<le> balance b + int (rounding rate)"
    using refill_balance [OF wf assms(3)] assms(1) by (simp add: accounted_def)
  then show ?thesis using keep assms unfolding accounted_def by (simp add: algebra_simps)
qed

lemma accounted_consume:
  assumes "accounted rate t0 largest k now granted b" and "can_consume amount b"
    and "amount \<le> largest" and "largest < 2 ^ 64"
  shows "accounted rate t0 largest k now (amount + granted) (consume_without_refill amount b)"
proof -
  have wf: "bucket_wf b" and a: "amount < 2 ^ 64" using assms by (simp_all add: accounted_def)
  note c = consume_balance [OF wf assms(2) a]
  have "- int (largest - rate) \<le> tb_tokens (consume_without_refill amount b)"
    using c(4) assms(1,3) by (simp add: accounted_def min_le_iff_disj) linarith
  then show ?thesis
    using assms(1) c(1-3) unfolding accounted_def by (simp add: algebra_simps)
qed

lemma accounted_bound:
  assumes "accounted rate t0 largest k now granted b"
  shows "granted * NANOS_PER_SEC \<le> max rate largest * NANOS_PER_SEC + rate * (now - t0) + k * rounding rate"
proof -
  have "int granted * int NANOS_PER_SEC \<le> (int rate - tb_tokens b) * int NANOS_PER_SEC +
      int rate * (int (tb_last_refill_ns b) - int t0) + int k * int (rounding rate)"
    using assms unfolding accounted_def balance_def by (clarsimp simp: algebra_simps)
  also have "(int rate - tb_tokens b) * int NANOS_PER_SEC \<le> int (max rate largest) * int NANOS_PER_SEC"
  proof (rule mult_right_mono)
    have "- int (largest - rate) \<le> tb_tokens b" using assms by (simp add: accounted_def)
    moreover have "int rate + int (largest - rate) = int (max rate largest)" by (simp add: max_def)
    ultimately show "int rate - tb_tokens b \<le> int (max rate largest)" by linarith
  qed simp
  also have "int rate * (int (tb_last_refill_ns b) - int t0) \<le> int rate * int (now - t0)"
    using assms by (intro mult_left_mono) (simp_all add: accounted_def of_nat_diff)
  finally have "int (granted * NANOS_PER_SEC) \<le>
      int (max rate largest * NANOS_PER_SEC + rate * (now - t0) + k * rounding rate)"
    by simp
  then show ?thesis by (simp only: of_nat_le_iff)
qed

lemma charge_all_accounted:
  assumes "accounted ro t0 mo k now go (rl_ops rl)" and "accounted rb t0 mb k now gb (rl_bytes rl)"
    and "mo < 2 ^ 64" and "mb < 2 ^ 64" and "\<forall>c \<in> set cs. fst c \<le> mo \<and> snd c \<le> mb"
    and "now \<le> rl_clock rl 0" and "mono (rl_clock rl)" and "\<forall>i. rl_clock rl i < 2 ^ 64"
    and "charge_all cs rl = ((go', gb'), rl')"
  shows "\<exists>now'. (cs = [] \<longrightarrow> now' = now) \<and> (cs \<noteq> [] \<longrightarrow> now' = rl_clock rl (length cs - 1)) \<and>
    accounted ro t0 mo (k + length cs) now' (go' + go) (rl_ops rl') \<and>
    accounted rb t0 mb (k + length cs) now' (gb' + gb) (rl_bytes rl')"
  using assms
proof (induction cs arbitrary: rl k now go gb go' gb' rl')
  case Nil
  then show ?case by simp
next
  case (Cons c cs)
  obtain ops bytes where c: "c = (ops, bytes)" by fastforce
  define t where "t = rl_clock rl 0"
  obtain ok rl1 where t1: "try_charge ops bytes rl = (ok, rl1)" by fastforce
  obtain go1 gb1 rl2 where t2: "charge_all cs rl1 = ((go1, gb1), rl2)" by (metis prod.exhaust)
  have res: "go' = (if ok then ops + go1 else go1)" "gb' = (if ok then bytes + gb1 else gb1)" "rl' = rl2"
    using Cons.prems(9) by (auto simp: c t1 t2 split: if_splits)
  have t: "now \<le> t" "t < 2 ^ 64" using Cons.prems(6,8) by (simp_all add: t_def)
  have cl: "rl_clock rl1 = (\<lambda>i. rl_clock rl (Suc i))"
    using t1 by (auto simp: try_charge_def try_charge_at_def Let_def split: if_splits)
  note ro = accounted_refill [OF Cons.prems(1) t] and rb = accounted_refill [OF Cons.prems(2) t]
  have a: "accounted ro t0 mo (Suc k) t ((if ok then ops else 0) + go) (rl_ops rl1) \<and>
      accounted rb t0 mb (Suc k) t ((if ok then bytes else 0) + gb) (rl_bytes rl1)"
    using t1 ro rb accounted_consume [OF ro _ _ Cons.prems(3), of ops]
      accounted_consume [OF rb _ _ Cons.prems(4), of bytes] Cons.prems(5)
    by (auto simp: c try_charge_def try_charge_at_def Let_def t_def [symmetric] split: if_splits)
  have m: "mono (rl_clock rl1)" "\<forall>i. rl_clock rl1 i < 2 ^ 64" "t \<le> rl_clock rl1 0"
    using Cons.prems(7,8) by (simp_all add: cl t_def mono_def)
  obtain now' where now': "cs = [] \<longrightarrow> now' = t" "cs \<noteq> [] \<longrightarrow> now' = rl_clock rl1 (length cs - 1)"
    "accounted ro t0 mo (Suc k + length cs) now' (go1 + ((if ok then ops else 0) + go)) (rl_ops rl2)"
    "accounted rb t0 mb (Suc k + length cs) now' (gb1 + ((if ok then bytes else 0) + gb)) (rl_bytes rl2)"
    using Cons.IH [OF conjunct1 [OF a] conjunct2 [OF a] Cons.prems(3,4) _ m(3,1,2) t2] Cons.prems(5) by auto
  have "now' = rl_clock rl (length cs)" using now'(1,2) by (cases cs) (simp_all add: cl t_def)
  then show ?case using now'(3,4) by (auto simp: res ac_simps split: if_splits)
qed

section \<open>Waiting\<close>

text \<open>Whether one of a list of attempts at the given times is granted.\<close>

fun granted_in :: "u64 \<Rightarrow> u64 list \<Rightarrow> token_bucket \<Rightarrow> bool" where
  "granted_in amount [] b = False"
| "granted_in amount (t # ts) b = (case consume amount t b of (ok, b') \<Rightarrow> ok \<or> granted_in amount ts b')"

text \<open>What a bucket must hold to let a request through.\<close>

definition needed :: "u64 \<Rightarrow> token_bucket \<Rightarrow> u64" where
  "needed amount b = min amount (tb_capacity b)"

lemma can_consume_needed:
  "can_consume amount b \<longleftrightarrow> amount = 0 \<or> (0 < tb_capacity b \<and> int (needed amount b) \<le> tb_tokens b)"
  by (auto simp: can_consume_def needed_def min_def)

lemma refill_enough:
  assumes wf: "bucket_wf b" and now: "now < 2 ^ 64"
    and enough: "int (needed amount b) * int NANOS_PER_SEC \<le> balance b + int (tb_refill_per_sec b) * int now"
  shows "int (needed amount b) \<le> tb_tokens (refill now b)"
proof -
  let ?R = "tb_refill_per_sec b" and ?l = "tb_last_refill_ns b" and ?n = "needed amount b"
  have N: "0 < int NANOS_PER_SEC" by (simp add: NANOS_PER_SEC_def)
  have e: "(int ?n - tb_tokens b) * int NANOS_PER_SEC \<le> int ?R * (int now - int ?l)"
    using enough by (simp add: balance_def algebra_simps)
  have whole: "int ?n - tb_tokens b \<le> int ((now - ?l) * ?R div NANOS_PER_SEC)" if "?l < now"
  proof -
    have "int ((now - ?l) * ?R) = int ?R * (int now - int ?l)" using that by (simp add: of_nat_diff)
    then have "(int ?n - tb_tokens b) * int NANOS_PER_SEC \<le> int ((now - ?l) * ?R)" using e by metis
    then have "int ?n - tb_tokens b \<le> int ((now - ?l) * ?R) div int NANOS_PER_SEC"
      using N by (metis zdiv_mono1 nonzero_mult_div_cancel_right less_irrefl)
    then show ?thesis by (simp only: of_nat_div)
  qed
  have old: "int ?n \<le> tb_tokens b" if "now \<le> ?l \<or> ?R = 0"
  proof -
    have "int ?R * (int now - int ?l) \<le> 0" using that by (auto simp: mult_nonneg_nonpos)
    then have "(int ?n - tb_tokens b) * int NANOS_PER_SEC \<le> 0" using e by linarith
    then show ?thesis using N by (simp add: mult_le_0_iff)
  qed
  from wf now show ?thesis
  proof (cases rule: refill_cases)
    case idle
    then show ?thesis using old whole by (cases "now \<le> ?l \<or> ?R = 0") simp_all
  next
    case (full a)
    then show ?thesis by (simp add: needed_def)
  next
    case (part a e)
    then show ?thesis using whole by simp
  qed
qed

lemma granted_in_enough:
  assumes "bucket_wf b" and "0 < tb_capacity b" and "tb_refill_per_sec b \<le> NANOS_PER_SEC"
    and "\<forall>t \<in> set ts. t < 2 ^ 64" and "t \<in> set ts"
    and "int (needed amount b) * int NANOS_PER_SEC \<le> balance b + int (tb_refill_per_sec b) * int t"
  shows "granted_in amount ts b"
  using assms
proof (induction ts arbitrary: b)
  case (Cons u ts)
  have u: "u < 2 ^ 64" using Cons.prems(4) by simp
  define b1 where "b1 = refill u b"
  note keep = refill_keeps [OF Cons.prems(1) u]
  show ?case
  proof (cases "can_consume amount b1")
    case True
    then show ?thesis by (simp add: consume_def b1_def)
  next
    case False
    have cap: "tb_capacity b1 = tb_capacity b" "needed amount b1 = needed amount b"
      using keep by (simp_all add: b1_def needed_def)
    then have less: "tb_tokens b1 < int (needed amount b)"
      using False Cons.prems(2) by (simp add: can_consume_needed)
    then have "u \<noteq> t"
      using refill_enough [OF Cons.prems(1) u, of amount] Cons.prems(6) by (auto simp: b1_def)
    moreover have "balance b \<le> balance b1"
      using refill_no_loss [OF Cons.prems(1) u Cons.prems(3)] less
      by (auto simp: b1_def needed_def simp del: of_nat_min)
    ultimately have "granted_in amount ts b1"
      using Cons.IH [of b1] Cons.prems keep cap by (simp add: b1_def)
    then show ?thesis using False by (simp add: consume_def b1_def)
  qed
qed simp

fun net_granted_in :: "u64 \<Rightarrow> u64 list \<Rightarrow> net_bucket \<Rightarrow> bool" where
  "net_granted_in n [] b = False"
| "net_granted_in n (t # ts) b = (case net_consume n t b of (ok, b') \<Rightarrow> ok \<or> net_granted_in n ts b')"

text \<open>Attempts that follow one another faster than tokens arrive.\<close>

fun hurried :: "u64 \<Rightarrow> u64 \<Rightarrow> u64 list \<Rightarrow> bool" where
  "hurried rate prev [] \<longleftrightarrow> True"
| "hurried rate prev (t # ts) \<longleftrightarrow> prev \<le> t \<and> (t - prev) * rate < 1000000000 \<and> hurried rate t ts"

text \<open>
  The plain bucket forgets the time a refill does not turn into a whole token: a client that
  retries often enough waits for ever.
\<close>

theorem net_bucket_starves:
  assumes "hurried (nb_refill_per_sec b) (nb_last_refill_ns b) ts" and "nb_tokens b < n"
    and "nb_tokens b \<le> nb_capacity b" and "nb_capacity b < 2 ^ 64"
  shows "\<not> net_granted_in n ts b"
  using assms
proof (induction ts arbitrary: b)
  case (Cons t ts)
  have r: "net_refill t b = b \<or> net_refill t b = b\<lparr>nb_last_refill_ns := t\<rparr>"
    using Cons.prems by (simp add: net_refill_def saturating_add_def Let_def)
  have "hurried (nb_refill_per_sec b) (nb_last_refill_ns (net_refill t b)) ts"
    using Cons.prems(1) by (cases ts) (auto simp: net_refill_def Let_def split: if_splits)
  then show ?case
    using Cons.IH [of "net_refill t b"] Cons.prems r by (auto simp: net_consume_def Let_def)
qed simp

theorem net_bucket_starves_witness:
  "hurried 100 0 [9000000, 18000000, 27000000] \<and>
   \<not> net_granted_in 1 [9000000, 18000000, 27000000] ((net_bucket_new 100 100)\<lparr>nb_tokens := 0\<rparr>)"
  using net_bucket_starves [of "(net_bucket_new 100 100)\<lparr>nb_tokens := 0\<rparr>" "[9000000, 18000000, 27000000]" 1]
  by (simp add: net_bucket_new_def)

section \<open>Properties\<close>

text \<open>
  C18: The limiter keeps its promise. However requests are issued, over any stretch of a
  monotonic clock the operations and the bytes it lets through are at most one bucket, or the
  largest request where that is more, plus the configured rate times the time elapsed, plus a
  rounding of less than one second's rate, in billionths of a token, for each request; the
  rounding is nothing at rates that divide a billion.
\<close>

theorem limiter_keeps_rate:
  assumes "ops_per_sec < 2 ^ 64" and "bytes_per_sec < 2 ^ 64" and "mono clock" and "\<forall>i. clock i < 2 ^ 64"
    and "\<forall>c \<in> set cs. fst c \<le> mo \<and> snd c \<le> mb" and "mo < 2 ^ 64" and "mb < 2 ^ 64"
    and "charge_all cs (limiter_new_with_clock ops_per_sec bytes_per_sec clock) = ((go, gb), rl)"
  shows "go * NANOS_PER_SEC \<le> max ops_per_sec mo * NANOS_PER_SEC +
      ops_per_sec * (clock (length cs) - clock 0) + length cs * rounding ops_per_sec \<and>
    gb * NANOS_PER_SEC \<le> max bytes_per_sec mb * NANOS_PER_SEC +
      bytes_per_sec * (clock (length cs) - clock 0) + length cs * rounding bytes_per_sec"
proof -
  let ?rl = "limiter_new_with_clock ops_per_sec bytes_per_sec clock"
  have a: "accounted ops_per_sec (clock 0) mo 0 (clock 0) 0 (rl_ops ?rl)"
    "accounted bytes_per_sec (clock 0) mb 0 (clock 0) 0 (rl_bytes ?rl)"
    using assms(1,2,4) by (simp_all add: limiter_new_with_clock_def Let_def accounted_new)
  have cl: "clock 0 \<le> rl_clock ?rl 0" "mono (rl_clock ?rl)" "\<forall>i. rl_clock ?rl i < 2 ^ 64"
    using assms(3,4) by (simp_all add: limiter_new_with_clock_def Let_def mono_def)
  obtain now where now: "cs = [] \<longrightarrow> now = clock 0" "cs \<noteq> [] \<longrightarrow> now = rl_clock ?rl (length cs - 1)"
    "accounted ops_per_sec (clock 0) mo (0 + length cs) now (go + 0) (rl_ops rl)"
    "accounted bytes_per_sec (clock 0) mb (0 + length cs) now (gb + 0) (rl_bytes rl)"
    using charge_all_accounted [OF a assms(6,7,5) cl assms(8)] by blast
  have "now = clock (length cs)"
    using now(1,2) by (cases cs) (simp_all add: limiter_new_with_clock_def Let_def)
  then show ?thesis using accounted_bound [OF now(3)] accounted_bound [OF now(4)] by simp
qed

text \<open>Three requests in half a second against two operations and 1,000 bytes a second.\<close>

theorem limiter_keeps_rate_witness:
  "fst (charge_all [(1, 800), (1, 800), (1, 100)]
     (limiter_new_with_clock 2 1000 (\<lambda>i. min i 3 * 250000000))) = (2, 900) \<and>
   900 * NANOS_PER_SEC \<le> 1000 * NANOS_PER_SEC + 1000 * 750000000"
proof -
  let ?cs = "[(1, 800), (1, 800), (1, 100)] :: (u64 \<times> u64) list" and ?clock = "\<lambda>i :: nat. min i 3 * 250000000"
  obtain rl where rl: "charge_all ?cs (limiter_new_with_clock 2 1000 ?clock) = ((2, 900), rl)"
    by (simp add: limiter_new_with_clock_def try_charge_def try_charge_at_def bucket_new_at_def refill_def
        can_consume_def consume_without_refill_def saturate_i128_def i128_max_def i128_min_def NANOS_PER_SEC_def
        saturating_add_def Let_def)
  have "mono ?clock" by (rule monoI) simp
  then show ?thesis
    using limiter_keeps_rate [of 2 1000 ?clock ?cs 1 800, OF _ _ _ _ _ _ _ rl] rl
    by (simp add: rounding_def NANOS_PER_SEC_def)
qed

text \<open>
  C19: No starvation. A request the bucket refuses now is granted by the time the rate pays
  for it, however often and whenever it is retried in between, at every rate up to a token a
  nanosecond.
\<close>

theorem retried_request_granted:
  assumes "bucket_wf b" and "0 < tb_capacity b" and "tb_refill_per_sec b \<le> NANOS_PER_SEC"
    and "\<forall>t \<in> set ts. t < 2 ^ 64" and "t \<in> set ts"
    and "int (needed amount b) * int NANOS_PER_SEC \<le>
      tb_tokens b * int NANOS_PER_SEC + int (tb_refill_per_sec b) * (int t - int (tb_last_refill_ns b))"
  shows "granted_in amount ts b"
  by (rule granted_in_enough [OF assms(1-5)]) (use assms(6) in \<open>simp add: balance_def algebra_simps\<close>)

text \<open>A bucket of 100 tokens a second, emptied at 0 and retried every 9 milliseconds.\<close>

theorem retried_request_granted_witness:
  "granted_in 1 [9000000, 18000000] ((bucket_new 100 100)\<lparr>tb_tokens := 0\<rparr>)"
  by (rule retried_request_granted [of _ _ 18000000])
    (simp_all add: bucket_new_def bucket_new_at_def bucket_wf_def needed_def NANOS_PER_SEC_def)

end
