(* ===== verification/Bus.thy ===== *)
theory Bus
  imports Stdlib
begin

text \<open>
  The MMIO bus (\<open>vmm-devices/src/bus.rs\<close>) and its construction from the list of devices
  (\<open>vmm-core/src/kvm.rs\<close>). A device is a value of any type; its two entry points, the
  \<open>MmioDevice\<close> trait, are a record of functions that return the new device, since devices
  change behind shared references. Range ends are computed with plain addition, which wraps in
  a release build.
\<close>

section \<open>The bus\<close>

datatype bus_error = Overlap u64 u64 | BusUnmapped u64

datatype mmio_error = Unmapped u64 | Device

record mmio_range =
  mr_base :: u64
  mr_size :: u64

definition mr_end :: "mmio_range \<Rightarrow> u64" where
  "mr_end r = wrapping_add 64 (mr_base r) (mr_size r)"

definition mr_contains :: "mmio_range \<Rightarrow> u64 \<Rightarrow> bool" where
  "mr_contains r addr \<longleftrightarrow> mr_base r \<le> addr \<and> addr < mr_end r"

record 'd mmio_ops =
  op_read :: "u64 \<Rightarrow> nat \<Rightarrow> 'd \<Rightarrow> (mmio_error + u64) \<times> 'd"
  op_write :: "u64 \<Rightarrow> u64 \<Rightarrow> nat \<Rightarrow> 'd \<Rightarrow> (mmio_error + unit) \<times> 'd"

type_synonym 'd bus = "(u64, mmio_range \<times> 'd) btree"

definition ranges_overlap :: "mmio_range \<Rightarrow> mmio_range \<Rightarrow> bool" where
  "ranges_overlap rg r \<longleftrightarrow> mr_base rg < mr_end r \<and> mr_base r < mr_end rg"

definition bus_insert :: "mmio_range \<Rightarrow> 'd \<Rightarrow> 'd bus \<Rightarrow> bus_error + 'd bus" where
  "bus_insert rg dev bus =
     (if list_ex (\<lambda>(_, r, _). ranges_overlap rg r) bus
      then Err (Overlap (mr_base rg) (mr_end rg))
      else Ok (bt_insert (mr_base rg) (rg, dev) bus))"

definition device_at :: "u64 \<Rightarrow> 'd bus \<Rightarrow> (mmio_range \<times> 'd) option" where
  "device_at addr bus =
     (case bt_last_le addr bus of
        None \<Rightarrow> None
      | Some (_, r, d) \<Rightarrow> if mr_contains r addr then Some (r, d) else None)"

text \<open>The device an access reaches takes its place again with its new state.\<close>

definition bus_read :: "'d mmio_ops \<Rightarrow> u64 \<Rightarrow> nat \<Rightarrow> 'd bus \<Rightarrow> (mmio_error + u64) \<times> 'd bus" where
  "bus_read D addr len bus =
     (case device_at addr bus of
        None \<Rightarrow> (Err (Unmapped addr), bus)
      | Some (rg, dev) \<Rightarrow>
          (case op_read D (addr - mr_base rg) len dev of
             (res, dev') \<Rightarrow> (res, bt_insert (mr_base rg) (rg, dev') bus)))"

definition bus_write :: "'d mmio_ops \<Rightarrow> u64 \<Rightarrow> u64 \<Rightarrow> nat \<Rightarrow> 'd bus \<Rightarrow> (mmio_error + unit) \<times> 'd bus" where
  "bus_write D addr val len bus =
     (case device_at addr bus of
        None \<Rightarrow> (Err (Unmapped addr), bus)
      | Some (rg, dev) \<Rightarrow>
          (case op_write D (addr - mr_base rg) val len dev of
             (res, dev') \<Rightarrow> (res, bt_insert (mr_base rg) (rg, dev') bus)))"

text \<open>The bus of a virtual machine: its devices in order, up to the first that does not fit.\<close>

primrec bus_build :: "(mmio_range \<times> 'd) list \<Rightarrow> 'd bus \<Rightarrow> bus_error + 'd bus" where
  "bus_build [] bus = Ok bus"
| "bus_build (d # ds) bus = bindR (bus_insert (fst d) (snd d) bus) (bus_build ds)"

section \<open>Registered devices\<close>

text \<open>A range as devices use it: not empty and inside the address space.\<close>

definition range_ok :: "mmio_range \<Rightarrow> bool" where
  "range_ok r \<longleftrightarrow> 0 < mr_size r \<and> mr_base r + mr_size r < 2 ^ 64"

lemma range_ok_end: "range_ok r \<Longrightarrow> mr_end r = mr_base r + mr_size r \<and> mr_base r < mr_end r"
  by (simp add: range_ok_def mr_end_def wrapping_add_def)

lemma overlap_sym: "ranges_overlap r s = ranges_overlap s r"
  by (auto simp: ranges_overlap_def)

lemma overlap_common: "mr_contains r a \<Longrightarrow> mr_contains s a \<Longrightarrow> ranges_overlap r s"
  by (auto simp: mr_contains_def ranges_overlap_def)

text \<open>The bus holds exactly the registered devices, by base address, and no two overlap.\<close>

definition holds :: "(mmio_range \<times> 'd) list \<Rightarrow> 'd bus \<Rightarrow> bool" where
  "holds ds bus \<longleftrightarrow> bt_inv bus \<and> set bus = (\<lambda>(r, d). (mr_base r, r, d)) ` set ds \<and>
     (\<forall>(r, d) \<in> set ds. range_ok r) \<and> sorted_wrt (\<lambda>x y. \<not> ranges_overlap (fst x) (fst y)) ds"

lemma holds_empty: "holds [] []"
  by (simp add: holds_def bt_inv_def)

lemma holds_insert:
  assumes "holds ds bus" and "range_ok r"
  shows "bus_insert r d bus =
    (if \<exists>x \<in> set ds. ranges_overlap r (fst x) then Err (Overlap (mr_base r) (mr_end r))
     else Ok (bt_insert (mr_base r) (r, d) bus))"
proof -
  have "list_ex (\<lambda>(_, s, _). ranges_overlap r s) bus \<longleftrightarrow> (\<exists>x \<in> set ds. ranges_overlap r (fst x))"
    using assms(1) by (force simp: holds_def list_ex_iff)
  then show ?thesis by (simp add: bus_insert_def)
qed

lemma bt_insert_set:
  assumes "bt_inv m" and "k \<notin> fst ` set m"
  shows "set (bt_insert k v m) = insert (k, v) (set m)"
  using assms by (induction k v m rule: bt_insert.induct) (auto simp: bt_inv_Cons)

lemma holds_extend:
  assumes h: "holds ds bus" and "range_ok r" and no: "\<not> (\<exists>x \<in> set ds. ranges_overlap r (fst x))"
  shows "holds (ds @ [(r, d)]) (bt_insert (mr_base r) (r, d) bus)"
proof -
  have "mr_base s \<noteq> mr_base r" if "(s, e) \<in> set ds" for s e
  proof
    assume eq: "mr_base s = mr_base r"
    have "range_ok s" using h that by (auto simp: holds_def)
    then have "ranges_overlap r s"
      using range_ok_end [of s] range_ok_end [OF assms(2)] eq by (simp add: ranges_overlap_def)
    then show False using no that by force
  qed
  then have "mr_base r \<notin> fst ` set bus" using h by (force simp: holds_def)
  then show ?thesis
    using h assms(2) no
    by (auto simp: holds_def bt_inv_insert bt_insert_set sorted_wrt_append overlap_sym)
qed

text \<open>Dispatch finds the device whose range holds the address.\<close>

lemma find_unique:
  assumes "x \<in> set xs" and "P x" and "\<And>y. y \<in> set xs \<Longrightarrow> P y \<Longrightarrow> y = x"
  shows "find P xs = Some x"
  using assms
proof (induction xs)
  case (Cons y xs)
  show ?case
  proof (cases "P y")
    case True
    have "y = x" by (rule Cons.prems(3)) (simp_all add: True)
    then show ?thesis using True by simp
  next
    case False
    then have "x \<in> set xs" using Cons.prems(1,2) by auto
    then have "find P xs = Some x" by (rule Cons.IH [OF _ Cons.prems(2) Cons.prems(3)]) simp_all
    then show ?thesis using False by simp
  qed
qed simp

lemma sorted_wrt_pair:
  assumes "sorted_wrt R xs" and "x \<in> set xs" and "y \<in> set xs"
  shows "x = y \<or> R x y \<or> R y x"
  using assms by (induction xs) auto

lemma holds_only:
  assumes h: "holds ds bus" and "x \<in> set ds" and "y \<in> set ds"
    and "mr_contains (fst x) a" and "mr_contains (fst y) a"
  shows "y = x"
proof -
  have "sorted_wrt (\<lambda>x y. \<not> ranges_overlap (fst x) (fst y)) ds" using h by (simp add: holds_def)
  from sorted_wrt_pair [OF this assms(2,3)] show ?thesis
    using overlap_common [OF assms(4,5)] overlap_sym by auto
qed

lemma device_at_find:
  assumes h: "holds ds bus"
  shows "device_at addr bus = find (\<lambda>x. mr_contains (fst x) addr) ds"
proof (cases "\<exists>x \<in> set ds. mr_contains (fst x) addr")
  case False
  then have "find (\<lambda>x. mr_contains (fst x) addr) ds = None" by (auto simp: find_None_iff)
  moreover have "device_at addr bus = None"
  proof (cases "bt_last_le addr bus")
    case (Some e)
    obtain k r d where e: "e = (k, r, d)" by (metis prod_cases3)
    have "map_of bus k = Some (r, d)" using bt_last_le_Some [of bus addr k "(r, d)"] Some h e by (simp add: holds_def)
    then have "(k, r, d) \<in> set bus" by (rule map_of_SomeD)
    then have "(r, d) \<in> set ds" using h by (auto simp: holds_def)
    then show ?thesis using False Some e by (force simp: device_at_def)
  qed (simp add: device_at_def)
  ultimately show ?thesis by simp
next
  case True
  then obtain r d where x: "(r, d) \<in> set ds" "mr_contains r addr" by auto
  have inv: "bt_inv bus" using h by (simp add: holds_def)
  have xb: "(mr_base r, r, d) \<in> set bus" using h x(1) by (force simp: holds_def)
  have "bt_last_le addr bus \<noteq> None"
    using bt_last_le_None [OF _ xb, of addr] x(2) unfolding mr_contains_def by (metis leD)
  then obtain k s e where l: "bt_last_le addr bus = Some (k, s, e)" by (metis not_None_eq prod_cases3)
  note m = bt_last_le_Some [OF inv l]
  have se: "(k, s, e) \<in> set bus" using m map_of_SomeD by fastforce
  then have s: "k = mr_base s" "(s, e) \<in> set ds" using h by (auto simp: holds_def)
  have "map_of bus (mr_base r) = Some (r, d)" using xb inv bt.entries_iff by fastforce
  then have le: "mr_base r \<le> mr_base s" using m x(2) s(1) by (auto simp: mr_contains_def)
  have ok: "range_ok s" "range_ok r" using h s(2) x(1) by (auto simp: holds_def)
  have "ranges_overlap r s"
    using le conjunct1 [OF conjunct2 [OF m]] x(2) s(1) range_ok_end [OF ok(1)]
    unfolding ranges_overlap_def mr_contains_def by linarith
  moreover have "sorted_wrt (\<lambda>x y. \<not> ranges_overlap (fst x) (fst y)) ds" using h by (simp add: holds_def)
  ultimately have "(s, e) = (r, d)"
    using sorted_wrt_pair [OF _ s(2) x(1)] overlap_sym by fastforce
  then have "device_at addr bus = Some (r, d)" using l x(2) by (simp add: device_at_def)
  moreover have "find (\<lambda>x. mr_contains (fst x) addr) ds = Some (r, d)"
  proof (rule find_unique)
    show "y = (r, d)" if "y \<in> set ds" "mr_contains (fst y) addr" for y
      by (rule holds_only [OF h x(1) that(1) _ that(2)]) (simp add: x(2))
  qed (simp_all add: x)
  ultimately show ?thesis by simp
qed

text \<open>A device that changes state keeps its place.\<close>

lemma bt_insert_replace:
  assumes "bt_inv m" and "k \<in> fst ` set m"
  shows "bt_insert k v m = map (\<lambda>e. if fst e = k then (k, v) else e) m"
  using assms
proof (induction m)
  case (Cons x m)
  obtain k' v' where x: "x = (k', v')" by fastforce
  show ?case
  proof (cases "k = k'")
    case True
    have "map (\<lambda>e. if fst e = k then (k, v) else e) m = m"
      using Cons.prems(1) True x by (intro map_idI) (auto simp: bt_inv_Cons)
    then show ?thesis using True x by simp
  next
    case False
    then have "k \<in> fst ` set m" using Cons.prems(2) x by auto
    moreover from this have "k' < k" using Cons.prems(1) x by (auto simp: bt_inv_Cons)
    ultimately show ?thesis using Cons.IH Cons.prems(1) x by (auto simp: bt_inv_Cons)
  qed
qed simp

lemma bt_last_le_replace:
  assumes "bt_inv m" and "k \<in> fst ` set m"
  shows "bt_last_le a (bt_insert k v m) = map_option (\<lambda>e. if fst e = k then (k, v) else e) (bt_last_le a m)"
proof -
  let ?f = "\<lambda>e. if fst e = k then (k, v) else e"
  have "filter (\<lambda>(k, v). k \<le> a) (map ?f m) = map ?f (filter (\<lambda>(k, v). k \<le> a) m)"
    by (induction m) auto
  then show ?thesis
    unfolding bt_insert_replace [OF assms] by (simp add: bt_last_le_def Let_def last_map)
qed

lemma device_at_replace:
  assumes h: "holds ds bus" and x: "(r, d) \<in> set ds"
  shows "device_at a (bt_insert (mr_base r) (r, d') bus) =
    (if mr_contains r a then Some (r, d') else device_at a bus)"
proof -
  have inv: "bt_inv bus" and xb: "(mr_base r, r, d) \<in> set bus" using h x by (force simp: holds_def)+
  then have k: "mr_base r \<in> fst ` set bus" by force
  have m: "map_of bus (mr_base r) = Some (r, d)" using xb inv bt.entries_iff by fastforce
  have at: "device_at a bus = Some (r, d)" if "mr_contains r a"
    unfolding device_at_find [OF h]
  proof (rule find_unique)
    show "y = (r, d)" if "y \<in> set ds" "mr_contains (fst y) a" for y
      by (rule holds_only [OF h x that(1) _ that(2)]) (simp add: \<open>mr_contains r a\<close>)
  qed (simp_all add: x that)
  show ?thesis
  proof (cases "bt_last_le a bus")
    case None
    then show ?thesis using at bt_last_le_replace [OF inv k] by (auto simp: device_at_def)
  next
    case (Some e)
    obtain k' s d0 where e: "e = (k', s, d0)" by (metis prod_cases3)
    have "map_of bus k' = Some (s, d0)" using bt_last_le_Some [OF inv, of a k' "(s, d0)"] Some e by simp
    then have "k' = mr_base s" "k' = mr_base r \<Longrightarrow> s = r" using m h map_of_SomeD by (fastforce simp: holds_def)+
    then show ?thesis
      using Some e at bt_last_le_replace [OF inv k, of a "(r, d')"] by (auto simp: device_at_def split: if_splits)
  qed
qed

text \<open>Building registers the devices in order, up to the first that overlaps an earlier one.\<close>

definition first_clash :: "(mmio_range \<times> 'd) list \<Rightarrow> nat \<Rightarrow> bool" where
  "first_clash ds i \<longleftrightarrow> i < length ds \<and>
     sorted_wrt (\<lambda>x y. \<not> ranges_overlap (fst x) (fst y)) (take i ds) \<and>
     (\<exists>x \<in> set (take i ds). ranges_overlap (fst (ds ! i)) (fst x))"

lemma bus_build_holds:
  assumes "holds ds0 bus" and "\<forall>x \<in> set ds. range_ok (fst x)"
  shows "case bus_build ds bus of
      Inl e \<Rightarrow> \<exists>i. first_clash (ds0 @ ds) i \<and>
        e = Overlap (mr_base (fst ((ds0 @ ds) ! i))) (mr_end (fst ((ds0 @ ds) ! i)))
    | Inr bus' \<Rightarrow> holds (ds0 @ ds) bus'"
  using assms
proof (induction ds arbitrary: ds0 bus)
  case (Cons x ds)
  obtain r d where x: "x = (r, d)" by fastforce
  have ok: "range_ok r" using Cons.prems(2) x by simp
  show ?case
  proof (cases "\<exists>y \<in> set ds0. ranges_overlap r (fst y)")
    case True
    then have "first_clash (ds0 @ x # ds) (length ds0)"
      using Cons.prems(1) by (simp add: first_clash_def holds_def x)
    then show ?thesis using True holds_insert [OF Cons.prems(1) ok] by (auto simp: x intro!: exI [of _ "length ds0"])
  next
    case False
    then have "bus_build (x # ds) bus = bus_build ds (bt_insert (mr_base r) (r, d) bus)"
      using holds_insert [OF Cons.prems(1) ok, of d] by (simp add: x)
    moreover have "ds0 @ x # ds = (ds0 @ [(r, d)]) @ ds" by (simp add: x)
    ultimately show ?thesis
      using Cons.IH [OF holds_extend [OF Cons.prems(1) ok False, of d]] Cons.prems(2)
      by (simp only: list.set) simp
  qed
qed simp

text \<open>
  An empty range overlaps nothing, so a device registered with one at the base of another
  takes its place.
\<close>

theorem empty_range_replaces:
  "b < 2 ^ 64 \<Longrightarrow>
   bus_insert \<lparr>mr_base = b, mr_size = 0\<rparr> e [(b, \<lparr>mr_base = b, mr_size = n\<rparr>, d)] =
     Ok [(b, \<lparr>mr_base = b, mr_size = 0\<rparr>, e)]"
  by (simp add: bus_insert_def ranges_overlap_def mr_end_def wrapping_add_def)

section \<open>Properties\<close>

text \<open>
  C20: The bus is built exactly when no two devices overlap, and otherwise names the first
  device that overlaps an earlier one. On a bus that was built, an access reaches the one
  device whose range holds its address, at the offset from the base of the range; an address
  in no range is reported unmapped and changes nothing; and an access leaves every other
  device as it was.
\<close>

theorem bus_dispatches:
  assumes "\<forall>x \<in> set ds. range_ok (fst x)"
  shows "case bus_build ds [] of
      Inl e \<Rightarrow> \<exists>i. first_clash ds i \<and> e = Overlap (mr_base (fst (ds ! i))) (mr_end (fst (ds ! i)))
    | Inr bus \<Rightarrow> sorted_wrt (\<lambda>x y. \<not> ranges_overlap (fst x) (fst y)) ds \<and>
        (case find (\<lambda>x. mr_contains (fst x) addr) ds of
           None \<Rightarrow> bus_write D addr val len bus = (Err (Unmapped addr), bus)
         | Some (r, d) \<Rightarrow>
             fst (bus_write D addr val len bus) = fst (op_write D (addr - mr_base r) val len d) \<and>
             (\<forall>a. device_at a (snd (bus_write D addr val len bus)) =
                (if mr_contains r a then Some (r, snd (op_write D (addr - mr_base r) val len d))
                 else device_at a bus)))"
proof (cases "bus_build ds []")
  case (Inl e)
  then show ?thesis using bus_build_holds [OF holds_empty assms] by simp
next
  case (Inr bus)
  then have h: "holds ds bus" using bus_build_holds [OF holds_empty assms] by simp
  note at = device_at_find [OF h, of addr]
  show ?thesis
  proof (cases "find (\<lambda>x. mr_contains (fst x) addr) ds")
    case None
    then show ?thesis using Inr at h by (simp add: bus_write_def holds_def)
  next
    case (Some x)
    obtain r d where x: "x = (r, d)" by fastforce
    then have "(r, d) \<in> set ds" using Some by (metis find_Some_iff nth_mem)
    then show ?thesis
      using Inr Some at h x device_at_replace [OF h]
      by (simp add: bus_write_def holds_def case_prod_beta)
  qed
qed

text \<open>Two devices next to each other, and a write to the second.\<close>

definition ex_devices :: "(mmio_range \<times> nat) list" where
  "ex_devices = [(\<lparr>mr_base = 0xd0001000, mr_size = 0x1000\<rparr>, 7), (\<lparr>mr_base = 0xd0000000, mr_size = 0x1000\<rparr>, 5)]"

definition ex_ops :: "nat mmio_ops" where
  "ex_ops = \<lparr>op_read = (\<lambda>off len d. (Ok d, d)), op_write = (\<lambda>off val len d. (Ok (), off + val))\<rparr>"

definition ex_bus :: "nat bus" where
  "ex_bus = [(0xd0000000, \<lparr>mr_base = 0xd0000000, mr_size = 0x1000\<rparr>, 5),
     (0xd0001000, \<lparr>mr_base = 0xd0001000, mr_size = 0x1000\<rparr>, 7)]"

theorem bus_dispatches_witness:
  "bus_build ex_devices [] = Ok ex_bus \<and>
   device_at 0xd0000ffc (snd (bus_write ex_ops 0xd0000010 3 4 ex_bus)) =
     Some (\<lparr>mr_base = 0xd0000000, mr_size = 0x1000\<rparr>, 0x13)"
proof -
  have b: "bus_build ex_devices [] = Ok ex_bus"
    by (simp add: ex_devices_def ex_bus_def bus_insert_def ranges_overlap_def mr_end_def wrapping_add_def)
  have "\<forall>x \<in> set ex_devices. range_ok (fst x)" by (simp add: ex_devices_def range_ok_def)
  from bus_dispatches [OF this, where addr = "0xd0000010" and D = ex_ops and val = 3 and len = 4] show ?thesis
    by (simp add: b, simp add: ex_devices_def mr_contains_def mr_end_def wrapping_add_def ex_ops_def)
qed

end
