(* ===== verification/BlkDevice.thy ===== *)
theory BlkDevice
  imports Balloon Blk RateLimit Bus
begin

text \<open>
  The virtio-blk device (\<open>vmm-devices/src/virtio/blk_transport.rs\<close>): the registers, the
  queue pass that serves requests of the guest on the backend under the rate limiter, reset,
  failure, and saving and restoring. Guest memory and the dirty bitmap are shared with the rest
  of the machine, so they are passed to the operations that use them; the record says whether
  they are attached. The registers, the queue configuration and its two guarded setters are
  those of \<open>Balloon\<close>, whose source is the same line by line.

  Each lock of the device may be poisoned, by a thread that panicked holding it; \<open>bd_poisoned\<close>
  is the set of those. A call that panics, and one that never returns, is \<open>None\<close>.
\<close>

section \<open>Host addresses of guest memory\<close>

text \<open>
  What the device uses of \<open>vm-memory\<close> besides \<open>ram_ops\<close>: the host buffers behind a guest
  range, the bytes at host addresses, and memory after its host bytes changed.
\<close>

record 'm slice_ops =
  get_slices :: "'m \<Rightarrow> u64 \<Rightarrow> usize \<Rightarrow> iovec list option"
  host_addr :: "'m \<Rightarrow> u64 \<Rightarrow> nat option"
  host_bytes :: "'m \<Rightarrow> host_mem"
  put_bytes :: "host_mem \<Rightarrow> 'm \<Rightarrow> 'm"

section \<open>The device\<close>

definition VIRTIO_BLK_F_SIZE_MAX :: u32 where "VIRTIO_BLK_F_SIZE_MAX = 2 ^ 1"
definition VIRTIO_BLK_F_RO :: u32 where "VIRTIO_BLK_F_RO = 2 ^ 5"
definition VIRTIO_RING_F_EVENT_IDX :: u32 where "VIRTIO_RING_F_EVENT_IDX = 2 ^ 29"

definition BLK_FEATURES_LOW :: u32 where
  "BLK_FEATURES_LOW = 2 ^ 9 OR VIRTIO_BLK_F_SIZE_MAX OR VIRTIO_RING_F_EVENT_IDX"

definition BLK_FEATURES_HIGH :: u32 where "BLK_FEATURES_HIGH = 1"
definition VIRTIO_MMIO_INT_VRING :: u32 where "VIRTIO_MMIO_INT_VRING = 1"
definition BLK_DRIVER_OK :: u32 where "BLK_DRIVER_OK = 2 ^ 2"
definition DEVICE_NEEDS_RESET :: u32 where "DEVICE_NEEDS_RESET = 2 ^ 6"
definition FAILED :: u32 where "FAILED = 2 ^ 7"

datatype blk_lock = L_queues | L_backend | L_guest_mem | L_host_dirty | L_processor | L_rate_limiter | L_irq_evt

record blk_dev =
  bd_irq :: u32
  bd_device_id :: u32
  bd_vendor_id :: u32
  bd_version :: u32
  bd_status :: u32
  bd_queue_sel :: u32
  bd_host_features_sel :: u32
  bd_guest_features_sel :: u32
  bd_guest_features_low :: u32
  bd_guest_features_high :: u32
  bd_queues :: "queue_state list"
  bd_backend :: "backend option"
  bd_guest_mem :: bool
  bd_host_dirty :: bool
  bd_activated :: bool
  bd_processor :: "vq option"
  bd_rate_limiter :: "rate_limiter option"
  bd_interrupt_status :: u32
  bd_irq_evt :: "nat option"
  bd_notify_count :: u64
  bd_status_writes :: u64
  bd_poisoned :: "blk_lock set"

record blk_state =
  ks_status :: u32
  ks_queue_sel :: u32
  ks_host_features_sel :: u32
  ks_guest_features_sel :: u32
  ks_guest_features_low :: u32
  ks_guest_features_high :: u32
  ks_queues :: "queue_state list"
  ks_activated :: bool
  ks_interrupt_status :: u32
  ks_processor :: "vq_state option"

datatype persist_error = PersistUnavailable string

definition blk_new_stub :: "u32 \<Rightarrow> u32 \<Rightarrow> blk_dev" where
  "blk_new_stub irq device_id =
     \<lparr>bd_irq = irq, bd_device_id = device_id, bd_vendor_id = 0, bd_version = 2, bd_status = 0, bd_queue_sel = 0,
      bd_host_features_sel = 0, bd_guest_features_sel = 0, bd_guest_features_low = 0, bd_guest_features_high = 0,
      bd_queues = [queue_state_default], bd_backend = None, bd_guest_mem = False, bd_host_dirty = False,
      bd_activated = False, bd_processor = None, bd_rate_limiter = None, bd_interrupt_status = 0,
      bd_irq_evt = None, bd_notify_count = 0, bd_status_writes = 0, bd_poisoned = {}\<rparr>"

definition blk_new :: "u32 \<Rightarrow> backend \<Rightarrow> blk_dev" where
  "blk_new irq be =
     \<lparr>bd_irq = irq, bd_device_id = 2, bd_vendor_id = 0, bd_version = 2, bd_status = 0, bd_queue_sel = 0,
      bd_host_features_sel = 0, bd_guest_features_sel = 0, bd_guest_features_low = 0, bd_guest_features_high = 0,
      bd_queues = [queue_state_default], bd_backend = Some be, bd_guest_mem = False, bd_host_dirty = False,
      bd_activated = False, bd_processor = None, bd_rate_limiter = None, bd_interrupt_status = 0,
      bd_irq_evt = None, bd_notify_count = 0, bd_status_writes = 0, bd_poisoned = {}\<rparr>"

definition fail_device :: "blk_dev \<Rightarrow> blk_dev" where
  "fail_device d = d\<lparr>bd_status := bd_status d OR (DEVICE_NEEDS_RESET OR FAILED), bd_activated := False\<rparr>"

definition is_failed :: "blk_dev \<Rightarrow> bool" where
  "is_failed d \<longleftrightarrow> bd_status d AND (DEVICE_NEEDS_RESET OR FAILED) \<noteq> 0"

text \<open>A poisoned lock fails the device; \<open>lock_state\<close> then goes on with the state it guards.\<close>

definition lock_state :: "blk_lock \<Rightarrow> blk_dev \<Rightarrow> blk_dev" where
  "lock_state l d = (if l \<in> bd_poisoned d then fail_device d else d)"

definition blk_set_irq_evt :: "nat \<Rightarrow> blk_dev \<Rightarrow> blk_dev" where
  "blk_set_irq_evt evt d = (lock_state L_irq_evt d)\<lparr>bd_irq_evt := Some evt\<rparr>"

definition blk_set_guest_memory :: "blk_dev \<Rightarrow> blk_dev" where
  "blk_set_guest_memory d = (lock_state L_guest_mem d)\<lparr>bd_guest_mem := True\<rparr>"

definition blk_set_dirty_tracker :: "blk_dev \<Rightarrow> blk_dev" where
  "blk_set_dirty_tracker d = (lock_state L_host_dirty d)\<lparr>bd_host_dirty := True\<rparr>"

definition blk_set_rate_limiter :: "rate_limiter \<Rightarrow> blk_dev \<Rightarrow> blk_dev" where
  "blk_set_rate_limiter rl d = (lock_state L_rate_limiter d)\<lparr>bd_rate_limiter := Some rl\<rparr>"

definition blk_reassert_pending_interrupt :: "blk_dev \<Rightarrow> blk_dev" where
  "blk_reassert_pending_interrupt d =
     (if bd_interrupt_status d = 0 then d
      else if L_irq_evt \<in> bd_poisoned d then fail_device d
      else d\<lparr>bd_irq_evt := map_option Suc (bd_irq_evt d)\<rparr>)"

definition blk_trigger_interrupt :: "blk_dev \<Rightarrow> (mmio_error + unit) \<times> blk_dev" where
  "blk_trigger_interrupt d =
     (let d' = d\<lparr>bd_interrupt_status := bd_interrupt_status d OR VIRTIO_MMIO_INT_VRING\<rparr> in
      if L_irq_evt \<in> bd_poisoned d then (Err Device, fail_device d')
      else (Ok (), d'\<lparr>bd_irq_evt := map_option Suc (bd_irq_evt d')\<rparr>))"

definition rate_limit_allows :: "u64 \<Rightarrow> blk_dev \<Rightarrow> (mmio_error + bool) \<times> blk_dev" where
  "rate_limit_allows bytes d =
     (if L_rate_limiter \<in> bd_poisoned d then (Err Device, fail_device d)
      else case bd_rate_limiter d of
        None \<Rightarrow> (Ok True, d)
      | Some rl \<Rightarrow> (case try_charge 1 bytes rl of (ok, rl') \<Rightarrow> (Ok ok, d\<lparr>bd_rate_limiter := Some rl'\<rparr>)))"

section \<open>Descriptors\<close>

primrec total_len :: "buffer list \<Rightarrow> usize \<Rightarrow> usize option" where
  "total_len [] acc = Some acc"
| "total_len (b # bs) acc = Option.bind (checked_add 64 acc (snd b)) (total_len bs)"

primrec read_each :: "'m ram_ops \<Rightarrow> 'm \<Rightarrow> buffer list \<Rightarrow> byte list \<Rightarrow> byte list option" where
  "read_each G m [] data = Some data"
| "read_each G m (b # bs) data =
     (if snd b = 0 then read_each G m bs data
      else Option.bind (checked_add 64 (length data) (snd b)) (\<lambda>_.
           Option.bind (rd G m (fst b) (snd b)) (\<lambda>bytes. read_each G m bs (data @ bytes))))"

definition read_descs :: "'m ram_ops \<Rightarrow> 'm \<Rightarrow> buffer list \<Rightarrow> byte list option" where
  "read_descs G m descs = Option.bind (total_len descs 0) (\<lambda>_. read_each G m descs [])"

text \<open>Every writable descriptor but the last, which takes the status byte.\<close>

definition data_bufs :: "buffer list \<Rightarrow> buffer list" where
  "data_bufs writable = take (length writable - 1) writable"

definition writable_data_len :: "buffer list \<Rightarrow> usize option" where
  "writable_data_len writable = total_len (data_bufs writable) 0"

definition request_bytes :: "blk_header \<Rightarrow> usize \<Rightarrow> buffer list \<Rightarrow> u64 option" where
  "request_bytes h readable_len writable =
     (if bh_type h = T_IN then writable_data_len writable
      else if bh_type h = T_OUT then checked_sub readable_len 16
      else if bh_type h = T_GET_ID then Some 20
      else Some 0)"

text \<open>\<open>data\<close> is what is left to write.\<close>

primrec write_data :: "'m ram_ops \<Rightarrow> buffer list \<Rightarrow> byte list \<Rightarrow> 'm dmem \<Rightarrow> 'm dmem" where
  "write_data G [] data dm = dm"
| "write_data G (b # bs) data dm =
     (if data = [] then dm
      else
        let n = min (snd b) (length data) in
        if n = 0 then write_data G bs data dm
        else case write_mem G (take n data) (fst b) dm of
          (False, dm') \<Rightarrow> dm'
        | (True, dm') \<Rightarrow> write_data G bs (drop n data) dm')"

definition write_writable_data :: "'m ram_ops \<Rightarrow> buffer list \<Rightarrow> byte list \<Rightarrow> 'm dmem \<Rightarrow> 'm dmem" where
  "write_writable_data G writable data dm = write_data G (data_bufs writable) data dm"

definition write_status :: "'m ram_ops \<Rightarrow> buffer list \<Rightarrow> byte \<Rightarrow> 'm dmem \<Rightarrow> 'm dmem" where
  "write_status G writable st dm =
     (if writable = [] then dm
      else if 0 < snd (last writable) then snd (write_mem G [st] (fst (last writable)) dm) else dm)"

primrec guest_iov :: "'m slice_ops \<Rightarrow> 'm \<Rightarrow> buffer list \<Rightarrow> iovec list option" where
  "guest_iov S m [] = Some []"
| "guest_iov S m (b # bs) =
     Option.bind (get_slices S m (fst b) (snd b)) (\<lambda>iov. map_option ((@) iov) (guest_iov S m bs))"

definition mark_buffers :: "buffer list \<Rightarrow> dirty_bitmap \<Rightarrow> dirty_bitmap" where
  "mark_buffers bufs dirty = fold (\<lambda>b. mark_guest_range (fst b) (snd b)) bufs dirty"

datatype 'm read_into = NotPlain | ReadPanicked | ReadInto byte "'m dmem"

definition read_into_guest ::
  "'m slice_ops \<Rightarrow> (nat \<Rightarrow> nat) \<Rightarrow> backend \<Rightarrow> blk_header \<Rightarrow> buffer list \<Rightarrow> 'm dmem \<Rightarrow> 'm read_into" where
  "read_into_guest S pick be h writable dm =
     (case guest_iov S (dm_mem dm) (data_bufs writable) of
        None \<Rightarrow> NotPlain
      | Some iov \<Rightarrow>
          (case service_read_into pick h iov (host_bytes S (dm_mem dm)) be of
             PanickedInto \<Rightarrow> ReadPanicked
           | ServedInto st mem \<Rightarrow>
               ReadInto st (dm\<lparr>dm_mem := put_bytes S mem (dm_mem dm),
                               dm_dirty := map_option (mark_buffers (data_bufs writable)) (dm_dirty dm)\<rparr>)))"

section \<open>Requests\<close>

text \<open>Serve an admitted request; \<open>None\<close> is a panic of the backend.\<close>

definition serve_blk ::
  "'m ram_ops \<Rightarrow> 'm slice_ops \<Rightarrow> (nat \<Rightarrow> nat) \<Rightarrow> blk_header \<Rightarrow> byte list \<Rightarrow> buffer list \<Rightarrow> backend \<Rightarrow> 'm dmem \<Rightarrow>
   (byte \<times> backend \<times> 'm dmem) option" where
  "serve_blk G S pick h readable writable be dm =
     (if bh_type h = T_IN then
        (case writable_data_len writable of
           None \<Rightarrow> Some (S_IO_ERR, be, dm)
         | Some data_len \<Rightarrow>
             if data_len = 0 then Some (S_IO_ERR, be, dm)
             else case read_into_guest S pick be h writable dm of
               ReadPanicked \<Rightarrow> None
             | ReadInto st dm' \<Rightarrow> Some (st, be, dm')
             | NotPlain \<Rightarrow>
                 (case service h (replicate data_len 0) be of
                    Panicked \<Rightarrow> None
                  | Served st data be' \<Rightarrow> Some (st, be', write_writable_data G writable data dm)))
      else if bh_type h = T_OUT then
        (case service h (drop 16 readable) be of
           Panicked \<Rightarrow> None
         | Served st _ be' \<Rightarrow> Some (st, be', dm))
      else if bh_type h = T_FLUSH then
        (case service h [] be of
           Panicked \<Rightarrow> None
         | Served st _ be' \<Rightarrow> Some (st, be', dm))
      else if bh_type h = T_GET_ID then
        (case service h (replicate 20 0) be of
           Panicked \<Rightarrow> None
         | Served st data be' \<Rightarrow> Some (st, be', write_writable_data G writable data dm))
      else Some (S_UNSUPP, be, dm))"

text \<open>
  The closure given to the queue processor. Its state is the device and the flag
  \<open>processing_failed\<close>, \<open>None\<close> after a panic.
\<close>

type_synonym blk_run = "(blk_dev \<times> bool) option"

definition admit ::
  "u64 \<Rightarrow> blk_dev \<Rightarrow> bool \<Rightarrow> 'm dmem \<Rightarrow> (blk_dev \<Rightarrow> u32 option \<times> blk_run \<times> 'm dmem) \<Rightarrow> u32 option \<times> blk_run \<times> 'm dmem"
  where
  "admit bytes d failed dm k =
     (case rate_limit_allows bytes d of
        (Inl _, d') \<Rightarrow> (None, Some (d', True), dm)
      | (Inr ok, d') \<Rightarrow> if ok then k d' else (None, Some (d', failed), dm))"

definition blk_handler ::
  "'m ram_ops \<Rightarrow> 'm slice_ops \<Rightarrow> (nat \<Rightarrow> nat) \<Rightarrow> (blk_run, 'm) desc_handler" where
  "blk_handler G S pick s dm readable writable =
     (case s of
        None \<Rightarrow> (None, None, dm)
      | Some (d, failed) \<Rightarrow>
          let used_len = length readable + length writable;
              refuse = admit 0 d failed dm (\<lambda>d'. (Some used_len, Some (d', failed), write_status G writable S_IO_ERR dm))
          in case read_descs G (dm_mem dm) readable of
               None \<Rightarrow> refuse
             | Some data \<Rightarrow>
                 (case blk_header_from_bytes data of
                    None \<Rightarrow> refuse
                  | Some h \<Rightarrow>
                      (case request_bytes h (length data) writable of
                         None \<Rightarrow> refuse
                       | Some bytes \<Rightarrow>
                           admit bytes d failed dm (\<lambda>d'.
                             case Option.bind (bd_backend d') (\<lambda>be. serve_blk G S pick h data writable be dm) of
                               None \<Rightarrow> (None, None, dm)
                             | Some (st, be, dm') \<Rightarrow>
                                 (Some used_len, Some (d'\<lparr>bd_backend := Some be\<rparr>, failed),
                                  write_status G writable st dm')))))"

section \<open>Queue passes\<close>

definition blk_queue_config :: "queue_state \<Rightarrow> queue_config" where
  "blk_queue_config q =
     \<lparr>q_size = qs_size q, q_desc = qs_desc q, q_avail = qs_avail q, q_used = qs_used q, q_ready = qs_ready q\<rparr>"

text \<open>The processor a pass runs with, and the memory it sees.\<close>

definition blk_pass_processor :: "queue_config \<Rightarrow> blk_dev \<Rightarrow> vq" where
  "blk_pass_processor config d =
     set_event_idx (bd_guest_features_low d AND VIRTIO_RING_F_EVENT_IDX \<noteq> 0)
       (case bd_processor d of None \<Rightarrow> vq_new config | Some q \<Rightarrow> update_config config q)"

definition blk_pass_memory :: "blk_dev \<Rightarrow> 'm dmem \<Rightarrow> 'm dmem" where
  "blk_pass_memory d dm = (if bd_host_dirty d then dm else dm\<lparr>dm_dirty := None\<rparr>)"

definition blk_after_pass ::
  "'m ram_ops \<Rightarrow> u16 \<Rightarrow> 'm dmem \<Rightarrow> (blk_run, 'm) progress \<Rightarrow> ((mmio_error + unit) \<times> 'm dmem \<times> blk_dev) option" where
  "blk_after_pass G old_used dm p =
     map_option (\<lambda>(d, failed).
       let dm' = (if bd_host_dirty d then pr_dm p else dm\<lparr>dm_mem := dm_mem (pr_dm p)\<rparr>);
           d1 = d\<lparr>bd_processor := Some (pr_vq p)\<rparr>;
           (r, d2) = (if 0 < pr_done p \<and> needs_notification G (dm_mem (pr_dm p)) old_used (pr_vq p)
                      then blk_trigger_interrupt d1 else (Ok (), d1))
       in (case r of
             Inl e \<Rightarrow> (Err e, dm', d2)
           | Inr _ \<Rightarrow> (if failed \<or> is_failed d2 then Err Device else Ok (), dm', d2)))
       (pr_state p)"

definition blk_process_queue ::
  "'m ram_ops \<Rightarrow> 'm slice_ops \<Rightarrow> (nat \<Rightarrow> nat) \<Rightarrow> 'm dmem \<Rightarrow> blk_dev \<Rightarrow>
   ((mmio_error + unit) \<times> 'm dmem \<times> blk_dev) option" where
  "blk_process_queue G S pick dm d =
     (if is_failed d then Some (Err Device, dm, d)
      else if L_guest_mem \<in> bd_poisoned d then Some (Err Device, dm, fail_device d)
      else if \<not> bd_guest_mem d then Some (Ok (), dm, d)
      else if L_host_dirty \<in> bd_poisoned d \<or> L_queues \<in> bd_poisoned d then Some (Err Device, dm, fail_device d)
      else case bd_queues d of
        [] \<Rightarrow> Some (Ok (), dm, d)
      | q # _ \<Rightarrow>
          if \<not> qs_ready q \<or> \<not> valid_size q then Some (Ok (), dm, d)
          else if L_processor \<in> bd_poisoned d then Some (Err Device, dm, fail_device d)
          else
            let vq = blk_pass_processor (blk_queue_config q) d;
                d' = d\<lparr>bd_processor := Some vq\<rparr>
            in if L_backend \<in> bd_poisoned d then Some (Err Device, dm, fail_device d')
               else if bd_backend d = None then Some (Ok (), dm, d')
               else
                 Option.bind
                   (process_queue_descriptors_dirty G (blk_handler G S pick) vq (Some (d', False)) (blk_pass_memory d dm))
                   (blk_after_pass G (vq_last_used vq) dm))"

section \<open>Reset, save and restore\<close>

definition blk_reset :: "blk_dev \<Rightarrow> blk_dev" where
  "blk_reset d =
     d\<lparr>bd_poisoned := {}, bd_status := 0, bd_activated := False, bd_host_features_sel := 0,
       bd_guest_features_sel := 0, bd_guest_features_low := 0, bd_guest_features_high := 0, bd_queue_sel := 0,
       bd_interrupt_status := 0, bd_queues := map (\<lambda>_. queue_state_default) (bd_queues d),
       bd_processor := None\<rparr>"

definition blk_snapshot_state :: "blk_dev \<Rightarrow> (persist_error + blk_state) \<times> blk_dev" where
  "blk_snapshot_state d =
     (if is_failed d then (Err (PersistUnavailable ''virtio-blk is failed and requires reset''), d)
      else if L_queues \<in> bd_poisoned d
      then (Err (PersistUnavailable ''virtio-blk queues lock is poisoned''), fail_device d)
      else if L_processor \<in> bd_poisoned d
      then (Err (PersistUnavailable ''virtio-blk processor lock is poisoned''), fail_device d)
      else (Ok \<lparr>ks_status = bd_status d, ks_queue_sel = bd_queue_sel d,
             ks_host_features_sel = bd_host_features_sel d, ks_guest_features_sel = bd_guest_features_sel d,
             ks_guest_features_low = bd_guest_features_low d, ks_guest_features_high = bd_guest_features_high d,
             ks_queues = bd_queues d, ks_activated = bd_activated d, ks_interrupt_status = bd_interrupt_status d,
             ks_processor = map_option vq_save_state (bd_processor d)\<rparr>, d))"

definition default_config :: queue_config where
  "default_config = \<lparr>q_size = 0, q_desc = 0, q_avail = 0, q_used = 0, q_ready = False\<rparr>"

definition blk_restore :: "blk_state \<Rightarrow> blk_dev \<Rightarrow> blk_dev" where
  "blk_restore st d =
     (let d1 = lock_state L_queues
            (d\<lparr>bd_status := ks_status st, bd_queue_sel := ks_queue_sel st,
               bd_host_features_sel := ks_host_features_sel st, bd_guest_features_sel := ks_guest_features_sel st,
               bd_guest_features_low := ks_guest_features_low st, bd_guest_features_high := ks_guest_features_high st\<rparr>);
          d2 = lock_state L_queues
            (d1\<lparr>bd_queues := ks_queues st, bd_activated := ks_activated st,
                bd_interrupt_status := ks_interrupt_status st\<rparr>);
          config = (case ks_queues st of [] \<Rightarrow> default_config | q # _ \<Rightarrow> blk_queue_config q)
      in (lock_state L_processor d2)\<lparr>bd_processor := map_option (vq_from_state config) (ks_processor st)\<rparr>)"

section \<open>Register access\<close>

definition blk_selected :: "(queue_state \<Rightarrow> nat) \<Rightarrow> blk_dev \<Rightarrow> nat \<times> blk_dev" where
  "blk_selected f d =
     (if bd_queue_sel d < length (bd_queues d) then f (bd_queues d ! bd_queue_sel d) else 0, lock_state L_queues d)"

definition blk_config_space :: "backend \<Rightarrow> byte list" where
  "blk_config_space be = to_le 8 (be_sectors be) @ to_le 4 MAX_DESC_LEN"

definition blk_read_config :: "u64 \<Rightarrow> blk_dev \<Rightarrow> nat" where
  "blk_read_config cfg_off d =
     (case bd_backend d of
        None \<Rightarrow> 0
      | Some be \<Rightarrow>
          let cfg = blk_config_space be in
          if cfg_off < min (cfg_off + 4) (length cfg)
          then from_le (map (\<lambda>i. if i < length cfg then cfg ! i else 0) [cfg_off..<cfg_off + 4])
          else 0)"

definition blk_mmio_read :: "u64 \<Rightarrow> blk_dev \<Rightarrow> u64 \<times> blk_dev" where
  "blk_mmio_read off d =
     (if off = R_MAGIC_VALUE then (VIRTIO_MAGIC, d)
      else if off = R_VERSION then (bd_version d, d)
      else if off = R_DEVICE_ID then (bd_device_id d, d)
      else if off = R_VENDOR_ID then (bd_vendor_id d, d)
      else if off = R_HOST_FEATURES then
        (if bd_host_features_sel d = 0 then
           (case bd_backend d of
              Some be \<Rightarrow> if be_read_only be then BLK_FEATURES_LOW OR VIRTIO_BLK_F_RO else BLK_FEATURES_LOW
            | None \<Rightarrow> BLK_FEATURES_LOW, lock_state L_backend d)
         else if bd_host_features_sel d = 1 then (BLK_FEATURES_HIGH, d)
         else (0, d))
      else if off = R_QUEUE_NUM_MAX then (unat MAX_QUEUE_SIZE, d)
      else if off = R_QUEUE_READY then blk_selected (\<lambda>q. of_bool (qs_ready q \<and> valid_size q)) d
      else if off = R_STATUS then (bd_status d, d)
      else if off = R_INTERRUPT_STATUS then (bd_interrupt_status d, d)
      else if off = R_CONFIG_GENERATION then (0, d)
      else if R_CONFIG \<le> off then (blk_read_config (off - R_CONFIG) d, lock_state L_backend d)
      else if off = R_QUEUE_NUM then blk_selected (\<lambda>q. unat (qs_size q)) d
      else if off = R_QUEUE_DESC_LOW then blk_selected (\<lambda>q. qs_desc q mod 2 ^ 32) d
      else if off = R_QUEUE_DESC_HIGH then blk_selected (\<lambda>q. drop_bit 32 (qs_desc q) mod 2 ^ 32) d
      else if off = R_QUEUE_DRIVER_LOW then blk_selected (\<lambda>q. qs_avail q mod 2 ^ 32) d
      else if off = R_QUEUE_DRIVER_HIGH then blk_selected (\<lambda>q. drop_bit 32 (qs_avail q) mod 2 ^ 32) d
      else if off = R_QUEUE_DEVICE_LOW then blk_selected (\<lambda>q. qs_used q mod 2 ^ 32) d
      else if off = R_QUEUE_DEVICE_HIGH then blk_selected (\<lambda>q. drop_bit 32 (qs_used q) mod 2 ^ 32) d
      else (0, d))"

definition blk_update_queue :: "(queue_state \<Rightarrow> queue_state) \<Rightarrow> blk_dev \<Rightarrow> blk_dev" where
  "blk_update_queue f d =
     (let d' = lock_state L_queues d in
      if bd_queue_sel d < length (bd_queues d)
      then d'\<lparr>bd_queues := (bd_queues d)[bd_queue_sel d := f (bd_queues d ! bd_queue_sel d)]\<rparr> else d')"

definition blk_write_guest_features :: "u32 \<Rightarrow> blk_dev \<Rightarrow> blk_dev" where
  "blk_write_guest_features val d =
     (if bd_guest_features_sel d = 0 then d\<lparr>bd_guest_features_low := val\<rparr>
      else if bd_guest_features_sel d = 1 then d\<lparr>bd_guest_features_high := val\<rparr>
      else d)"

definition blk_write_status :: "u32 \<Rightarrow> blk_dev \<Rightarrow> blk_dev" where
  "blk_write_status val d =
     (let d' = d\<lparr>bd_status_writes := wrapping_add 64 (bd_status_writes d) 1\<rparr> in
      if val = 0 then blk_reset d'
      else d'\<lparr>bd_status := val, bd_activated := (if val AND BLK_DRIVER_OK \<noteq> 0 then True else bd_activated d')\<rparr>)"

text \<open>The registers whose write does not run the queue.\<close>

definition blk_write_register :: "u64 \<Rightarrow> u32 \<Rightarrow> blk_dev \<Rightarrow> blk_dev" where
  "blk_write_register off val d =
     (if off = R_STATUS then blk_write_status val d
      else if off = R_HOST_FEATURES_SEL then d\<lparr>bd_host_features_sel := val\<rparr>
      else if off = R_GUEST_FEATURES then blk_write_guest_features val d
      else if off = R_GUEST_FEATURES_SEL then d\<lparr>bd_guest_features_sel := val\<rparr>
      else if off = R_QUEUE_SEL then d\<lparr>bd_queue_sel := val\<rparr>
      else if off = R_QUEUE_NUM then blk_update_queue (set_size val) d
      else if off = R_QUEUE_DESC_LOW then blk_update_queue (\<lambda>q. q\<lparr>qs_desc := set_low val (qs_desc q)\<rparr>) d
      else if off = R_QUEUE_DESC_HIGH then blk_update_queue (\<lambda>q. q\<lparr>qs_desc := set_high val (qs_desc q)\<rparr>) d
      else if off = R_QUEUE_DRIVER_LOW then blk_update_queue (\<lambda>q. q\<lparr>qs_avail := set_low val (qs_avail q)\<rparr>) d
      else if off = R_QUEUE_DRIVER_HIGH then blk_update_queue (\<lambda>q. q\<lparr>qs_avail := set_high val (qs_avail q)\<rparr>) d
      else if off = R_QUEUE_DEVICE_LOW then blk_update_queue (\<lambda>q. q\<lparr>qs_used := set_low val (qs_used q)\<rparr>) d
      else if off = R_QUEUE_DEVICE_HIGH then blk_update_queue (\<lambda>q. q\<lparr>qs_used := set_high val (qs_used q)\<rparr>) d
      else if off = R_QUEUE_READY then blk_update_queue (set_ready (val \<noteq> 0)) d
      else if off = R_INTERRUPT_ACK then
        d\<lparr>bd_interrupt_status := bd_interrupt_status d AND bit_not 32 val\<rparr>
      else d)"

definition blk_mmio_write ::
  "'m ram_ops \<Rightarrow> 'm slice_ops \<Rightarrow> (nat \<Rightarrow> nat) \<Rightarrow> u64 \<Rightarrow> u64 \<Rightarrow> 'm dmem \<Rightarrow> blk_dev \<Rightarrow>
   ((mmio_error + unit) \<times> 'm dmem \<times> blk_dev) option" where
  "blk_mmio_write G S pick off val64 dm d =
     (let val = val64 mod 2 ^ 32 in
      if is_failed d \<and> \<not> (off = R_STATUS \<and> val = 0) then Some (Err Device, dm, d)
      else if off = R_QUEUE_NOTIFY
      then blk_process_queue G S pick dm (d\<lparr>bd_notify_count := wrapping_add 64 (bd_notify_count d) 1\<rparr>)
      else Some (Ok (), dm, blk_write_register off val d))"

end
