(* ===== verification/BlkDeviceProofs.thy ===== *)
theory BlkDeviceProofs
  imports BlkDevice BlkClaims BalloonClaims
begin

text \<open>
  The block device, proved: what serving a chain writes to guest memory, that it refines a
  request on a flat disk, that every change is tracked, and what the rest of the device keeps.
  The contract of the host-buffer interface is the locale \<open>guest_slices\<close>, interpreted on
  packed RAM.
\<close>

section \<open>Host buffers\<close>

text \<open>
  The contract, as \<open>vm-memory\<close> documents it: the slices of a range are its bytes in order,
  distinct guest bytes have distinct host bytes, and storing through host addresses changes
  just the guest bytes behind them.
\<close>

locale guest_slices = guest_ram G for G :: "'m ram_ops" +
  fixes S :: "'m slice_ops"
  assumes slices_addrs: "get_slices S m a n = Some iov \<Longrightarrow>
      map Some (iov_addrs iov) = map (host_addr S m) [a..<a + n]"
    and slices_bound: "get_slices S m a n = Some iov \<Longrightarrow> 0 < n \<Longrightarrow> a + n < 2 ^ 64"
    and host_inj: "host_addr S m a = Some h \<Longrightarrow> host_addr S m b = Some h \<Longrightarrow> a = b"
    and put_chk: "chk G (put_bytes S hm m) = chk G m"
    and put_rd: "host_addr S m a = Some h \<Longrightarrow> rd G (put_bytes S hm m) a 1 = Some [hm h]"
    and host_rd: "host_addr S m a = Some h \<Longrightarrow> rd G m a 1 = Some [host_bytes S m h]"
    and put_frame: "(\<And>i h. i < n \<Longrightarrow> host_addr S m (b + i) = Some h \<Longrightarrow> hm h = host_bytes S m h) \<Longrightarrow>
      rd G (put_bytes S hm m) b n = rd G m b n"

text \<open>Guest memory after a sequence of byte stores, the last at an address deciding.\<close>

definition stores :: "'m ram_ops \<Rightarrow> 'm \<Rightarrow> (u64 \<times> byte) list \<Rightarrow> 'm \<Rightarrow> bool" where
  "stores G m ws m' \<longleftrightarrow>
     (\<forall>a. rd G m' a 1 = (case map_of (rev ws) a of Some x \<Rightarrow> Some [x] | None \<Rightarrow> rd G m a 1))"

definition buf_addrs :: "buffer list \<Rightarrow> u64 list" where
  "buf_addrs bufs = concat (map (\<lambda>b. [fst b..<fst b + snd b]) bufs)"

lemma stores_none [simp]: "stores G m [] m"
  by (simp add: stores_def)

lemma stores_trans: "stores G m ws m' \<Longrightarrow> stores G m' ws' m'' \<Longrightarrow> stores G m (ws @ ws') m''"
  by (auto simp: stores_def map_add_def split: option.split)

lemma buf_addrs_Cons: "buf_addrs (b # bs) = [fst b..<fst b + snd b] @ buf_addrs bs"
  by (simp add: buf_addrs_def)

lemma length_buf_addrs: "length (buf_addrs bufs) = sum_list (map snd bufs)"
  by (induction bufs) (simp_all add: buf_addrs_def)

lemma stores_outside: "stores G m ws m' \<Longrightarrow> a \<notin> fst ` set ws \<Longrightarrow> rd G m' a 1 = rd G m a 1"
proof -
  assume s: "stores G m ws m'" and "a \<notin> fst ` set ws"
  then have "map_of (rev ws) a = None" by (simp add: map_of_eq_None_iff)
  then show ?thesis using s by (simp add: stores_def)
qed

text \<open>Scattering to host addresses, read through an injection.\<close>

lemma scatter_lookup: "scatter mem addrs bytes h =
    (case map_of (rev (zip addrs bytes)) h of Some x \<Rightarrow> x | None \<Rightarrow> mem h)"
proof (induction addrs arbitrary: bytes mem)
  case (Cons a addrs)
  show ?case
  proof (cases bytes)
    case (Cons x xs)
    have "scatter mem (a # addrs) bytes h = scatter (mem(a := x)) addrs xs h" by (simp add: scatter_def Cons)
    then show ?thesis using Cons.IH [of "mem(a := x)" xs] by (auto simp: Cons map_add_def split: option.split)
  qed (simp add: scatter_def)
qed (simp add: scatter_def)

lemma map_of_zip_inj:
  assumes "inj_on f (insert a (set as))"
  shows "map_of (rev (zip (map f as) bytes)) (f a) = map_of (rev (zip as bytes)) a"
proof -
  have "rev (zip (map f as) bytes) = map (apfst f) (rev (zip as bytes))"
    by (simp add: zip_map1 rev_map apfst_def map_prod_def case_prod_beta')
  moreover have "map_of (map (apfst f) xs) (f a) = map_of xs a" if "fst ` set xs \<subseteq> set as" for xs :: "('a \<times> 'c) list"
    using that assms by (induction xs) (auto simp: inj_on_def)
  moreover have "fst ` set (rev (zip as bytes)) \<subseteq> set as" by (auto dest: set_zip_leftD)
  ultimately show ?thesis by simp
qed

section \<open>Stores through the tracked helpers\<close>

text \<open>The status byte goes to the last writable buffer.\<close>

definition status_store :: "buffer list \<Rightarrow> byte \<Rightarrow> (u64 \<times> byte) list" where
  "status_store writable st =
     (if writable = [] \<or> snd (last writable) = 0 then [] else [(fst (last writable), st)])"

context guest_ram
begin

lemma write_mem_stores:
  assumes c: "chk G (dm_mem dm) b n" and "b \<le> a" and "a + length bs \<le> b + n" and "bs \<noteq> []"
  obtains dm' where "write_mem G bs a dm = (True, dm')" "stores G (dm_mem dm) (zip [a..<a + length bs] bs) (dm_mem dm')"
    "dm_ok G sz dm dm'"
proof -
  obtain dm' where w: "write_mem G bs a dm = (True, dm')"
    using write_mem_chk(1) [OF assms] by (cases "write_mem G bs a dm") auto
  obtain m' where wr: "wr G (dm_mem dm) a bs = (True, m')" and m': "dm_mem dm' = m'"
    using w by (auto simp: write_mem_def split: prod.splits bool.splits)
  have "rd G m' g 1 = (case map_of (rev (zip [a..<a + length bs] bs)) g of Some x \<Rightarrow> Some [x] | None \<Rightarrow> rd G (dm_mem dm) g 1)" for g
  proof (cases "a \<le> g \<and> g < a + length bs")
    case True
    define i where "i = g - a"
    have i: "g = a + i" "i < length bs" using True by (auto simp: i_def)
    have "rd G m' g 1 = Some [bs ! i]" unfolding i(1) by (rule rd_byte [OF wr_same [OF wr] i(2)])
    moreover have "map_of (rev (zip [a..<a + length bs] bs)) g = Some (bs ! i)"
      using i by (intro map_of_is_SomeI) (auto simp: set_zip rev_map [symmetric] intro!: exI [of _ i])
    ultimately show ?thesis by simp
  next
    case False
    then have "rd G m' g 1 = rd G (dm_mem dm) g 1" using wr_frame [OF wr, of g 1] by force
    moreover have "map_of (rev (zip [a..<a + length bs] bs)) g = None"
      using False by (auto simp: map_of_eq_None_iff dest: set_zip_leftD)
    ultimately show ?thesis by simp
  qed
  moreover have "dm_ok G sz dm dm'" using write_mem_chk(2) [OF assms] w by simp
  ultimately show ?thesis using that w by (simp add: stores_def m')
qed

lemma buffer_chk: "buffers_ok G m bufs \<Longrightarrow> b \<in> set bufs \<Longrightarrow> 0 < snd b \<Longrightarrow> chk G m (fst b) (snd b)"
  using range_valid_chkD [of G m "fst b" "snd b"] by (auto simp: buffers_ok_def)

lemma zip_upt_prefix:
  "zip ([a..<a + k] @ bs) xs =
   zip [a..<a + min k (length xs)] (take (min k (length xs)) xs) @ zip bs (drop (min k (length xs)) xs)"
proof (cases "k \<le> length xs")
  case True
  then show ?thesis by (simp add: zip_append1)
next
  case False
  then have "zip [a..<a + k] xs = zip [a..<a + length xs] xs" by (intro nth_equalityI) simp_all
  then show ?thesis using False by (simp add: zip_append1)
qed

lemma write_data_stores:
  assumes "buffers_ok G (dm_mem dm) bufs"
  shows "stores G (dm_mem dm) (zip (buf_addrs bufs) data) (dm_mem (write_data G bufs data dm)) \<and>
    dm_ok G sz dm (write_data G bufs data dm)"
  using assms
proof (induction bufs arbitrary: data dm)
  case Nil
  then show ?case by (simp add: buf_addrs_def)
next
  case (Cons b bufs)
  define n where "n = min (snd b) (length data)"
  show ?case
  proof (cases "n = 0")
    case True
    then have "data = [] \<or> snd b = 0" unfolding n_def min_def by (auto split: if_splits)
    then show ?thesis
      using Cons.IH [of dm data] Cons.prems by (auto simp: buf_addrs_Cons Let_def buffers_ok_def)
  next
    case False
    then have n: "0 < n" "0 < snd b" "data \<noteq> []" "take n data \<noteq> []" "length (take n data) = n" by (auto simp: n_def)
    have c: "chk G (dm_mem dm) (fst b) (snd b)" by (rule buffer_chk [OF Cons.prems _ n(2)]) simp
    obtain dm' where dm': "write_mem G (take n data) (fst b) dm = (True, dm')"
      "stores G (dm_mem dm) (zip [fst b..<fst b + n] (take n data)) (dm_mem dm')" "dm_ok G sz dm dm'"
      by (rule write_mem_stores [OF c, of "fst b" "take n data"]) (use n in \<open>simp_all add: n_def\<close>)
    have "buffers_ok G (dm_mem dm') bufs"
      using Cons.prems buffers_ok_chk [OF dm_ok_chk [OF dm'(3)]] by (simp add: buffers_ok_def)
    note ih = Cons.IH [OF this, of "drop n data"]
    have eq: "write_data G (b # bufs) data dm = write_data G bufs (drop n data) dm'"
      using n(1,3) dm'(1) by (simp add: Let_def n_def [symmetric])
    have z: "zip (buf_addrs (b # bufs)) data =
        zip [fst b..<fst b + n] (take n data) @ zip (buf_addrs bufs) (drop n data)"
      unfolding buf_addrs_Cons n_def by (rule zip_upt_prefix)
    show ?thesis unfolding eq z using ih stores_trans [OF dm'(2)] dm_ok_trans [OF dm'(3)] by blast
  qed
qed

lemma write_status_stores:
  assumes "buffers_ok G (dm_mem dm) writable"
  shows "stores G (dm_mem dm) (status_store writable st) (dm_mem (write_status G writable st dm)) \<and>
    dm_ok G sz dm (write_status G writable st dm)"
proof (cases "writable = [] \<or> snd (last writable) = 0")
  case True
  then show ?thesis by (auto simp: write_status_def status_store_def)
next
  case False
  then have n: "0 < snd (last writable)" "last writable \<in> set writable" by auto
  obtain dm' where "write_mem G [st] (fst (last writable)) dm = (True, dm')"
    "stores G (dm_mem dm) (zip [fst (last writable)..<fst (last writable) + length [st]] [st]) (dm_mem dm')"
    "dm_ok G sz dm dm'"
    by (rule write_mem_stores [OF buffer_chk [OF assms n(2,1)], of "fst (last writable)" "[st]"]) (use n in simp_all)
  then show ?thesis using False by (simp add: write_status_def status_store_def)
qed

text \<open>Reading the readable buffers of a chain.\<close>

lemma total_len_eq: "total_len bufs acc = (if acc + sum_list (map snd bufs) < 2 ^ 64 then Some (acc + sum_list (map snd bufs)) else None)"
  if "acc < 2 ^ 64" for acc
  using that by (induction bufs arbitrary: acc) (auto simp: checked_add_def add.assoc)

lemma read_each_ok:
  assumes "buffers_ok G m bufs" and "length data + sum_list (map snd bufs) < 2 ^ 64"
  shows "\<exists>bytes. read_each G m bufs data = Some (data @ bytes) \<and> length bytes = sum_list (map snd bufs) \<and>
    (\<forall>i < length bytes. rd G m (buf_addrs bufs ! i) 1 = Some [bytes ! i])"
  using assms
proof (induction bufs arbitrary: data)
  case Nil
  then show ?case by simp
next
  case (Cons b bufs)
  have ok: "buffers_ok G m bufs" using Cons.prems(1) by (simp add: buffers_ok_def)
  show ?case
  proof (cases "snd b = 0")
    case True
    then show ?thesis using Cons.IH [OF ok, of data] Cons.prems(2) by (simp add: buf_addrs_Cons)
  next
    case False
    then obtain xs where xs: "rd G m (fst b) (snd b) = Some xs"
      using chk_rd [OF buffer_chk [OF Cons.prems(1), of b]] by auto
    have len: "length xs = snd b" by (rule rd_length [OF xs])
    obtain ys where ys: "read_each G m bufs (data @ xs) = Some ((data @ xs) @ ys)"
      "length ys = sum_list (map snd bufs)" "\<forall>i < length ys. rd G m (buf_addrs bufs ! i) 1 = Some [ys ! i]"
      using Cons.IH [OF ok, of "data @ xs"] Cons.prems(2) len by (auto simp: add.assoc)
    have "read_each G m (b # bufs) data = Some (data @ (xs @ ys))"
      using False xs ys(1) Cons.prems(2) by (simp add: checked_add_def)
    moreover have "rd G m (buf_addrs (b # bufs) ! i) 1 = Some [(xs @ ys) ! i]" if "i < length (xs @ ys)" for i
      using that rd_byte [OF xs, of i] ys(3) len by (auto simp: buf_addrs_Cons nth_append)
    moreover have "length (xs @ ys) = sum_list (map snd (b # bufs))" using len ys(2) by simp
    ultimately show ?thesis by blast
  qed
qed

end

section \<open>Reading straight into guest memory\<close>

lemma mark_buffers_mono: "D \<subseteq> mark_buffers bufs D"
  using mark_guest_range_mono by (induction bufs arbitrary: D) (auto simp: mark_buffers_def, blast)

lemma mark_buffers_covers:
  assumes "\<forall>b \<in> set bufs. 0 < snd b \<longrightarrow> fst b + snd b < 2 ^ 64"
    and "a \<in> set (buf_addrs bufs)" and "gpa_to_offset sz a = Some off"
  shows "off div PAGE_SIZE \<in> mark_buffers bufs D"
  using assms(1,2)
proof (induction bufs arbitrary: D)
  case (Cons b bufs)
  let ?D = "mark_guest_range (fst b) (snd b) D"
  have eq: "mark_buffers (b # bufs) D = mark_buffers bufs ?D" by (simp add: mark_buffers_def)
  show ?case
  proof (cases "a \<in> {fst b..<fst b + snd b}")
    case True
    then have "fst b + snd b < 2 ^ 64" using Cons.prems(1) by auto
    then have "off div PAGE_SIZE \<in> ?D" by (rule mark_guest_range_covers [OF _ True assms(3)])
    then show ?thesis unfolding eq using mark_buffers_mono by blast
  next
    case False
    then have "a \<in> set (buf_addrs bufs)" using Cons.prems(2) by (auto simp: buf_addrs_Cons)
    then show ?thesis unfolding eq using Cons.IH Cons.prems(1) by simp
  qed
qed (simp add: buf_addrs_def)

context guest_slices
begin

lemma guest_iov_addrs:
  "guest_iov S m bufs = Some iov \<Longrightarrow> map Some (iov_addrs iov) = map (host_addr S m) (buf_addrs bufs)"
proof (induction bufs arbitrary: iov)
  case Nil
  then show ?case by (simp add: buf_addrs_def iov_addrs_def)
next
  case (Cons b bufs)
  then obtain i j where ij: "get_slices S m (fst b) (snd b) = Some i" "guest_iov S m bufs = Some j" "iov = i @ j"
    by (auto simp: bind_eq_Some_conv)
  have "iov_addrs iov = iov_addrs i @ iov_addrs j" by (simp add: ij(3) iov_addrs_def)
  then show ?case using slices_addrs [OF ij(1)] Cons.IH [OF ij(2)] by (simp add: buf_addrs_Cons)
qed

lemma guest_iov_bound:
  "guest_iov S m bufs = Some iov \<Longrightarrow> \<forall>b \<in> set bufs. 0 < snd b \<longrightarrow> fst b + snd b < 2 ^ 64"
  using slices_bound by (induction bufs arbitrary: iov) (auto simp: bind_eq_Some_conv)

lemma put_stores:
  assumes as: "map Some hs = map (host_addr S m) as"
  shows "stores G m (zip as bytes) (put_bytes S (scatter (host_bytes S m) hs bytes) m)"
  unfolding stores_def
proof
  fix a
  let ?hm = "scatter (host_bytes S m) hs bytes"
  define f where "f = the \<circ> host_addr S m"
  have h: "host_addr S m x = Some (f x)" if "x \<in> set as" for x
  proof -
    have "host_addr S m x \<in> set (map Some hs)" using as that by simp
    then show ?thesis by (auto simp: f_def)
  qed
  have hs: "hs = map f as"
  proof -
    have "map Some hs = map Some (map f as)" using as h by (simp add: comp_def cong: map_cong)
    then show ?thesis by (metis inj_Some inj_map_eq_map)
  qed
  show "rd G (put_bytes S ?hm m) a 1 = (case map_of (rev (zip as bytes)) a of Some x \<Rightarrow> Some [x] | None \<Rightarrow> rd G m a 1)"
  proof (cases "host_addr S m a")
    case (Some k)
    then have k: "k = f a" by (simp add: f_def)
    have "inj_on f (insert a (set as))"
      using h Some k host_inj by (intro inj_onI) (metis insert_iff)
    then have "?hm (f a) = (case map_of (rev (zip as bytes)) a of Some x \<Rightarrow> x | None \<Rightarrow> host_bytes S m (f a))"
      unfolding scatter_lookup hs by (simp add: map_of_zip_inj)
    then show ?thesis
      using put_rd [OF Some, of ?hm] host_rd [OF Some] k by (auto split: option.split)
  next
    case None
    then have "a \<notin> set as" using h by auto
    then have "map_of (rev (zip as bytes)) a = None" by (auto simp: map_of_eq_None_iff dest: set_zip_leftD)
    moreover have "rd G (put_bytes S ?hm m) a 1 = rd G m a 1"
      by (rule put_frame) (use None in simp)
    ultimately show ?thesis by simp
  qed
qed

lemma put_tracked:
  assumes "stores G (dm_mem dm) ws (put_bytes S hm (dm_mem dm))" and "fst ` set ws \<subseteq> set (buf_addrs bufs)"
    and "\<forall>b \<in> set bufs. 0 < snd b \<longrightarrow> fst b + snd b < 2 ^ 64"
  shows "dm_ok G sz dm (dm\<lparr>dm_mem := put_bytes S hm (dm_mem dm), dm_dirty := map_option (mark_buffers bufs) (dm_dirty dm)\<rparr>)"
proof -
  have "changed_pages G sz (dm_mem dm) (put_bytes S hm (dm_mem dm)) \<subseteq> mark_buffers bufs D" for D
  proof
    fix p assume "p \<in> changed_pages G sz (dm_mem dm) (put_bytes S hm (dm_mem dm))"
    then obtain a off where a: "rd G (put_bytes S hm (dm_mem dm)) a 1 \<noteq> rd G (dm_mem dm) a 1"
      "gpa_to_offset sz a = Some off" "p = off div PAGE_SIZE" by (auto simp: changed_pages_def)
    then have "a \<in> set (buf_addrs bufs)" using stores_outside [OF assms(1), of a] assms(2) by auto
    then show "p \<in> mark_buffers bufs D" unfolding a(3) by (rule mark_buffers_covers [OF assms(3) _ a(2)])
  qed
  then show ?thesis
    using put_chk mark_buffers_mono by (auto simp: dm_ok_def split: option.split)
qed

end

section \<open>Serving a chain\<close>

text \<open>
  What a chain asks of a flat disk, given its readable bytes and the room for data: the status,
  the reply and the disk after it.
\<close>

definition chain_request :: "bool \<Rightarrow> nat \<Rightarrow> byte list \<Rightarrow> usize \<Rightarrow> byte list \<Rightarrow> byte \<times> byte list \<times> byte list" where
  "chain_request ro sectors data room disk =
     (case blk_header_from_bytes data of
        None \<Rightarrow> (S_IO_ERR, [], disk)
      | Some h \<Rightarrow>
          if bh_type h = T_IN then
            (if room = 0 then (S_IO_ERR, [], disk) else disk_request ro sectors h (replicate room 0) disk)
          else if bh_type h = T_OUT then
            (case disk_request ro sectors h (drop 16 data) disk of (st, _, disk') \<Rightarrow> (st, [], disk'))
          else if bh_type h = T_FLUSH then (S_OK, [], disk)
          else if bh_type h = T_GET_ID then (S_OK, take 20 blk_serial, disk)
          else (S_UNSUPP, [], disk))"

text \<open>What it is charged with.\<close>

definition chain_charge :: "byte list \<Rightarrow> usize \<Rightarrow> u64" where
  "chain_charge data room =
     (case blk_header_from_bytes data of
        None \<Rightarrow> 0
      | Some h \<Rightarrow>
          if bh_type h = T_IN then room
          else if bh_type h = T_OUT then length data - 16
          else if bh_type h = T_GET_ID then 20 else 0)"

definition room_of :: "buffer list \<Rightarrow> usize" where
  "room_of writable = sum_list (map snd (data_bufs writable))"

lemma S_IO_ERR_not_OK: "S_IO_ERR \<noteq> S_OK"
  by (simp add: statuses)

lemma header_bytes_ok: "blk_header_from_bytes data = Some h \<Longrightarrow> header_ok h \<and> 16 \<le> length data"
  using from_le_less [of "take 4 data"] from_le_less [of "take 8 (drop 8 data)"]
  by (auto simp: blk_header_from_bytes_def header_ok_def split: if_splits)

lemma req_op_low: "bh_type h < 2 ^ 31 \<Longrightarrow> req_op h = bh_type h"
  by (simp add: req_op_def)

text \<open>The data a served request leaves in guest memory, and the backend after it.\<close>

definition served_ok :: "'m ram_ops \<Rightarrow> u64 \<Rightarrow> buffer list \<Rightarrow> backend \<Rightarrow> byte \<times> byte list \<times> byte list \<Rightarrow> 'm dmem \<Rightarrow>
    (byte \<times> backend \<times> 'm dmem) option \<Rightarrow> bool" where
  "served_ok G sz writable be spec dm r \<longleftrightarrow>
     (case spec of (st, reply, disk) \<Rightarrow>
        \<exists>be' dm' out. r = Some (st, be', dm') \<and> backend_inv be' \<and> be_sectors be' = be_sectors be \<and>
          be_read_only be' = be_read_only be \<and> backend_disk be' = disk \<and> (st = S_OK \<longrightarrow> out = reply) \<and>
          stores G (dm_mem dm) (zip (buf_addrs (data_bufs writable)) out) (dm_mem dm') \<and> dm_ok G sz dm dm')"

context guest_slices
begin

lemma served_same:
  "backend_inv be \<Longrightarrow> backend_disk be = disk \<Longrightarrow> served_ok G sz writable be (st, [], disk) dm (Some (st, be, dm))"
  by (auto simp: served_ok_def intro!: exI [of _ "[]"])

lemma served_quiet:
  assumes inv: "backend_inv be" and h: "header_ok h"
    and spec: "disk_request (be_read_only be) (be_sectors be) h data (backend_disk be) = (st, out, disk)"
  shows "served_ok G sz writable be (st, [], disk) dm
    (case service h data be of Panicked \<Rightarrow> None | Served st _ be' \<Rightarrow> Some (st, be', dm))"
  using service_refines [OF inv h, of data] spec
  by (auto simp: refines_request_def served_ok_def intro!: exI [of _ "[]"])

lemma data_bufs_ok: "buffers_ok G m writable \<Longrightarrow> buffers_ok G m (data_bufs writable)"
  by (auto simp: buffers_ok_def data_bufs_def dest: in_set_takeD)

lemma served_copied:
  assumes inv: "backend_inv be" and h: "header_ok h" and w: "buffers_ok G (dm_mem dm) writable"
    and spec: "disk_request (be_read_only be) (be_sectors be) h data (backend_disk be) = (st, out, disk)"
  shows "served_ok G sz writable be (st, out, disk) dm
    (case service h data be of
       Panicked \<Rightarrow> None | Served st data be' \<Rightarrow> Some (st, be', write_writable_data G writable data dm))"
  using service_refines [OF inv h, of data] spec write_data_stores [OF data_bufs_ok [OF w], of out sz]
  by (auto simp: refines_request_def served_ok_def write_writable_data_def)

lemma read_into_served:
  assumes inv: "backend_inv be" and h: "header_ok h" and op: "req_op h = T_IN"
    and spec: "disk_request (be_read_only be) (be_sectors be) h (replicate (room_of writable) 0) (backend_disk be) = (st, out, disk)"
  shows "case read_into_guest S pick be h writable dm of
      NotPlain \<Rightarrow> True | ReadPanicked \<Rightarrow> False
    | ReadInto st' dm' \<Rightarrow> served_ok G sz writable be (st, out, disk) dm (Some (st', be, dm'))"
proof (cases "guest_iov S (dm_mem dm) (data_bufs writable)")
  case None
  then show ?thesis by (simp add: read_into_guest_def)
next
  case (Some iov)
  let ?bufs = "data_bufs writable" and ?m = "dm_mem dm"
  note as = guest_iov_addrs [OF Some]
  have "length (iov_addrs iov) = length (buf_addrs ?bufs)" using as by (metis length_map)
  then have len: "length (replicate (room_of writable) (0 :: byte)) = iov_total iov"
    by (simp add: room_of_def length_buf_addrs)
  obtain st' out' where v: "service h (replicate (room_of writable) 0) be = Served st' out' be"
    "service_read_into pick h iov (host_bytes S ?m) be =
       ServedInto st' (if st' = S_OK then scatter (host_bytes S ?m) (iov_addrs iov) out' else host_bytes S ?m)"
    using vectored_reads [OF inv h op len, of pick "host_bytes S ?m"] by blast
  have eq: "st' = st" "out' = out" "backend_disk be = disk"
    using service_refines [OF inv h, of "replicate (room_of writable) 0"] spec v(1)
    by (auto simp: refines_request_def)
  define bytes where "bytes = (if st = S_OK then out else [])"
  have mem: "(if st' = S_OK then scatter (host_bytes S ?m) (iov_addrs iov) out' else host_bytes S ?m) =
      scatter (host_bytes S ?m) (iov_addrs iov) bytes"
    by (simp add: bytes_def eq scatter_def)
  note st = put_stores [OF as, of bytes]
  have tr: "dm_ok G sz dm (dm\<lparr>dm_mem := put_bytes S (scatter (host_bytes S ?m) (iov_addrs iov) bytes) ?m,
      dm_dirty := map_option (mark_buffers ?bufs) (dm_dirty dm)\<rparr>)"
    by (rule put_tracked [OF st _ guest_iov_bound [OF Some]]) (auto dest: set_zip_leftD)
  let ?dm' = "dm\<lparr>dm_mem := put_bytes S (scatter (host_bytes S ?m) (iov_addrs iov) bytes) ?m,
      dm_dirty := map_option (mark_buffers ?bufs) (dm_dirty dm)\<rparr>"
  have "read_into_guest S pick be h writable dm = ReadInto st ?dm'"
    using Some v(2) mem eq by (simp add: read_into_guest_def)
  moreover have "served_ok G sz writable be (st, out, disk) dm (Some (st, be, ?dm'))"
    unfolding served_ok_def prod.case
    by (intro exI [of _ be] exI [of _ ?dm'] exI [of _ bytes]) (use inv st tr eq in \<open>simp add: bytes_def\<close>)
  ultimately show ?thesis by simp
qed

lemma serve_blk_ok:
  assumes inv: "backend_inv be" and hd: "blk_header_from_bytes data = Some h"
    and w: "buffers_ok G (dm_mem dm) writable" and room: "room_of writable < 2 ^ 64"
  shows "served_ok G sz writable be
    (chain_request (be_read_only be) (be_sectors be) data (room_of writable) (backend_disk be)) dm
    (serve_blk G S pick h data writable be dm)"
proof -
  let ?ro = "be_read_only be" and ?n = "be_sectors be" and ?D = "backend_disk be"
  note h = conjunct1 [OF header_bytes_ok [OF hd]]
  have wl: "writable_data_len writable = Some (room_of writable)"
    using room total_len_eq [of 0 "data_bufs writable"] by (simp add: writable_data_len_def room_of_def)
  consider (IN) "bh_type h = T_IN" | (OUT) "bh_type h = T_OUT" | (FLUSH) "bh_type h = T_FLUSH"
    | (ID) "bh_type h = T_GET_ID" | (other) "bh_type h \<notin> {T_IN, T_OUT, T_FLUSH, T_GET_ID}" by blast
  then show ?thesis
  proof cases
    case IN
    show ?thesis
    proof (cases "room_of writable = 0")
      case True
      then show ?thesis using IN hd wl served_same [OF inv refl]
        by (simp add: serve_blk_def chain_request_def)
    next
      case False
      obtain st out disk where spec: "disk_request ?ro ?n h (replicate (room_of writable) 0) ?D = (st, out, disk)"
        by (metis prod_cases3)
      have "req_op h = T_IN" using IN by (simp add: req_op_def req_types)
      note ri = read_into_served [OF inv h this spec, where pick = pick and dm = dm and sz = sz]
      show ?thesis
        using IN False hd wl spec ri served_copied [OF inv h w spec, of sz]
        by (cases "read_into_guest S pick be h writable dm") (simp_all add: serve_blk_def chain_request_def)
    qed
  next
    case OUT
    obtain st out disk where spec: "disk_request ?ro ?n h (drop 16 data) ?D = (st, out, disk)" by (metis prod_cases3)
    then show ?thesis using OUT hd served_quiet [OF inv h spec, of sz writable dm]
      by (simp add: serve_blk_def chain_request_def req_types)
  next
    case FLUSH
    have spec: "disk_request ?ro ?n h [] ?D = (S_OK, [], ?D)"
      using FLUSH by (simp add: disk_request_def req_op_def req_types)
    then show ?thesis using FLUSH hd served_quiet [OF inv h spec, of sz writable dm]
      by (simp add: serve_blk_def chain_request_def req_types)
  next
    case ID
    have spec: "disk_request ?ro ?n h (replicate 20 0) ?D = (S_OK, take 20 blk_serial, ?D)"
      using ID by (simp add: disk_request_def req_op_def req_types splice_def blk_serial_def)
    then show ?thesis using ID hd served_copied [OF inv h w spec, of sz]
      by (simp add: serve_blk_def chain_request_def req_types)
  next
    case other
    then show ?thesis using hd served_same [OF inv refl] by (simp add: serve_blk_def chain_request_def)
  qed
qed

end

text \<open>
  A chain and the limiter's answer to it: deferred with nothing changed, or served, with the
  guest told the status of a request on a flat disk.
\<close>

definition chain_outcome ::
  "'m ram_ops \<Rightarrow> u64 \<Rightarrow> buffer list \<Rightarrow> buffer list \<Rightarrow> byte list \<Rightarrow> backend \<Rightarrow> blk_dev \<Rightarrow> bool \<Rightarrow> 'm dmem \<Rightarrow>
   u32 option \<times> blk_run \<times> 'm dmem \<Rightarrow> bool" where
  "chain_outcome G sz readable writable data be d failed dm r \<longleftrightarrow>
     (case rate_limit_allows (chain_charge data (room_of writable)) d of
        (Inl _, d') \<Rightarrow> r = (None, Some (d', True), dm)
      | (Inr False, d') \<Rightarrow> r = (None, Some (d', failed), dm)
      | (Inr True, d') \<Rightarrow>
          (case chain_request (be_read_only be) (be_sectors be) data (room_of writable) (backend_disk be) of
             (st, reply, disk) \<Rightarrow>
               \<exists>be' dm' out.
                 r = (Some (length readable + length writable), Some (d'\<lparr>bd_backend := Some be'\<rparr>, failed), dm') \<and>
                 backend_inv be' \<and> be_sectors be' = be_sectors be \<and> be_read_only be' = be_read_only be \<and>
                 backend_disk be' = disk \<and> (st = S_OK \<longrightarrow> out = reply) \<and>
                 stores G (dm_mem dm) (zip (buf_addrs (data_bufs writable)) out @ status_store writable st) (dm_mem dm') \<and>
                 dm_ok G sz dm dm'))"

lemma failed_fail_device [simp]: "is_failed (fail_device d)"
proof -
  have "(x OR y) AND y = y" for x y :: nat by (rule bit_eqI) (auto simp: bit_simps)
  then show ?thesis by (simp add: is_failed_def fail_device_def DEVICE_NEEDS_RESET_def FAILED_def)
qed

lemma fail_device_frame [simp]:
  "bd_backend (fail_device d) = bd_backend d" "bd_host_dirty (fail_device d) = bd_host_dirty d"
  "bd_poisoned (fail_device d) = bd_poisoned d" "bd_queues (fail_device d) = bd_queues d"
  by (simp_all add: fail_device_def)

lemma rate_limit_allows_frame:
  assumes "rate_limit_allows bytes d = (r, d')"
  shows "bd_backend d' = bd_backend d" and "bd_host_dirty d' = bd_host_dirty d" and "bd_poisoned d' = bd_poisoned d"
    and "bd_queues d' = bd_queues d" and "r = Ok b \<Longrightarrow> bd_status d' = bd_status d"
    and "r = Err e \<Longrightarrow> is_failed d'"
  using assms
  by (auto simp: rate_limit_allows_def split: if_splits option.splits prod.splits)

context guest_slices
begin

lemma blk_handler_served:
  assumes w: "buffers_ok G (dm_mem dm) writable" and room: "room_of writable < 2 ^ 64"
    and inv: "backend_inv be" and be: "bd_backend d = Some be" and data: "read_descs G (dm_mem dm) readable = Some data"
  shows "chain_outcome G sz readable writable data be d failed dm (blk_handler G S pick (Some (d, failed)) dm readable writable)"
proof -
  define bytes where "bytes = chain_charge data (room_of writable)"
  obtain a d' where al: "rate_limit_allows bytes d = (a, d')" by fastforce
  have be': "bd_backend d' = Some be" using rate_limit_allows_frame(1) [OF al] be by simp
  then have same: "d'\<lparr>bd_backend := Some be\<rparr> = d'" by (metis blk_dev.surjective blk_dev.update_convs(12) blk_dev.select_convs(12))
  obtain st reply disk where spec:
    "chain_request (be_read_only be) (be_sectors be) data (room_of writable) (backend_disk be) = (st, reply, disk)"
    by (metis prod_cases3)
  show ?thesis
  proof (cases "blk_header_from_bytes data")
    case None
    then have "bytes = 0" and sp: "st = S_IO_ERR" "disk = backend_disk be"
      using spec by (simp_all add: bytes_def chain_charge_def chain_request_def)
    note ws = write_status_stores [OF w, of S_IO_ERR sz]
    have "blk_handler G S pick (Some (d, failed)) dm readable writable =
        admit bytes d failed dm (\<lambda>d'. (Some (length readable + length writable), Some (d', failed), write_status G writable S_IO_ERR dm))"
      using None data \<open>bytes = 0\<close> by (simp add: blk_handler_def)
    moreover have "\<exists>be' dm' out. (Some (length readable + length writable), Some (d', failed), write_status G writable S_IO_ERR dm) =
          (Some (length readable + length writable), Some (d'\<lparr>bd_backend := Some be'\<rparr>, failed), dm') \<and>
          backend_inv be' \<and> be_sectors be' = be_sectors be \<and> be_read_only be' = be_read_only be \<and>
          backend_disk be' = disk \<and> (st = S_OK \<longrightarrow> out = reply) \<and>
          stores G (dm_mem dm) (zip (buf_addrs (data_bufs writable)) out @ status_store writable st) (dm_mem dm') \<and>
          dm_ok G sz dm dm'"
      using ws inv same sp S_IO_ERR_not_OK
      by (intro exI [of _ be] exI [of _ "write_status G writable S_IO_ERR dm"] exI [of _ "[]"])
        simp
    ultimately show ?thesis
      using al spec unfolding chain_outcome_def bytes_def [symmetric] admit_def
      by (auto split: sum.split bool.split)
  next
    case (Some h)
    have rb: "request_bytes h (length data) writable = Some bytes"
      using Some header_bytes_ok [OF Some] room total_len_eq [of 0 "data_bufs writable"]
      by (simp add: request_bytes_def bytes_def chain_charge_def checked_sub_def writable_data_len_def room_of_def)
    obtain be2 dm2 out where sv: "serve_blk G S pick h data writable be dm = Some (st, be2, dm2)" "backend_inv be2"
      "be_sectors be2 = be_sectors be" "be_read_only be2 = be_read_only be" "backend_disk be2 = disk"
      "st = S_OK \<longrightarrow> out = reply" "stores G (dm_mem dm) (zip (buf_addrs (data_bufs writable)) out) (dm_mem dm2)"
      "dm_ok G sz dm dm2"
      using serve_blk_ok [OF inv Some w room, of sz pick] spec by (auto simp: served_ok_def)
    have "buffers_ok G (dm_mem dm2) writable" using w buffers_ok_chk [OF dm_ok_chk [OF sv(8)]] by simp
    note ws = write_status_stores [OF this, of st sz]
    have "blk_handler G S pick (Some (d, failed)) dm readable writable = admit bytes d failed dm (\<lambda>d'.
        case Option.bind (bd_backend d') (\<lambda>be. serve_blk G S pick h data writable be dm) of
          None \<Rightarrow> (None, None, dm)
        | Some (st, be, dm') \<Rightarrow>
            (Some (length readable + length writable), Some (d'\<lparr>bd_backend := Some be\<rparr>, failed), write_status G writable st dm'))"
      using Some data rb by (simp add: blk_handler_def Let_def)
    moreover have "stores G (dm_mem dm) (zip (buf_addrs (data_bufs writable)) out @ status_store writable st)
        (dm_mem (write_status G writable st dm2))" "dm_ok G sz dm (write_status G writable st dm2)"
      using stores_trans [OF sv(7)] dm_ok_trans [OF sv(8)] ws by blast+
    ultimately show ?thesis
      using al spec sv(1-6) be' unfolding chain_outcome_def bytes_def [symmetric] admit_def
      by (auto split: sum.split bool.split)
  qed
qed

end

section \<open>Passes\<close>

text \<open>
  What a pass keeps when its handler keeps an invariant of its state and tracks what it writes,
  on chains of the size the walker lets through.
\<close>

definition handler_keeps :: "'m ram_ops \<Rightarrow> u64 \<Rightarrow> ('s \<Rightarrow> bool) \<Rightarrow> ('s, 'm) desc_handler \<Rightarrow> bool" where
  "handler_keeps G sz I h \<longleftrightarrow> (\<forall>s dm r w x s' dm'. I s \<longrightarrow> h s dm r w = (x, s', dm') \<longrightarrow>
     buffers_ok G (dm_mem dm) r \<longrightarrow> buffers_ok G (dm_mem dm) w \<longrightarrow>
     sum_list (map snd r) + sum_list (map snd w) \<le> MAX_CHAIN_BYTES \<longrightarrow> I s' \<and> dm_ok G sz dm dm')"

definition pass_ok :: "'m ram_ops \<Rightarrow> u64 \<Rightarrow> ('s \<Rightarrow> bool) \<Rightarrow> ('s, 'm) progress \<Rightarrow> ('s, 'm) progress \<Rightarrow> bool" where
  "pass_ok G sz I p p' \<longleftrightarrow> vq_config (pr_vq p') = vq_config (pr_vq p) \<and> vq_event_idx (pr_vq p') = vq_event_idx (pr_vq p) \<and>
     vq_peeked (pr_vq p') = vq_peeked (pr_vq p) \<and> I (pr_state p') \<and> dm_ok G sz (pr_dm p) (pr_dm p')"

text \<open>The used ring with its event field, where the driver negotiated events.\<close>

definition event_mapped :: "'m ram_ops \<Rightarrow> 'm \<Rightarrow> vq \<Rightarrow> bool" where
  "event_mapped G m q \<longleftrightarrow>
     (vq_event_idx q \<longrightarrow> chk G m (q_used (vq_config q)) (used_bytes (vq_config q) + 2))"

lemma pass_ok_trans: "pass_ok G sz I p p' \<Longrightarrow> pass_ok G sz I p' p'' \<Longrightarrow> pass_ok G sz I p p''"
  using dm_ok_trans by (auto simp: pass_ok_def)

lemma pass_ok_usable:
  "pass_ok G sz I p p' \<Longrightarrow> queue_is_usable G (dm_mem (pr_dm p)) (vq_config (pr_vq p)) \<Longrightarrow>
   queue_is_usable G (dm_mem (pr_dm p')) (vq_config (pr_vq p'))"
  using usable_chk [OF dm_ok_chk, of G sz "pr_dm p" "pr_dm p'"] by (simp add: pass_ok_def)

lemma pass_ok_event:
  "pass_ok G sz I p p' \<Longrightarrow> event_mapped G (dm_mem (pr_dm p)) (pr_vq p) \<Longrightarrow> event_mapped G (dm_mem (pr_dm p')) (pr_vq p')"
  using dm_ok_chk [of G sz "pr_dm p" "pr_dm p'"] by (simp add: pass_ok_def event_mapped_def)

lemma split_sum: "sum_list (map f (filter P xs)) + sum_list (map f (filter (\<lambda>x. \<not> P x) xs)) = (sum_list (map f xs) :: nat)"
  by (induction xs) auto

lemma walk_bytes:
  assumes "walk_descriptor_chain G m cfg head = Some c"
  shows "sum_list (map snd (ch_readable c)) + sum_list (map snd (ch_writable c)) \<le> MAX_CHAIN_BYTES"
proof -
  obtain ds where ds: "chain_bytes_of ds \<le> MAX_CHAIN_BYTES" "c = chain_of ds" using assms by (auto simp: walk_chain_iff)
  have "sum_list (map snd (ch_readable c)) + sum_list (map snd (ch_writable c)) = chain_bytes_of ds"
    using split_sum [of "\<lambda>x. d_len (snd x)" "\<lambda>x. d_flags (snd x) AND F_WRITE = 0" ds]
    by (simp add: ds(2) chain_of_def chain_bytes_of_def comp_def desc_buffer_def case_prod_unfold)
  then show ?thesis using ds(1) by simp
qed

context guest_ram
begin

lemma loop_step_pass:
  assumes h: "handler_keeps G sz I h" and u: "queue_is_usable G (dm_mem (pr_dm p)) (vq_config (pr_vq p))"
    and "I (pr_state p)"
  shows "case loop_step G h i p of Inl r \<Rightarrow> pass_ok G sz I p (snd r) | Inr p' \<Rightarrow> pass_ok G sz I p p'"
proof (cases "vq_last_avail (pr_vq p) = i \<or> next_head G p = None")
  case True
  then show ?thesis using assms(3) by (auto simp: loop_step_def pass_ok_def)
next
  case False
  then obtain head where hd: "vq_last_avail (pr_vq p) \<noteq> i" "next_head G p = Some head" by auto
  show ?thesis
  proof (cases "walk_descriptor_chain G (dm_mem (pr_dm p)) (vq_config (pr_vq p)) head")
    case None
    then show ?thesis using hd assms(3) by (simp add: loop_step_def pass_ok_def reject_available_chain_def)
  next
    case (Some c)
    obtain x s dm where hx: "h (pr_state p) (pr_dm p) (ch_readable c) (ch_writable c) = (x, s, dm)" by (metis prod_cases3)
    have k: "I s" "dm_ok G sz (pr_dm p) dm"
      using h [unfolded handler_keeps_def, rule_format, OF assms(3) hx walk_buffers_ok [OF Some] walk_bytes [OF Some]]
      by simp_all
    define p1 where "p1 = p\<lparr>pr_state := s, pr_dm := dm\<rparr>"
    have p1: "pass_ok G sz I p p1" using k by (simp add: pass_ok_def p1_def)
    obtain addr where addr: "used_entry_addr (vq_config (pr_vq p)) (vq_last_used (pr_vq p)) = Some addr"
      using used_entry_usable [OF u] by metis
    have "advances G sz i p1 (use_chain G head len addr p1)" for len
      by (rule advances_use [OF pass_ok_usable [OF p1 u]]) (use addr hd in \<open>simp_all add: p1_def\<close>)
    then have "pass_ok G sz I p1 (use_chain G head len addr p1)" for len
      using k by (simp add: pass_ok_def advances_def p1_def)
    then have "pass_ok G sz I p (use_chain G head len addr p1)" for len by (rule pass_ok_trans [OF p1])
    then show ?thesis
      using hd Some hx addr p1 by (simp add: loop_step_def p1_def Let_def split: option.split)
  qed
qed

lemma descriptors_loop_pass:
  assumes h: "handler_keeps G sz I h"
  shows "queue_is_usable G (dm_mem (pr_dm p)) (vq_config (pr_vq p)) \<Longrightarrow> I (pr_state p) \<Longrightarrow>
    pass_ok G sz I p (snd (descriptors_loop G h i p))"
proof (induction p rule: loop_induct [where G = G and h = h and i = i])
  case (step p)
  note s = loop_step_pass [OF h step.prems, of i]
  show ?case
  proof (cases "loop_step G h i p")
    case (Inl r)
    then show ?thesis using s by (subst descriptors_loop_step) simp
  next
    case (Inr p')
    then have p': "pass_ok G sz I p p'" using s by simp
    moreover have "pass_ok G sz I p' (snd (descriptors_loop G h i p'))"
      by (rule step.IH [OF Inr pass_ok_usable [OF p' step.prems(1)]]) (use p' in \<open>simp add: pass_ok_def\<close>)
    ultimately show ?thesis using Inr by (subst descriptors_loop_step) (simp add: pass_ok_trans)
  qed
qed

lemma publish_event_ok:
  assumes "chk G (dm_mem dm) (q_used cfg) (used_bytes cfg + 2)"
  shows "dm_ok G sz dm (publish_avail_event G seen cfg dm)"
proof (cases "avail_event_addr cfg")
  case None
  then show ?thesis by (simp add: publish_avail_event_def)
next
  case (Some a)
  then have a: "a = q_used cfg + used_bytes cfg"
    by (auto simp: avail_event_addr_def checked_add_def checked_mul_def bind_eq_Some_conv used_bytes_def split: if_splits)
  have "to_le 2 (unat seen) \<noteq> []" by (metis length_to_le list.size(3) zero_neq_numeral)
  then show ?thesis
    using write_mem_chk(2) [OF assms, of a "to_le 2 (unat seen)"] Some a
    by (simp add: publish_avail_event_def write_u16_def)
qed

text \<open>One round of the outer loop, up to its last write.\<close>

lemma outer_round_pass:
  assumes "handler_keeps G sz I h" and u: "queue_is_usable G (dm_mem (pr_dm p)) (vq_config (pr_vq p))"
    and "I (pr_state p)" and e: "event_mapped G (dm_mem (pr_dm p)) (pr_vq p)"
    and p1: "p1 = snd (descriptors_loop G h i p)"
    and p2: "p2 = p1\<lparr>pr_dm := publish_used_idx G (pr_vq p1) (pr_dm p1)\<rparr>"
    and p3: "p3 = p2\<lparr>pr_dm := publish_avail_event G (vq_last_avail (pr_vq p2)) (vq_config (pr_vq p2)) (pr_dm p2)\<rparr>"
  shows "pass_ok G sz I p p2" and "vq_event_idx (pr_vq p2) \<Longrightarrow> pass_ok G sz I p p3"
proof -
  have a1: "pass_ok G sz I p p1" using descriptors_loop_pass [OF assms(1-3)] by (simp add: p1)
  have "pass_ok G sz I p1 p2"
    using publish_used_idx_ok(1) [OF pass_ok_usable [OF a1 u]] a1 by (simp add: pass_ok_def p2)
  with a1 show a2: "pass_ok G sz I p p2" by (rule pass_ok_trans)
  assume "vq_event_idx (pr_vq p2)"
  then have "chk G (dm_mem (pr_dm p2)) (q_used (vq_config (pr_vq p2))) (used_bytes (vq_config (pr_vq p2)) + 2)"
    using pass_ok_event [OF a2 e] by (simp add: event_mapped_def)
  then have "pass_ok G sz I p2 p3" using publish_event_ok a2 by (simp add: pass_ok_def p3)
  with a2 show "pass_ok G sz I p p3" by (rule pass_ok_trans)
qed

lemma descriptors_outer_pass:
  assumes "descriptors_outer G h p = Some p'" and "handler_keeps G sz I h"
    and "queue_is_usable G (dm_mem (pr_dm p)) (vq_config (pr_vq p))" and "I (pr_state p)"
    and "event_mapped G (dm_mem (pr_dm p)) (pr_vq p)"
  shows "pass_ok G sz I p p'"
proof -
  have "G' = G \<longrightarrow> h' = h \<longrightarrow> queue_is_usable G (dm_mem (pr_dm p)) (vq_config (pr_vq p)) \<longrightarrow> I (pr_state p) \<longrightarrow>
      event_mapped G (dm_mem (pr_dm p)) (pr_vq p) \<longrightarrow> pass_ok G sz I p y"
    if "descriptors_outer G' h' p = Some y" for G' h' p y
    using that
  proof (induction rule: descriptors_outer.raw_induct [rotated, consumes 1, case_names step])
    case (step rec G' h' p y)
    show ?case
    proof (intro impI)
      assume eq: "G' = G" "h' = h" and u: "queue_is_usable G (dm_mem (pr_dm p)) (vq_config (pr_vq p))"
        and st: "I (pr_state p)" and e: "event_mapped G (dm_mem (pr_dm p)) (pr_vq p)"
      obtain i where i: "read_avail_idx G (dm_mem (pr_dm p)) (vq_config (pr_vq p)) = Some i"
        using read_avail_usable [OF u] by blast
      obtain stopped p1 where l: "descriptors_loop G h i p = (stopped, p1)" by fastforce
      define p2 where "p2 = p1\<lparr>pr_dm := publish_used_idx G (pr_vq p1) (pr_dm p1)\<rparr>"
      define p3 where
        "p3 = p2\<lparr>pr_dm := publish_avail_event G (vq_last_avail (pr_vq p2)) (vq_config (pr_vq p2)) (pr_dm p2)\<rparr>"
      have p1: "p1 = snd (descriptors_loop G h i p)" using l by simp
      note r = outer_round_pass [OF assms(2) u st e p1 p2_def p3_def]
      have res: "(if \<not> vq_event_idx (pr_vq p2) then Some p2
          else if stopped then Some p3
          else case reread_avail_idx G (dm_mem (pr_dm p3)) (vq_config (pr_vq p3)) of
            None \<Rightarrow> Some p3
          | Some idx \<Rightarrow> if idx \<noteq> vq_last_avail (pr_vq p3) then rec G h p3 else Some p3) = Some y"
        using step(2) unfolding eq i l option.case prod.case Let_def p3_def p2_def .
      show "pass_ok G sz I p y"
      proof (cases "vq_event_idx (pr_vq p2)")
        case False
        then show ?thesis using res r(1) by simp
      next
        case True
        note a3 = r(2) [OF True]
        have "pass_ok G sz I p3 y" if "rec G h p3 = Some y"
          using step(1) [OF that] pass_ok_usable [OF a3 u] pass_ok_event [OF a3 e] a3 by (simp add: pass_ok_def)
        then show ?thesis using res True a3 pass_ok_trans [OF a3] by (auto split: if_splits option.splits)
      qed
    qed
  qed
  then show ?thesis using assms by blast
qed

end

section \<open>Passes of the device\<close>

text \<open>The fields a queue pass leaves alone.\<close>

definition same_frame :: "blk_dev \<Rightarrow> blk_dev \<Rightarrow> bool" where
  "same_frame d e \<longleftrightarrow> bd_irq e = bd_irq d \<and> bd_device_id e = bd_device_id d \<and> bd_vendor_id e = bd_vendor_id d \<and>
     bd_version e = bd_version d \<and> bd_queue_sel e = bd_queue_sel d \<and>
     bd_host_features_sel e = bd_host_features_sel d \<and> bd_guest_features_sel e = bd_guest_features_sel d \<and>
     bd_guest_features_low e = bd_guest_features_low d \<and> bd_guest_features_high e = bd_guest_features_high d \<and>
     bd_queues e = bd_queues d \<and> bd_guest_mem e = bd_guest_mem d \<and> bd_host_dirty e = bd_host_dirty d \<and>
     bd_notify_count e = bd_notify_count d \<and> bd_status_writes e = bd_status_writes d \<and>
     bd_poisoned e = bd_poisoned d"

definition same_disk :: "backend \<Rightarrow> backend \<Rightarrow> bool" where
  "same_disk be be' \<longleftrightarrow> backend_inv be' \<and> be_sectors be' = be_sectors be \<and> be_read_only be' = be_read_only be"

text \<open>The handler's state during a pass of the device \<open>d0\<close>; it is never that of a panic.\<close>

definition running :: "blk_dev \<Rightarrow> backend \<Rightarrow> blk_run \<Rightarrow> bool" where
  "running d0 be0 s \<longleftrightarrow>
     (\<exists>d failed be. s = Some (d, failed) \<and> bd_backend d = Some be \<and> same_disk be0 be \<and> same_frame d0 d \<and>
        bd_interrupt_status d = bd_interrupt_status d0 \<and> bd_irq_evt d = bd_irq_evt d0 \<and>
        (failed \<longrightarrow> is_failed d))"

lemma same_frame_refl [simp]: "same_frame d d"
  by (simp add: same_frame_def)

lemma same_frame_trans: "same_frame d e \<Longrightarrow> same_frame e f \<Longrightarrow> same_frame d f"
  by (simp add: same_frame_def)

lemma same_frame_upd [simp]:
  "same_frame d (e\<lparr>bd_backend := b\<rparr>) = same_frame d e" "same_frame d (e\<lparr>bd_processor := v\<rparr>) = same_frame d e"
  "same_frame d (e\<lparr>bd_interrupt_status := i\<rparr>) = same_frame d e" "same_frame d (e\<lparr>bd_irq_evt := j\<rparr>) = same_frame d e"
  "same_frame d (e\<lparr>bd_rate_limiter := l\<rparr>) = same_frame d e" "same_frame d (fail_device e) = same_frame d e"
  by (simp_all add: same_frame_def fail_device_def)

lemma same_disk_trans: "same_disk a b \<Longrightarrow> same_disk b c \<Longrightarrow> same_disk a c"
  by (simp add: same_disk_def)

lemma is_failed_upd [simp]:
  "is_failed (d\<lparr>bd_backend := b\<rparr>) = is_failed d" "is_failed (d\<lparr>bd_rate_limiter := l\<rparr>) = is_failed d"
  "is_failed (d\<lparr>bd_processor := v\<rparr>) = is_failed d" "is_failed (d\<lparr>bd_interrupt_status := i\<rparr>) = is_failed d"
  "is_failed (d\<lparr>bd_irq_evt := j\<rparr>) = is_failed d" "is_failed (d\<lparr>bd_notify_count := n\<rparr>) = is_failed d"
  by (simp_all add: is_failed_def)

lemma rate_limit_allows_running:
  assumes "rate_limit_allows bytes d = (r, d')"
  shows "same_frame d d'" and "bd_interrupt_status d' = bd_interrupt_status d" and "bd_irq_evt d' = bd_irq_evt d"
    and "is_failed d \<Longrightarrow> is_failed d'"
  using assms
  by (auto simp: rate_limit_allows_def fail_device_def same_frame_def split: if_splits option.splits prod.splits)
    (simp_all flip: fail_device_def)

context guest_slices
begin

lemma chain_outcome_running:
  assumes r: "running d0 be0 (Some (d, failed))" and be: "bd_backend d = Some be"
    and o: "chain_outcome G sz readable writable data be d failed dm (x, s', dm')"
  shows "running d0 be0 s' \<and> dm_ok G sz dm dm'"
proof -
  obtain a d' where al: "rate_limit_allows (chain_charge data (room_of writable)) d = (a, d')" by fastforce
  note f = rate_limit_allows_running [OF al] and b = rate_limit_allows_frame [OF al]
  have d: "same_disk be0 be" "same_frame d0 d" "bd_interrupt_status d = bd_interrupt_status d0"
    "bd_irq_evt d = bd_irq_evt d0" "failed \<longrightarrow> is_failed d"
    using r be by (auto simp: running_def)
  have d': "same_frame d0 d'" "bd_backend d' = Some be" "failed \<longrightarrow> is_failed d'"
    using same_frame_trans [OF d(2) f(1)] b(1) be f(4) d(5) by auto
  show ?thesis
  proof (cases a)
    case (Inl e)
    then have "(x, s', dm') = (None, Some (d', True), dm)" using o al by (simp add: chain_outcome_def)
    then show ?thesis using d d' f b(6) [OF Inl] by (auto simp: running_def)
  next
    case (Inr ok)
    show ?thesis
    proof (cases ok)
      case False
      then have "(x, s', dm') = (None, Some (d', failed), dm)" using o al Inr by (simp add: chain_outcome_def)
      then show ?thesis using d d' f by (auto simp: running_def)
    next
      case True
      obtain be' where s': "s' = Some (d'\<lparr>bd_backend := Some be'\<rparr>, failed)" "backend_inv be'"
        "be_sectors be' = be_sectors be" "be_read_only be' = be_read_only be" "dm_ok G sz dm dm'"
        using o al Inr True by (auto simp: chain_outcome_def split: prod.splits)
      then have "same_disk be0 be'" using d(1) by (simp add: same_disk_def)
      then show ?thesis using d d' f s' by (auto simp: running_def)
    qed
  qed
qed

lemma read_descs_ok:
  assumes "buffers_ok G m bufs" and "sum_list (map snd bufs) \<le> MAX_CHAIN_BYTES"
  shows "\<exists>data. read_descs G m bufs = Some data \<and> length data = sum_list (map snd bufs) \<and>
    (\<forall>i < length data. rd G m (buf_addrs bufs ! i) 1 = Some [data ! i])"
proof -
  have "sum_list (map snd bufs) < 2 ^ 64" using assms(2) by (simp add: MAX_CHAIN_BYTES_def)
  then show ?thesis
    using read_each_ok [OF assms(1), of "[]"] total_len_eq [of 0 bufs] by (auto simp: read_descs_def)
qed

lemma room_le: "room_of writable \<le> sum_list (map snd writable)"
proof -
  have "sum_list (map snd writable) =
      sum_list (map snd (data_bufs writable)) + sum_list (map snd (drop (length writable - 1) writable))"
    unfolding data_bufs_def by (simp flip: sum_list_append map_append)
  then show ?thesis by (simp add: room_of_def)
qed

lemma blk_handler_keeps: "handler_keeps G sz (running d0 be0) (blk_handler G S pick)"
  unfolding handler_keeps_def
proof (intro allI impI)
  fix s dm r w x s' dm'
  assume run: "running d0 be0 s" and h: "blk_handler G S pick s dm r w = (x, s', dm')"
    and bufs: "buffers_ok G (dm_mem dm) r" "buffers_ok G (dm_mem dm) w"
    and sm: "sum_list (map snd r) + sum_list (map snd w) \<le> MAX_CHAIN_BYTES"
  obtain d failed be where s: "s = Some (d, failed)" "bd_backend d = Some be" "backend_inv be"
    using run by (auto simp: running_def same_disk_def)
  obtain data where data: "read_descs G (dm_mem dm) r = Some data" using read_descs_ok [OF bufs(1)] sm by auto
  have room: "room_of w < 2 ^ 64" using room_le [of w] sm by (simp add: MAX_CHAIN_BYTES_def)
  have "chain_outcome G sz r w data be d failed dm (x, s', dm')"
    using blk_handler_served [OF bufs(2) room s(3,2) data, of sz failed pick] h s(1) by simp
  then show "running d0 be0 s' \<and> dm_ok G sz dm dm'"
    using chain_outcome_running [OF _ s(2)] run s(1) by blast
qed

end

text \<open>What a call of \<open>process_queue\<close> may do to the device and to memory.\<close>

definition backends_kept :: "blk_dev \<Rightarrow> blk_dev \<Rightarrow> bool" where
  "backends_kept d e \<longleftrightarrow> rel_option same_disk (bd_backend d) (bd_backend e)"

definition process_ok ::
  "'m ram_ops \<Rightarrow> u64 \<Rightarrow> 'm dmem \<Rightarrow> blk_dev \<Rightarrow> (mmio_error + unit) \<times> 'm dmem \<times> blk_dev \<Rightarrow> bool" where
  "process_ok G sz dm d r \<longleftrightarrow>
     (case r of (res, dm', d') \<Rightarrow>
        same_frame d d' \<and> backends_kept d d' \<and> res = (if is_failed d' then Err Device else Ok ()) \<and>
        (bd_host_dirty d \<longrightarrow> dm_ok G sz dm dm') \<and> (\<not> bd_host_dirty d \<longrightarrow> dm_dirty dm' = dm_dirty dm))"

definition pass_event_mapped :: "'m ram_ops \<Rightarrow> 'm \<Rightarrow> blk_dev \<Rightarrow> bool" where
  "pass_event_mapped G m d \<longleftrightarrow>
     (case bd_queues d of [] \<Rightarrow> True | q # _ \<Rightarrow> event_mapped G m (blk_pass_processor (blk_queue_config q) d))"

definition blk_backend_ok :: "blk_dev \<Rightarrow> bool" where
  "blk_backend_ok d \<longleftrightarrow> pred_option backend_inv (bd_backend d)"

lemma backends_kept_same: "blk_backend_ok d \<Longrightarrow> bd_backend e = bd_backend d \<Longrightarrow> backends_kept d e"
  by (cases "bd_backend d") (simp_all add: backends_kept_def blk_backend_ok_def same_disk_def)

lemma process_ok_same: "blk_backend_ok d \<Longrightarrow> \<not> is_failed d \<Longrightarrow> process_ok G sz dm d (Ok (), dm, d\<lparr>bd_processor := v\<rparr>)"
  "blk_backend_ok d \<Longrightarrow> \<not> is_failed d \<Longrightarrow> process_ok G sz dm d (Ok (), dm, d)"
  by (simp_all add: process_ok_def backends_kept_same)

lemma process_ok_fail: "blk_backend_ok d \<Longrightarrow> process_ok G sz dm d (Err Device, dm, fail_device d)"
  "blk_backend_ok d \<Longrightarrow> process_ok G sz dm d (Err Device, dm, fail_device (d\<lparr>bd_processor := v\<rparr>))"
  "blk_backend_ok d \<Longrightarrow> is_failed d \<Longrightarrow> process_ok G sz dm d (Err Device, dm, d)"
  by (simp_all add: process_ok_def backends_kept_same)

text \<open>The end of a pass.\<close>

lemma after_pass_ok:
  assumes run: "running d0 be0 (pr_state p)" and be0: "bd_backend d = Some be0" and fr: "same_frame d d0"
    and dm: "dm_ok G sz (blk_pass_memory d dm) (pr_dm p)"
  shows "\<exists>r. blk_after_pass G old dm p = Some r \<and> process_ok G sz dm d r"
proof -
  obtain e failed be where s: "pr_state p = Some (e, failed)" "bd_backend e = Some be" "same_disk be0 be"
    "same_frame d0 e" "failed \<longrightarrow> is_failed e"
    using run by (auto simp: running_def)
  have fe: "same_frame d e" using fr s(4) by (rule same_frame_trans)
  then have hd: "bd_host_dirty e = bd_host_dirty d" by (simp add: same_frame_def)
  have dm': "bd_host_dirty d \<longrightarrow> dm_ok G sz dm (pr_dm p)" using dm by (auto simp: blk_pass_memory_def)
  show ?thesis
    using s fe hd dm' be0
    by (cases "0 < pr_done p \<and> needs_notification G (dm_mem (pr_dm p)) old (pr_vq p)"; cases "L_irq_evt \<in> bd_poisoned e")
      (auto simp: blk_after_pass_def process_ok_def blk_trigger_interrupt_def Let_def backends_kept_def)
qed

context guest_slices
begin

lemma blk_process_ok:
  assumes be: "blk_backend_ok d" and ev: "pass_event_mapped G (dm_mem dm) d"
    and res: "blk_process_queue G S pick dm d = Some r"
  shows "process_ok G sz dm d r"
proof (cases "is_failed d \<or> L_guest_mem \<in> bd_poisoned d \<or> \<not> bd_guest_mem d \<or> L_host_dirty \<in> bd_poisoned d \<or>
    L_queues \<in> bd_poisoned d \<or> bd_queues d = [] \<or> \<not> qs_ready (hd (bd_queues d)) \<or> \<not> valid_size (hd (bd_queues d)) \<or>
    L_processor \<in> bd_poisoned d \<or> L_backend \<in> bd_poisoned d \<or> bd_backend d = None")
  case True
  then show ?thesis
    using res be
    by (auto simp: blk_process_queue_def Let_def process_ok_same process_ok_fail split: if_splits list.splits)
next
  case False
  then obtain q qs be0 where q: "bd_queues d = q # qs" "bd_backend d = Some be0"
    by (cases "bd_queues d") auto
  define vq where "vq = blk_pass_processor (blk_queue_config q) d"
  define d1 where "d1 = d\<lparr>bd_processor := Some vq\<rparr>"
  obtain p where p: "process_queue_descriptors_dirty G (blk_handler G S pick) vq (Some (d1, False)) (blk_pass_memory d dm) = Some p"
    and r: "blk_after_pass G (vq_last_used vq) dm p = Some r"
    using res False q by (auto simp: blk_process_queue_def vq_def d1_def Let_def bind_eq_Some_conv split: if_splits)
  let ?p0 = "\<lparr>pr_vq = vq, pr_state = Some (d1, False), pr_dm = blk_pass_memory d dm, pr_done = 0\<rparr>"
  have run: "running d1 be0 (Some (d1, False))"
    using q(2) be by (auto simp: running_def d1_def same_disk_def blk_backend_ok_def)
  have "running d1 be0 (pr_state p) \<and> dm_ok G sz (blk_pass_memory d dm) (pr_dm p)"
  proof (cases "queue_is_usable G (dm_mem (blk_pass_memory d dm)) (vq_config vq)")
    case False
    then show ?thesis using p run by (auto simp: process_queue_descriptors_dirty_def)
  next
    case True
    then have "descriptors_outer G (blk_handler G S pick) ?p0 = Some p"
      using p by (simp add: process_queue_descriptors_dirty_def Let_def)
    moreover have "event_mapped G (dm_mem (pr_dm ?p0)) (pr_vq ?p0)"
      using ev q(1) by (simp add: pass_event_mapped_def vq_def blk_pass_memory_def)
    ultimately have "pass_ok G sz (running d1 be0) ?p0 p"
      using descriptors_outer_pass [OF _ blk_handler_keeps, of pick ?p0 p d1 be0 sz] True run by simp
    then show ?thesis by (simp add: pass_ok_def)
  qed
  then show ?thesis
    using after_pass_ok [of d1 be0 p d G sz dm "vq_last_used vq"] r q(2) by (simp add: d1_def)
qed

end

end
