(* ===== verification/BlkDeviceRuns.thy ===== *)
theory BlkDeviceRuns
  imports BlkDeviceProofs
begin

text \<open>
  The block device driven by a guest: sequences of register accesses with the guest's own
  stores between them. Two devices that differ in how their processors were made and in
  their counters answer every such sequence alike, and a failed device answers it with errors.
\<close>

section \<open>Accesses\<close>

datatype blk_access = BlkRead u64 | BlkWrite u64 u64 | DriverStore u64 "byte list"

text \<open>The answers, memory and the device after a sequence; \<open>None\<close> as for a single access.\<close>

primrec blk_accesses ::
  "'m ram_ops \<Rightarrow> 'm slice_ops \<Rightarrow> (nat \<Rightarrow> nat) \<Rightarrow> blk_access list \<Rightarrow> 'm dmem \<Rightarrow> blk_dev \<Rightarrow>
   ((mmio_error + u64) list \<times> 'm dmem \<times> blk_dev) option" where
  "blk_accesses G S pick [] dm d = Some ([], dm, d)"
| "blk_accesses G S pick (a # as) dm d =
     (case a of
        BlkRead off \<Rightarrow>
          (case blk_mmio_read off d of (v, d') \<Rightarrow> map_option (apfst ((#) (Ok v))) (blk_accesses G S pick as dm d'))
      | BlkWrite off v \<Rightarrow>
          Option.bind (blk_mmio_write G S pick off v dm d) (\<lambda>(r, dm', d').
            map_option (apfst ((#) (case r of Inl e \<Rightarrow> Err e | Inr _ \<Rightarrow> Ok 0))) (blk_accesses G S pick as dm' d'))
      | DriverStore addr bytes \<Rightarrow>
          blk_accesses G S pick as (dm\<lparr>dm_mem := snd (wr G (dm_mem dm) addr bytes)\<rparr>) d)"

section \<open>Devices that cannot be told apart\<close>

definition blk_cursor :: "vq \<Rightarrow> vq \<Rightarrow> bool" where
  "blk_cursor q q' \<longleftrightarrow> vq_peeked q = [] \<and> vq_peeked q' = [] \<and> vq_save_state q' = vq_save_state q"

definition blk_twin :: "blk_dev \<Rightarrow> blk_dev \<Rightarrow> bool" where
  "blk_twin d e \<longleftrightarrow> bd_irq e = bd_irq d \<and> bd_device_id e = bd_device_id d \<and> bd_vendor_id e = bd_vendor_id d \<and>
     bd_version e = bd_version d \<and> bd_status e = bd_status d \<and> bd_queue_sel e = bd_queue_sel d \<and>
     bd_host_features_sel e = bd_host_features_sel d \<and> bd_guest_features_sel e = bd_guest_features_sel d \<and>
     bd_guest_features_low e = bd_guest_features_low d \<and> bd_guest_features_high e = bd_guest_features_high d \<and>
     bd_queues e = bd_queues d \<and> bd_backend e = bd_backend d \<and> bd_guest_mem e = bd_guest_mem d \<and>
     bd_host_dirty e = bd_host_dirty d \<and> bd_activated e = bd_activated d \<and>
     rel_option blk_cursor (bd_processor d) (bd_processor e) \<and> bd_rate_limiter e = bd_rate_limiter d \<and>
     bd_interrupt_status e = bd_interrupt_status d \<and> bd_irq_evt e = bd_irq_evt d \<and> bd_poisoned e = bd_poisoned d"

lemma blk_cursor_update:
  "blk_cursor q q' \<Longrightarrow> set_event_idx on (update_config cfg q') = set_event_idx on (update_config cfg q)"
  "blk_cursor q q' \<Longrightarrow> vq_peeked (set_event_idx on (update_config cfg q)) = []"
  by (cases q; cases q'; simp add: blk_cursor_def vq_save_state_def update_config_def set_event_idx_def)+

lemma blk_cursor_refl [simp]: "blk_cursor q q \<longleftrightarrow> vq_peeked q = []"
  by (auto simp: blk_cursor_def)

lemma blk_twin_processor:
  assumes "blk_twin d e"
  shows "blk_pass_processor cfg e = blk_pass_processor cfg d" and "vq_peeked (blk_pass_processor cfg d) = []"
  using assms blk_cursor_update
  by (cases "bd_processor d"; cases "bd_processor e";
      auto simp: blk_twin_def blk_pass_processor_def vq_new_def vq_new_with_indices_def set_event_idx_def)+

lemma twin_fail: "blk_twin d e \<Longrightarrow> blk_twin (fail_device d) (fail_device e)"
  by (simp add: blk_twin_def fail_device_def)

lemma twin_failed: "blk_twin d e \<Longrightarrow> is_failed e = is_failed d"
  by (simp add: blk_twin_def is_failed_def)

lemma twin_lock: "blk_twin d e \<Longrightarrow> blk_twin (lock_state l d) (lock_state l e)"
  by (simp add: lock_state_def twin_fail) (simp add: blk_twin_def)

lemma twin_upd:
  assumes "blk_twin d e"
  shows "blk_twin (d\<lparr>bd_backend := b\<rparr>) (e\<lparr>bd_backend := b\<rparr>)"
    "blk_twin (d\<lparr>bd_rate_limiter := l\<rparr>) (e\<lparr>bd_rate_limiter := l\<rparr>)"
    "vq_peeked q = [] \<Longrightarrow> blk_twin (d\<lparr>bd_processor := Some q\<rparr>) (e\<lparr>bd_processor := Some q\<rparr>)"
    "blk_twin (d\<lparr>bd_interrupt_status := i\<rparr>) (e\<lparr>bd_interrupt_status := i\<rparr>)"
    "blk_twin (d\<lparr>bd_irq_evt := j\<rparr>) (e\<lparr>bd_irq_evt := j\<rparr>)"
    "blk_twin (d\<lparr>bd_notify_count := n\<rparr>) (e\<lparr>bd_notify_count := n'\<rparr>)"
    "blk_twin (d\<lparr>bd_status_writes := n\<rparr>) (e\<lparr>bd_status_writes := n'\<rparr>)"
    "blk_twin (d\<lparr>bd_queues := qs\<rparr>) (e\<lparr>bd_queues := qs\<rparr>)"
  using assms by (simp_all add: blk_twin_def)

lemma twin_interrupt:
  "blk_twin d e \<Longrightarrow> rel_prod (=) blk_twin (blk_trigger_interrupt d) (blk_trigger_interrupt e)"
  by (simp add: blk_trigger_interrupt_def Let_def blk_twin_def fail_device_def)

lemma twin_rate:
  "blk_twin d e \<Longrightarrow> rel_prod (=) blk_twin (rate_limit_allows n d) (rate_limit_allows n e)"
  by (auto simp: rate_limit_allows_def blk_twin_def fail_device_def split: option.split prod.split)

section \<open>Passes\<close>

definition twin_runs :: "blk_run \<Rightarrow> blk_run \<Rightarrow> bool" where
  "twin_runs = rel_option (rel_prod blk_twin (=))"

lemma twin_runs_simps [simp]:
  "twin_runs None None" "twin_runs (Some (d, f)) (Some (e, g)) \<longleftrightarrow> blk_twin d e \<and> f = g"
  by (simp_all add: twin_runs_def)

lemma twin_admit:
  assumes "blk_twin d e"
    and "\<And>d' e'. blk_twin d' e' \<Longrightarrow> rel_prod (=) (rel_prod twin_runs (=)) (k d') (k' e')"
  shows "rel_prod (=) (rel_prod twin_runs (=)) (admit n d failed dm k) (admit n e failed dm k')"
  using twin_rate [OF assms(1), of n] assms(2)
  by (auto simp: admit_def twin_runs_def rel_prod_sel split: prod.splits sum.splits)

lemma twin_handler: "handlers_agree twin_runs (blk_handler G S pick) (blk_handler G S pick)"
proof -
  have "rel_prod (=) (rel_prod twin_runs (=)) (blk_handler G S pick s dm r w) (blk_handler G S pick t dm r w)"
    if run: "twin_runs s t" for s t dm r w
  proof (cases s)
    case None
    then show ?thesis using that by (simp add: twin_runs_def blk_handler_def)
  next
    case (Some x)
    then obtain d e failed where s: "s = Some (d, failed)" "t = Some (e, failed)" and tw: "blk_twin d e"
      using run by (cases x) (auto simp: twin_runs_def option_rel_Some1)
    have b: "bd_backend e' = bd_backend d'" if "blk_twin d' e'" for d' e' using that by (simp add: blk_twin_def)
    show ?thesis
      unfolding s blk_handler_def option.case prod.case Let_def
      by (auto split: option.split prod.split intro!: twin_admit [OF tw] simp: b twin_upd(1))
  qed
  then show ?thesis by (simp add: handlers_agree_def rel_prod_sel case_prod_beta)
qed

lemma descriptors_loop_peeked: "vq_peeked (pr_vq (snd (descriptors_loop G h i p))) = vq_peeked (pr_vq p)"
proof (induction p rule: loop_induct [where G = G and h = h and i = i])
  case (step p)
  have "case loop_step G h i p of
      Inl r \<Rightarrow> vq_peeked (pr_vq (snd r)) = vq_peeked (pr_vq p) | Inr p' \<Rightarrow> vq_peeked (pr_vq p') = vq_peeked (pr_vq p)"
    by (auto simp: loop_step_def Let_def use_chain_def reject_available_chain_def split: option.split prod.split)
  then show ?case
    using step.IH by (subst descriptors_loop_step) (auto split: sum.splits)
qed


text \<open>The outer loop: one run ends where the other does.\<close>

lemma outer_alike_forward:
  assumes "descriptors_outer G h p = Some p'" and agree: "handlers_agree R h k" and "alike R p q"
  shows "vq_peeked (pr_vq p') = vq_peeked (pr_vq p) \<and> (\<exists>q'. descriptors_outer G k q = Some q' \<and> alike R p' q')"
proof -
  have "G' = G \<longrightarrow> h' = h \<longrightarrow> (\<forall>q. alike R p q \<longrightarrow>
      vq_peeked (pr_vq y) = vq_peeked (pr_vq p) \<and> (\<exists>q'. descriptors_outer G k q = Some q' \<and> alike R y q'))"
    if "descriptors_outer G' h' p = Some y" for G' h' p y
    using that
  proof (induction rule: descriptors_outer.raw_induct [rotated, consumes 1, case_names step])
    case (step rec G' h' p y)
    show ?case
    proof (intro impI allI)
      fix q assume eq: "G' = G" "h' = h" and al: "alike R p q"
      have same: "pr_vq p = pr_vq q" "pr_dm p = pr_dm q" using al by (simp_all add: alike_def)
      show "vq_peeked (pr_vq y) = vq_peeked (pr_vq p) \<and> (\<exists>q'. descriptors_outer G k q = Some q' \<and> alike R y q')"
      proof (cases "read_avail_idx G (dm_mem (pr_dm q)) (vq_config (pr_vq q))")
        case None
        then show ?thesis using step(2) al eq same by (subst descriptors_outer.simps) simp
      next
        case (Some i)
        obtain stopped p1 where l: "descriptors_loop G h i p = (stopped, p1)" by fastforce
        obtain q1 where m: "descriptors_loop G k i q = (stopped, q1)" "alike R p1 q1"
          using descriptors_loop_alike [OF agree al, of G i] l by (cases "descriptors_loop G k i q") auto
        have pk: "vq_peeked (pr_vq p1) = vq_peeked (pr_vq p)" using descriptors_loop_peeked [of G h i p] l by simp
        define dm where "dm = publish_avail_event G (vq_last_avail (pr_vq q1)) (vq_config (pr_vq q1))
            (publish_used_idx G (pr_vq q1) (pr_dm q1))"
        have al3: "alike R (p1\<lparr>pr_dm := dm\<rparr>) (q1\<lparr>pr_dm := dm\<rparr>)" using m(2) by (simp add: alike_def)
        have ih: "vq_peeked (pr_vq y) = vq_peeked (pr_vq p) \<and>
            (\<exists>q'. descriptors_outer G k (q1\<lparr>pr_dm := dm\<rparr>) = Some q' \<and> alike R y q')"
          if "rec G h (p1\<lparr>pr_dm := dm\<rparr>) = Some y"
          using step(1) [OF that] al3 pk by simp
        have q1: "pr_vq p1 = pr_vq q1" "pr_dm p1 = pr_dm q1" "alike R (p1\<lparr>pr_dm := d\<rparr>) (q1\<lparr>pr_dm := d\<rparr>)" for d
          using m(2) by (simp_all add: alike_def)
        show ?thesis
          using step(2) m(1) pk q1 Some l eq same ih al3
          by (subst descriptors_outer.simps)
            (auto simp: Let_def dm_def [symmetric] split: if_splits option.splits)
      qed
    qed
  qed
  then show ?thesis using assms by blast
qed

lemma rel_option_bind:
  "rel_option R x y \<Longrightarrow> (\<And>a b. R a b \<Longrightarrow> rel_option Q (f a) (g b)) \<Longrightarrow> rel_option Q (Option.bind x f) (Option.bind y g)"
  by (cases x; cases y) auto

lemma handlers_agree_flip: "handlers_agree R h k \<Longrightarrow> handlers_agree (\<lambda>t s. R s t) k h"
  by (simp add: handlers_agree_def case_prod_beta)

lemma process_descriptors_alike:
  assumes agree: "handlers_agree R h k" and "R s t" and "vq_peeked q = []"
  shows "rel_option (\<lambda>x y. alike R x y \<and> vq_peeked (pr_vq x) = [])
    (process_queue_descriptors_dirty G h q s dm) (process_queue_descriptors_dirty G k q t dm)"
proof -
  define p p' where "p = \<lparr>pr_vq = q, pr_state = s, pr_dm = dm, pr_done = 0 :: nat\<rparr>"
    and "p' = \<lparr>pr_vq = q, pr_state = t, pr_dm = dm, pr_done = 0 :: nat\<rparr>"
  have al: "alike R p p'" "alike (\<lambda>t s. R s t) p' p" using assms(2) by (simp_all add: p_def p'_def alike_def)
  have "rel_option (\<lambda>x y. alike R x y \<and> vq_peeked (pr_vq x) = []) (descriptors_outer G h p) (descriptors_outer G k p')"
  proof (cases "descriptors_outer G h p")
    case None
    then have "descriptors_outer G k p' = None"
      using outer_alike_forward [OF _ handlers_agree_flip [OF agree] al(2)] by (metis not_None_eq)
    then show ?thesis using None by simp
  next
    case (Some x)
    then show ?thesis using outer_alike_forward [OF Some agree al(1)] assms(3) by (auto simp: p_def)
  qed
  then show ?thesis
    using al(1) assms(3) by (simp add: process_queue_descriptors_dirty_def Let_def p_def p'_def)
qed

definition twin_results ::
  "(mmio_error + unit) \<times> 'm dmem \<times> blk_dev \<Rightarrow> (mmio_error + unit) \<times> 'm dmem \<times> blk_dev \<Rightarrow> bool" where
  "twin_results = rel_prod (=) (rel_prod (=) blk_twin)"

lemma twin_results_simp [simp]: "twin_results (r, dm, d) (r', dm', e) \<longleftrightarrow> r = r' \<and> dm = dm' \<and> blk_twin d e"
  by (simp add: twin_results_def)

lemma twin_after_pass:
  assumes "alike twin_runs x y" and "vq_peeked (pr_vq x) = []"
  shows "rel_option twin_results (blk_after_pass G old dm x) (blk_after_pass G old dm y)"
proof (cases "pr_state x")
  case None
  then show ?thesis using assms by (auto simp: alike_def twin_runs_def blk_after_pass_def)
next
  case (Some a)
  then obtain d e failed where s: "pr_state x = Some (d, failed)" "pr_state y = Some (e, failed)" and tw: "blk_twin d e"
    using assms(1) by (cases a) (auto simp: alike_def twin_runs_def option_rel_Some1)
  have same: "pr_vq y = pr_vq x" "pr_dm y = pr_dm x" "pr_done y = pr_done x" using assms(1) by (simp_all add: alike_def)
  have hd: "bd_host_dirty e = bd_host_dirty d" using tw by (simp add: blk_twin_def)
  note tw1 = twin_upd(3) [OF tw assms(2)]
  show ?thesis
    using twin_interrupt [OF tw1] tw1 twin_failed [OF tw1]
    by (auto simp: blk_after_pass_def s same hd Let_def rel_prod_sel split: prod.splits sum.splits dest: twin_failed)
qed

lemma twin_process:
  assumes tw: "blk_twin d e"
  shows "rel_option twin_results (blk_process_queue G S pick dm d) (blk_process_queue G S pick dm e)"
proof -
  have regs: "bd_poisoned e = bd_poisoned d" "bd_guest_mem e = bd_guest_mem d" "bd_queues e = bd_queues d"
    "bd_backend e = bd_backend d" "blk_pass_memory e dm = blk_pass_memory d dm"
    using tw by (simp_all add: blk_twin_def blk_pass_memory_def)
  define vq where "vq q = blk_pass_processor (blk_queue_config q) d" for q
  have vq: "blk_pass_processor (blk_queue_config q) e = vq q" "vq_peeked (vq q) = []" for q
    using blk_twin_processor [OF tw] by (simp_all add: vq_def)
  note tw1 = twin_upd(3) [OF tw vq(2)]
  have pass: "rel_option twin_results
      (Option.bind (process_queue_descriptors_dirty G (blk_handler G S pick) (vq q) (Some (d\<lparr>bd_processor := Some (vq q)\<rparr>, False))
        (blk_pass_memory d dm)) (blk_after_pass G (vq_last_used (vq q)) dm))
      (Option.bind (process_queue_descriptors_dirty G (blk_handler G S pick) (vq q) (Some (e\<lparr>bd_processor := Some (vq q)\<rparr>, False))
        (blk_pass_memory d dm)) (blk_after_pass G (vq_last_used (vq q)) dm))" for q
    by (rule rel_option_bind [OF process_descriptors_alike [OF twin_handler _ vq(2)]])
      (simp_all add: tw1 twin_after_pass)
  show ?thesis
    unfolding blk_process_queue_def regs twin_failed [OF tw] vq vq_def [symmetric] Let_def
    by (cases "bd_queues d") (simp_all add: tw twin_fail [OF tw] twin_fail [OF tw1] tw1 pass)
qed

section \<open>Registers\<close>

lemma blk_twin_read:
  assumes tw: "blk_twin d e"
  shows "rel_prod (=) blk_twin (blk_mmio_read off d) (blk_mmio_read off e)"
proof -
  have regs: "bd_version e = bd_version d" "bd_device_id e = bd_device_id d" "bd_vendor_id e = bd_vendor_id d"
    "bd_host_features_sel e = bd_host_features_sel d" "bd_backend e = bd_backend d" "bd_status e = bd_status d"
    "bd_interrupt_status e = bd_interrupt_status d" "blk_read_config n e = blk_read_config n d" for n
    using tw by (simp_all add: blk_twin_def blk_read_config_def)
  have "bd_queue_sel e = bd_queue_sel d" "bd_queues e = bd_queues d" using tw by (simp_all add: blk_twin_def)
  then have sel: "rel_prod (=) blk_twin (blk_selected f d) (blk_selected f e)" for f
    by (simp add: blk_selected_def twin_lock [OF tw])
  show ?thesis
    unfolding blk_mmio_read_def regs by (simp add: sel tw twin_lock [OF tw])
qed

lemma twin_update_queue:
  assumes tw: "blk_twin d e"
  shows "blk_twin (blk_update_queue f d) (blk_update_queue f e)"
proof -
  have "bd_queue_sel e = bd_queue_sel d" "bd_queues e = bd_queues d" using tw by (simp_all add: blk_twin_def)
  then show ?thesis using twin_lock [OF tw, of L_queues] by (simp add: blk_update_queue_def Let_def twin_upd)
qed

lemma twin_reset: "blk_twin d e \<Longrightarrow> blk_twin (blk_reset d) (blk_reset e)"
  by (simp add: blk_reset_def blk_twin_def)

lemma twin_write_status: "blk_twin d e \<Longrightarrow> blk_twin (blk_write_status v d) (blk_write_status v e)"
  using twin_reset [OF twin_upd(7)] by (simp add: blk_write_status_def Let_def) (simp add: blk_twin_def)

lemma twin_plain_writes:
  assumes "blk_twin d e"
  shows "blk_twin (d\<lparr>bd_host_features_sel := v\<rparr>) (e\<lparr>bd_host_features_sel := v\<rparr>)"
    "blk_twin (d\<lparr>bd_guest_features_sel := v\<rparr>) (e\<lparr>bd_guest_features_sel := v\<rparr>)"
    "blk_twin (d\<lparr>bd_queue_sel := v\<rparr>) (e\<lparr>bd_queue_sel := v\<rparr>)"
    "blk_twin (blk_write_guest_features v d) (blk_write_guest_features v e)"
    "bd_interrupt_status e = bd_interrupt_status d"
  using assms by (simp_all add: blk_twin_def blk_write_guest_features_def)

lemma twin_write_register:
  assumes tw: "blk_twin d e"
  shows "blk_twin (blk_write_register off v d) (blk_write_register off v e)"
  unfolding blk_write_register_def twin_plain_writes(5) [OF tw]
  by (simp add: tw twin_write_status [OF tw] twin_update_queue [OF tw] twin_plain_writes(1-4) [OF tw] twin_upd(4) [OF tw])

lemma twin_write:
  assumes tw: "blk_twin d e"
  shows "rel_option twin_results (blk_mmio_write G S pick off v dm d) (blk_mmio_write G S pick off v dm e)"
proof (cases "is_failed d \<and> \<not> (off = R_STATUS \<and> v mod 2 ^ 32 = 0)")
  case True
  then show ?thesis by (simp add: blk_mmio_write_def Let_def twin_failed [OF tw] tw)
next
  case False
  then show ?thesis
    unfolding blk_mmio_write_def twin_failed [OF tw] Let_def
    by (simp only: if_False) (simp add: twin_write_register [OF tw] twin_process [OF twin_upd(6) [OF tw]])
qed

lemma twin_accesses:
  "blk_twin d e \<Longrightarrow> rel_option (rel_prod (=) (rel_prod (=) blk_twin))
     (blk_accesses G S pick as dm d) (blk_accesses G S pick as dm e)"
proof (induction as arbitrary: dm d e)
  case (Cons a as)
  show ?case
  proof (cases a)
    case (BlkRead off)
    obtain v d' e' where r: "blk_mmio_read off d = (v, d')" "blk_mmio_read off e = (v, e')" "blk_twin d' e'"
      using blk_twin_read [OF Cons.prems, of off] by (cases "blk_mmio_read off d"; cases "blk_mmio_read off e") auto
    show ?thesis using Cons.IH [OF r(3), of dm] by (auto simp: BlkRead r(1,2) option.rel_map rel_prod_sel elim!: option.rel_mono_strong)
  next
    case (BlkWrite off v)
    show ?thesis
      unfolding BlkWrite blk_accesses.simps blk_access.case
    proof (rule rel_option_bind [OF twin_write [OF Cons.prems]])
      fix x y :: "(mmio_error + unit) \<times> 'a dmem \<times> blk_dev" assume "twin_results x y"
      then obtain r dm' d' e' where xy: "x = (r, dm', d')" "y = (r, dm', e')" "blk_twin d' e'"
        by (cases x; cases y) auto
      then show "rel_option (rel_prod (=) (rel_prod (=) blk_twin))
          (case x of (r, dm', d') \<Rightarrow> map_option (apfst ((#) (case r of Inl e \<Rightarrow> Err e | Inr _ \<Rightarrow> Ok 0))) (blk_accesses G S pick as dm' d'))
          (case y of (r, dm', d') \<Rightarrow> map_option (apfst ((#) (case r of Inl e \<Rightarrow> Err e | Inr _ \<Rightarrow> Ok 0))) (blk_accesses G S pick as dm' d'))"
        using Cons.IH [OF xy(3), of dm'] by (auto simp: option.rel_map rel_prod_sel elim!: option.rel_mono_strong)
    qed
  next
    case (DriverStore addr bytes)
    then show ?thesis using Cons by simp
  qed
qed simp

section \<open>Saving and restoring\<close>

text \<open>What the two devices need in common: everything that is not saved but the counters.\<close>

definition wired_like :: "blk_dev \<Rightarrow> blk_dev \<Rightarrow> bool" where
  "wired_like e d \<longleftrightarrow> bd_irq e = bd_irq d \<and> bd_device_id e = bd_device_id d \<and> bd_vendor_id e = bd_vendor_id d \<and>
     bd_version e = bd_version d \<and> bd_backend e = bd_backend d \<and> bd_guest_mem e = bd_guest_mem d \<and>
     bd_host_dirty e = bd_host_dirty d \<and> bd_rate_limiter e = bd_rate_limiter d \<and> bd_irq_evt e = bd_irq_evt d \<and>
     bd_poisoned e = bd_poisoned d"

lemma restore_blk_twin:
  assumes "blk_snapshot_state d = (Ok st, d')" and "wired_like e d" and "blk_twin d d"
  shows "d' = d \<and> blk_twin d (blk_restore st e)"
proof -
  have "L_queues \<notin> bd_poisoned d" "L_processor \<notin> bd_poisoned d" using assms(1) by (auto simp: blk_snapshot_state_def split: if_splits)
  moreover have "rel_option blk_cursor (bd_processor d) (map_option (vq_from_state c) (map_option vq_save_state (bd_processor d)))" for c
    using assms(3) by (cases "bd_processor d") (auto simp: blk_twin_def blk_cursor_def vq_from_state_def vq_save_state_def)
  ultimately show ?thesis
    using assms(1,2)
    by (auto simp: blk_snapshot_state_def blk_restore_def lock_state_def blk_twin_def wired_like_def Let_def split: if_splits)
qed

section \<open>A failed device\<close>

definition resets :: "blk_access \<Rightarrow> bool" where
  "resets a \<longleftrightarrow> (\<exists>v. a = BlkWrite R_STATUS v \<and> v mod 2 ^ 32 = 0)"

primrec driver_stores :: "'m ram_ops \<Rightarrow> blk_access list \<Rightarrow> 'm \<Rightarrow> 'm" where
  "driver_stores G [] m = m"
| "driver_stores G (a # as) m =
     (case a of DriverStore addr bytes \<Rightarrow> driver_stores G as (snd (wr G m addr bytes)) | _ \<Rightarrow> driver_stores G as m)"

primrec write_answers :: "blk_access list \<Rightarrow> (mmio_error + u64) list \<Rightarrow> (mmio_error + u64) list" where
  "write_answers [] rs = []"
| "write_answers (a # as) rs =
     (case a of BlkRead _ \<Rightarrow> write_answers as (tl rs) | BlkWrite _ _ \<Rightarrow> List.hd rs # write_answers as (tl rs)
      | DriverStore _ _ \<Rightarrow> write_answers as rs)"

lemma failed_lock: "is_failed d \<Longrightarrow> is_failed (lock_state l d) \<and> bd_backend (lock_state l d) = bd_backend d"
  by (simp add: lock_state_def)

lemma failed_read:
  assumes "is_failed d" and "blk_mmio_read off d = (v, d')"
  shows "is_failed d' \<and> bd_backend d' = bd_backend d"
proof -
  have "is_failed (snd (blk_mmio_read off d)) \<and> bd_backend (snd (blk_mmio_read off d)) = bd_backend d"
    using failed_lock [OF assms(1)] assms(1) by (simp add: blk_mmio_read_def blk_selected_def)
  then show ?thesis using assms(2) by simp
qed

lemma failed_accesses:
  "is_failed d \<Longrightarrow> \<forall>a \<in> set as. \<not> resets a \<Longrightarrow>
   \<exists>rs d'. blk_accesses G S pick as dm d = Some (rs, dm\<lparr>dm_mem := driver_stores G as (dm_mem dm)\<rparr>, d') \<and>
     is_failed d' \<and> bd_backend d' = bd_backend d \<and> set (write_answers as rs) \<subseteq> {Err Device}"
proof (induction as arbitrary: dm d)
  case (Cons a as)
  have nr: "\<forall>a \<in> set as. \<not> resets a" "\<not> resets a" using Cons.prems by auto
  show ?case
  proof (cases a)
    case (BlkRead off)
    obtain v d1 where r: "blk_mmio_read off d = (v, d1)" by fastforce
    note f = failed_read [OF Cons.prems(1) r]
    show ?thesis using Cons.IH [OF conjunct1 [OF f] nr(1), of dm] f by (auto simp: BlkRead r)
  next
    case (BlkWrite off v)
    have "blk_mmio_write G S pick off v dm d = Some (Err Device, dm, d)"
      using Cons.prems(1) nr(2) by (auto simp: blk_mmio_write_def Let_def BlkWrite resets_def)
    then show ?thesis using Cons.IH [OF Cons.prems(1) nr(1), of dm] by (auto simp: BlkWrite)
  next
    case (DriverStore addr bytes)
    then show ?thesis using Cons.IH [OF Cons.prems(1) nr(1), of "dm\<lparr>dm_mem := snd (wr G (dm_mem dm) addr bytes)\<rparr>"] by simp
  qed
qed simp

end
