(* ===== verification/BlkDeviceClaims.thy ===== *)
theory BlkDeviceClaims
  imports BlkDeviceRuns
begin

text \<open>
  The properties of the block device: a chain of the guest refines a request on a flat disk,
  an error of the device is final until the driver resets it, and a restored device cannot be
  told from the saved one.
\<close>

section \<open>Host buffers of packed RAM\<close>

definition packed_slices :: "packed_mem slice_ops" where
  "packed_slices =
     \<lparr>get_slices = (\<lambda>m a n. if n = 0 then Some []
        else map_option (\<lambda>off. [\<lparr>iv_base = off, iv_len = n\<rparr>]) (gpa_range_to_offset (pm_size m) a n)),
      host_addr = (\<lambda>m a. gpa_range_to_offset (pm_size m) a 1),
      host_bytes = packed_view,
      put_bytes = (\<lambda>hm m. m\<lparr>pm_resident := (\<lambda>_. True), pm_content := hm\<rparr>)\<rparr>"

lemma packed_put_view: "packed_view (put_bytes packed_slices hm m) = hm"
  by (rule ext) (simp add: packed_slices_def packed_view_def view_def packed_host_def)

lemma packed_put_size [simp]: "pm_size (put_bytes packed_slices hm m) = pm_size m"
  "pm_mapped (put_bytes packed_slices hm m) = pm_mapped m"
  by (simp_all add: packed_slices_def)

interpretation packed_io: guest_slices packed_ops packed_slices
proof unfold_locales
  fix m a n iov assume g: "get_slices packed_slices m a n = Some iov"
  show "map Some (iov_addrs iov) = map (host_addr packed_slices m) [a..<a + n]"
  proof (cases "n = 0")
    case False
    then obtain off where off: "gpa_range_to_offset (pm_size m) a n = Some off" "iov = [\<lparr>iv_base = off, iv_len = n\<rparr>]"
      using g by (auto simp: packed_slices_def)
    have "host_addr packed_slices m (a + i) = Some (off + i)" if "i < n" for i
      using gpa_range_sub [OF off(1), of "a + i" 1] that by (simp add: packed_slices_def)
    then show ?thesis by (intro nth_equalityI) (simp_all add: off(2) iov_addrs_def)
  qed (use g in \<open>simp add: packed_slices_def iov_addrs_def\<close>)
next
  fix m a n iov assume "get_slices packed_slices m a n = Some iov" "0 < n"
  then show "a + n < 2 ^ 64" by (auto simp: packed_slices_def gpa_range_to_offset_iff)
next
  fix m a b h assume "host_addr packed_slices m a = Some h" "host_addr packed_slices m b = Some h"
  then show "a = b" by (auto simp: packed_slices_def gpa_range_to_offset_iff intro: gpa_to_offset_inj)
next
  fix hm m show "chk packed_ops (put_bytes packed_slices hm m) = chk packed_ops m"
    by (intro ext) (simp add: packed_ops_def packed_check_def)
next
  fix m a h hm assume "host_addr packed_slices m a = Some h"
  then have "gpa_range_to_offset (pm_size m) a 1 = Some h" by (simp add: packed_slices_def)
  then show "rd packed_ops (put_bytes packed_slices hm m) a 1 = Some [hm h]"
    by (simp add: packed_ops_def packed_read_def packed_put_view)
next
  fix m a h assume "host_addr packed_slices m a = Some h"
  then show "rd packed_ops m a 1 = Some [host_bytes packed_slices m h]"
    by (simp add: packed_slices_def packed_ops_def packed_read_def)
next
  fix n m b hm assume same: "\<And>i h. i < n \<Longrightarrow> host_addr packed_slices m (b + i) = Some h \<Longrightarrow> hm h = host_bytes packed_slices m h"
  have "hm (off + i) = packed_view m (off + i)" if "gpa_range_to_offset (pm_size m) b n = Some off" "i < n" for off i
    using same [of i "off + i"] gpa_range_sub [OF that(1), of "b + i" 1] that(2) by (simp add: packed_slices_def)
  then show "rd packed_ops (put_bytes packed_slices hm m) b n = rd packed_ops m b n"
    by (cases "gpa_range_to_offset (pm_size m) b n") (simp_all add: packed_ops_def packed_read_def packed_put_view)
qed

section \<open>Chains\<close>

text \<open>
  C2: A chain the guest publishes is a request on a flat disk. Take any chain the walker
  accepts. Its readable bytes, taken in order through all of its buffers, are the request;
  the writable buffers but the last are the room for the reply and the last takes the status.
  The device first charges the rate limiter with what the request moves. A refused chain stays
  in the ring and changes nothing. An admitted one gets the status and reply of the flat disk
  and leaves the backend holding the disk after the request, for raw files and overlays, for
  copied replies and replies read straight into guest memory. The only guest bytes that change
  are the reply and the status, and the pages they lie in are marked dirty.
\<close>

theorem chain_refines_disk:
  assumes "guest_slices G S" and "walk_descriptor_chain G (dm_mem dm) cfg head = Some c"
    and "bd_backend d = Some be" and "backend_inv be"
  shows "\<exists>data. length data = sum_list (map snd (ch_readable c)) \<and>
    (\<forall>i < length data. rd G (dm_mem dm) (buf_addrs (ch_readable c) ! i) 1 = Some [data ! i]) \<and>
    chain_outcome G sz (ch_readable c) (ch_writable c) data be d failed dm
      (blk_handler G S pick (Some (d, failed)) dm (ch_readable c) (ch_writable c))"
proof -
  have ram: "guest_ram G" using assms(1) by (simp add: guest_slices_def)
  note bytes = walk_bytes [OF assms(2)]
  have bufs: "buffers_ok G (dm_mem dm) (ch_readable c)" "buffers_ok G (dm_mem dm) (ch_writable c)"
    using guest_ram.walk_buffers_ok [OF ram assms(2)] by simp_all
  obtain data where data: "read_descs G (dm_mem dm) (ch_readable c) = Some data"
    "length data = sum_list (map snd (ch_readable c))"
    "\<forall>i < length data. rd G (dm_mem dm) (buf_addrs (ch_readable c) ! i) 1 = Some [data ! i]"
    using guest_slices.read_descs_ok [OF assms(1) bufs(1)] bytes by auto
  have "room_of (ch_writable c) < 2 ^ 64"
    using guest_slices.room_le [OF assms(1), of "ch_writable c"] bytes by (simp add: MAX_CHAIN_BYTES_def)
  then show ?thesis
    using guest_slices.blk_handler_served [OF assms(1) bufs(2) _ assms(4,3) data(1)] data(2,3) by blast
qed

text \<open>A ring whose chain asks for the serial number: header, twenty bytes of room and the status.\<close>

definition id_bytes :: "nat \<Rightarrow> byte" where
  "id_bytes i =
     (if i = 0x1001 then 0x40 else if i = 0x1008 then 16 else if i = 0x100c then 1 else if i = 0x100e then 1
      else if i = 0x1011 then 0x60 else if i = 0x1018 then 20 else if i = 0x101c then 3 else if i = 0x101e then 2
      else if i = 0x1021 then 0x50 else if i = 0x1028 then 1 else if i = 0x102c then 2
      else if i = 0x2002 then 1 else if i = 0x4000 then 8 else 0)"

definition id_ring :: packed_mem where
  "id_ring = \<lparr>pm_size = 0x10000, pm_resident = (\<lambda>_. True), pm_content = id_bytes, pm_mapped = (\<lambda>_. None)\<rparr>"

definition id_dm :: "packed_mem dmem" where
  "id_dm = \<lparr>dm_mem = id_ring, dm_dirty = Some {}\<rparr>"

lemma id_rd:
  assumes "0 < n" and "a + n \<le> 0x10000"
  shows "rd packed_ops id_ring a n = Some (map id_bytes [a..<a + n])"
proof -
  have "map (\<lambda>i. id_bytes (a + i)) [0..<n] = map id_bytes [a..<a + n]"
    by (rule nth_equalityI) simp_all
  then show ?thesis using assms
    by (simp add: packed_ops_def packed_read_def id_ring_def packed_view_def view_def packed_host_def
        gpa_range_to_offset_def gpa_to_offset_def checked_add_def checked_sub_def gap_defs)
qed

lemma id_byte: "a < 0x10000 \<Longrightarrow> rd packed_ops id_ring a 1 = Some [id_bytes a]"
  using id_rd [of 1 a] by simp

definition id_d0 :: desc where "id_d0 = \<lparr>d_addr = 0x4000, d_len = 16, d_flags = 1, d_next = 1\<rparr>"
definition id_d1 :: desc where "id_d1 = \<lparr>d_addr = 0x6000, d_len = 20, d_flags = 3, d_next = 2\<rparr>"
definition id_d2 :: desc where "id_d2 = \<lparr>d_addr = 0x5000, d_len = 1, d_flags = 2, d_next = 0\<rparr>"

lemma id_desc:
  "read_desc packed_ops id_ring 0x1000 = Some id_d0" "read_desc packed_ops id_ring 0x1010 = Some id_d1"
  "read_desc packed_ops id_ring 0x1020 = Some id_d2"
  by (simp_all add: read_desc_def decode_desc_def id_rd upt_rec_numeral id_bytes_def id_d0_def id_d1_def id_d2_def)

lemma id_good:
  "good_desc packed_ops id_ring ex_cfg 0 id_d0" "good_desc packed_ops id_ring ex_cfg 1 id_d1"
  "good_desc packed_ops id_ring ex_cfg 2 id_d2"
  using id_desc
  by (simp_all add: good_desc_def desc_addr_def ex_cfg_def checked_mul_def checked_add_def F_INDIRECT_def
      MAX_DESC_LEN_def guest_range_is_valid_def packed_ops_def packed_check_def id_ring_def
      gpa_range_to_offset_def gpa_to_offset_def checked_sub_def gap_defs id_d0_def id_d1_def id_d2_def)

lemma id_walk:
  "walk_descriptor_chain packed_ops id_ring ex_cfg 0 =
     Some \<lparr>ch_readable = [(0x4000, 16)], ch_writable = [(0x6000, 20), (0x5000, 1)], ch_len = 3\<rparr>"
proof -
  have "desc_path (good_desc packed_ops id_ring ex_cfg) 0 [(0, id_d0), (1, id_d1), (2, id_d2)]"
    using id_good by (auto intro!: desc_path.intros simp: id_d0_def id_d1_def id_d2_def F_NEXT_def)
  then have "walk_descriptor_chain packed_ops id_ring ex_cfg 0 = Some (chain_of [(0, id_d0), (1, id_d1), (2, id_d2)])"
    unfolding walk_chain_iff
    by (intro exI [of _ "[(0, id_d0), (1, id_d1), (2, id_d2)]"])
      (simp add: chain_bytes_of_def MAX_CHAIN_BYTES_def id_d0_def id_d1_def id_d2_def)
  then show ?thesis by (simp add: chain_of_def desc_buffer_def id_d0_def id_d1_def id_d2_def F_WRITE_def)
qed

lemma one_buffer: "i < n \<Longrightarrow> buf_addrs [(a, n)] ! i = a + i"
  by (simp add: buf_addrs_def)

lemma id_header: "blk_header_from_bytes (8 # replicate 15 0) = Some \<lparr>bh_type = 8, bh_reserved = 0, bh_sector = 0\<rparr>"
  by code_simp

lemma id_request: "chain_charge (8 # replicate 15 0) 20 = 20"
  "chain_request ro n (8 # replicate 15 0) 20 disk = (S_OK, take 20 blk_serial, disk)"
  by (simp_all only: chain_charge_def chain_request_def id_header option.case) (simp_all add: req_types)

lemma id_serial: "take 20 blk_serial = [0x76, 0x6d, 0x6d, 0x2d, 0x62, 0x6c, 0x6b, 0, 0, 0, 0, 0, 0, 0, 0, 0, 0, 0, 0, 0]"
  by (simp add: blk_serial_def numeral_eq_Suc)

lemma id_reply:
  "map_of (rev (zip (buf_addrs (data_bufs [(0x6000, 20), (0x5000, 1)])) (take 20 blk_serial) @
     status_store [(0x6000, 20), (0x5000, 1)] S_OK)) 0x6000 = Some 0x76"
  "map_of (rev (zip (buf_addrs (data_bufs [(0x6000, 20), (0x5000, 1)])) (take 20 blk_serial) @
     status_store [(0x6000, 20), (0x5000, 1)] S_OK)) 0x5000 = Some S_OK"
  by (simp_all add: buf_addrs_def data_bufs_def status_store_def id_serial)

theorem chain_refines_disk_witness:
  "\<exists>be be' dm'. open_cow ex_base [] = Ok be \<and>
     blk_handler packed_ops packed_slices (\<lambda>n. n) (Some (blk_new 5 be, False)) id_dm [(0x4000, 16)] [(0x6000, 20), (0x5000, 1)] =
       (Some 3, Some (blk_new 5 be', False), dm') \<and>
     backend_disk be' = ex_base \<and>
     rd packed_ops (dm_mem dm') 0x6000 1 = Some [0x76] \<and> rd packed_ops (dm_mem dm') 0x5000 1 = Some [S_OK]"
proof -
  obtain be where be: "open_cow ex_base [] = Ok be" "backend_inv be" "be_sectors be = 2"
    "\<not> be_read_only be" "backend_disk be = ex_base" by (rule ex_open)
  let ?r = "[(0x4000, 16)] :: buffer list" and ?w = "[(0x6000, 20), (0x5000, 1)] :: buffer list"
  have walk: "walk_descriptor_chain packed_ops (dm_mem id_dm) ex_cfg 0 =
      Some \<lparr>ch_readable = ?r, ch_writable = ?w, ch_len = 3\<rparr>" by (simp add: id_dm_def id_walk)
  have b: "bd_backend (blk_new 5 be) = Some be" by (simp add: blk_new_def)
  obtain data where len: "length data = 16"
    and rd: "\<forall>i < 16. rd packed_ops id_ring (buf_addrs ?r ! i) 1 = Some [data ! i]"
    and o: "chain_outcome packed_ops 0x10000 ?r ?w data be (blk_new 5 be) False id_dm
      (blk_handler packed_ops packed_slices (\<lambda>n. n) (Some (blk_new 5 be, False)) id_dm ?r ?w)"
    using chain_refines_disk [OF packed_io.guest_slices_axioms walk b be(2), of "0x10000" False "\<lambda>n. n"]
    by (auto simp: id_dm_def)
  have "data = 8 # replicate 15 0"
  proof (rule nth_equalityI)
    fix i assume i: "i < length data"
    then have "rd packed_ops id_ring (0x4000 + i) 1 = Some [data ! i]" using rd len by (simp add: one_buffer)
    then have "data ! i = id_bytes (0x4000 + i)" using i len id_byte [of "0x4000 + i"] by simp
    then show "data ! i = (8 # replicate 15 0) ! i" using i len by (cases i) (simp_all add: id_bytes_def)
  qed (simp add: len)
  moreover have "room_of ?w = 20" by (simp add: room_of_def data_bufs_def)
  ultimately obtain be' dm' where res:
    "blk_handler packed_ops packed_slices (\<lambda>n. n) (Some (blk_new 5 be, False)) id_dm ?r ?w =
       (Some 3, Some ((blk_new 5 be)\<lparr>bd_backend := Some be'\<rparr>, False), dm')" "backend_disk be' = ex_base"
    and st: "stores packed_ops id_ring (zip (buf_addrs (data_bufs ?w)) (take 20 blk_serial) @ status_store ?w S_OK) (dm_mem dm')"
    using o be(5) by (auto simp: chain_outcome_def rate_limit_allows_def blk_new_def id_request id_dm_def)
  have "rd packed_ops (dm_mem dm') 0x6000 1 = Some [0x76]" "rd packed_ops (dm_mem dm') 0x5000 1 = Some [S_OK]"
    using st [unfolded stores_def, THEN spec, of "0x6000"] st [unfolded stores_def, THEN spec, of "0x5000"]
    by (simp_all only: id_reply option.case)
  then show ?thesis using be(1) res by (auto simp: blk_new_def)
qed

section \<open>Failure\<close>

lemma pass_event_notify [simp]:
  "pass_event_mapped G m (d\<lparr>bd_notify_count := n\<rparr>) = pass_event_mapped G m d"
  "blk_backend_ok (d\<lparr>bd_notify_count := n\<rparr>) = blk_backend_ok d"
  by (simp_all add: pass_event_mapped_def blk_backend_ok_def blk_pass_processor_def split: list.split)

lemma write_error_failed:
  assumes "guest_slices G S" and "blk_backend_ok d" and "pass_event_mapped G (dm_mem dm) d"
    and "blk_mmio_write G S pick off v dm d = Some (Err e, dm', d')"
  shows "is_failed d'"
proof (cases "is_failed d \<and> \<not> (off = R_STATUS \<and> v mod 2 ^ 32 = 0)")
  case True
  then show ?thesis using assms(4) by (simp add: blk_mmio_write_def Let_def)
next
  case False
  define d1 where "d1 = d\<lparr>bd_notify_count := wrapping_add 64 (bd_notify_count d) 1\<rparr>"
  have "blk_process_queue G S pick dm d1 = Some (Err e, dm', d')"
    using assms(4) False unfolding blk_mmio_write_def Let_def d1_def by (simp only: if_False split: if_splits) simp_all
  then have "process_ok G 0 dm d1 (Err e, dm', d')"
    using guest_slices.blk_process_ok [OF assms(1)] assms(2,3) by (simp add: d1_def)
  then show ?thesis by (simp add: process_ok_def split: if_splits)
qed

lemma blk_reset_clears:
  assumes "is_failed d"
  shows "\<exists>r. blk_mmio_write G S pick R_STATUS 0 dm d = Some (Ok (), dm, r) \<and> \<not> is_failed r \<and> bd_poisoned r = {} \<and>
    bd_backend r = bd_backend d \<and> bd_rate_limiter r = bd_rate_limiter d \<and> bd_guest_mem r = bd_guest_mem d"
  by (simp add: blk_mmio_write_def blk_write_register_def blk_write_status_def blk_reset_def Let_def is_failed_def reg_defs)

text \<open>
  C11: An error of the block device is final until the driver resets it. Whenever a register
  write reports an error, whatever the driver then reads, writes or stores in its memory,
  short of writing 0 to the status register: every write is answered with an error, guest
  memory changes only by the driver's own stores and no page is marked, the disk stays as it
  was, and the device refuses to be saved. Resetting it then succeeds, repairs the poisoned
  locks, and keeps the disk and the rate limiter.
\<close>

theorem blk_error_final:
  assumes "guest_slices G S" and "blk_backend_ok d" and "pass_event_mapped G (dm_mem dm) d"
    and "blk_mmio_write G S pick off v dm d = Some (Err e, dm', d')" and "\<forall>a \<in> set as. \<not> resets a"
  shows "\<exists>rs d'' r. blk_accesses G S pick as dm' d' =
      Some (rs, dm'\<lparr>dm_mem := driver_stores G as (dm_mem dm')\<rparr>, d'') \<and>
    set (write_answers as rs) \<subseteq> {Err Device} \<and> bd_backend d'' = bd_backend d' \<and>
    blk_snapshot_state d'' = (Err (PersistUnavailable ''virtio-blk is failed and requires reset''), d'') \<and>
    blk_mmio_write G S pick R_STATUS 0 dm'' d'' = Some (Ok (), dm'', r) \<and> \<not> is_failed r \<and> bd_poisoned r = {} \<and>
    bd_backend r = bd_backend d' \<and> bd_rate_limiter r = bd_rate_limiter d''"
proof -
  note f = write_error_failed [OF assms(1-4)]
  obtain rs d'' where run: "blk_accesses G S pick as dm' d' = Some (rs, dm'\<lparr>dm_mem := driver_stores G as (dm_mem dm')\<rparr>, d'')"
    "is_failed d''" "bd_backend d'' = bd_backend d'" "set (write_answers as rs) \<subseteq> {Err Device}"
    using failed_accesses [OF f assms(5), of G S pick dm'] by blast
  have "blk_snapshot_state d'' = (Err (PersistUnavailable ''virtio-blk is failed and requires reset''), d'')"
    using run(2) by (simp add: blk_snapshot_state_def)
  then show ?thesis
    using run blk_reset_clears [OF run(2), of G S pick dm''] by metis
qed

text \<open>A device whose queue lock was poisoned by a panic.\<close>

definition ex_poisoned :: "backend \<Rightarrow> blk_dev" where
  "ex_poisoned be = (blk_set_guest_memory (blk_new 5 be))\<lparr>bd_poisoned := {L_queues}\<rparr>"

theorem blk_error_final_witness:
  "\<exists>be d' rs d''. open_cow ex_base [] = Ok be \<and>
     blk_mmio_write packed_ops packed_slices (\<lambda>n. n) R_QUEUE_NOTIFY 0 id_dm (ex_poisoned be) = Some (Err Device, id_dm, d') \<and>
     blk_accesses packed_ops packed_slices (\<lambda>n. n) [BlkRead R_STATUS, BlkWrite R_QUEUE_READY 1, BlkWrite R_QUEUE_NOTIFY 0] id_dm d' =
       Some (rs, id_dm, d'') \<and> bd_backend d'' = Some be"
proof -
  obtain be where be: "open_cow ex_base [] = Ok be" "backend_inv be" by (rule ex_open)
  have d: "blk_backend_ok (ex_poisoned be)" "pass_event_mapped packed_ops (dm_mem id_dm) (ex_poisoned be)"
    using be(2) by (simp_all add: ex_poisoned_def blk_backend_ok_def blk_set_guest_memory_def blk_new_def lock_state_def
        pass_event_mapped_def event_mapped_def blk_pass_processor_def set_event_idx_def)
  have w: "blk_mmio_write packed_ops packed_slices (\<lambda>n. n) R_QUEUE_NOTIFY 0 id_dm (ex_poisoned be) = Some (Err Device, id_dm,
      fail_device ((ex_poisoned be)\<lparr>bd_notify_count := 1\<rparr>))"
    by (simp add: ex_poisoned_def blk_mmio_write_def blk_process_queue_def blk_set_guest_memory_def blk_new_def lock_state_def
        reg_defs is_failed_def Let_def wrapping_add_def)
  have nr: "\<forall>a \<in> set [BlkRead R_STATUS, BlkWrite R_QUEUE_READY 1, BlkWrite R_QUEUE_NOTIFY 0]. \<not> resets a"
    by (simp add: resets_def reg_defs)
  have "bd_backend (fail_device ((ex_poisoned be)\<lparr>bd_notify_count := 1\<rparr>)) = Some be"
    by (simp add: ex_poisoned_def blk_set_guest_memory_def blk_new_def lock_state_def)
  then show ?thesis
    using blk_error_final [OF packed_io.guest_slices_axioms d w nr, of id_dm] be(1) w by (auto simp: id_dm_def)
qed

section \<open>Restoring\<close>

text \<open>
  C7: A restored block device cannot be told from the one that was saved. Take a device that
  never processed its queue, drive it through any history, save it, and restore the state
  into any device with the same disk, limiter and wiring. Every later sequence of register
  accesses and driver stores gets the same answers, leaves guest memory, its dirty pages and
  the disk the same and raises the same interrupts; a panic or a pass that never ends is met
  by the one exactly when by the other.
\<close>

theorem restored_blk_agrees:
  assumes "bd_processor d0 = None" and "blk_accesses G S pick hist dm0 d0 = Some (out0, dm, d)"
    and "blk_snapshot_state d = (Ok st, d')" and "wired_like e d"
  shows "map_option (\<lambda>(out, dm, d). (out, dm, bd_backend d, bd_irq_evt d)) (blk_accesses G S pick as dm (blk_restore st e)) =
    map_option (\<lambda>(out, dm, d). (out, dm, bd_backend d, bd_irq_evt d)) (blk_accesses G S pick as dm d)"
proof -
  have "blk_twin d0 d0" using assms(1) by (simp add: blk_twin_def)
  then have "blk_twin d d" using twin_accesses [of d0 d0 G S pick hist dm0] assms(2) by simp
  then have "blk_twin d (blk_restore st e)" using restore_blk_twin [OF assms(3,4)] by blast
  note rel = twin_accesses [OF this, of G S pick as dm]
  then show ?thesis
    by (cases "blk_accesses G S pick as dm d"; cases "blk_accesses G S pick as dm (blk_restore st e)")
      (auto simp: rel_prod_sel blk_twin_def)
qed

text \<open>The driver gives the queue eight entries and enables it; the device is saved and restored.\<close>

definition ex_blk_setup :: "blk_access list" where
  "ex_blk_setup = [BlkWrite R_QUEUE_NUM 8, BlkWrite R_QUEUE_READY 1]"

definition ex_blk_ready :: "backend \<Rightarrow> blk_dev" where
  "ex_blk_ready be = (blk_new 5 be)\<lparr>bd_queues := [queue_state_default\<lparr>qs_size := 8, qs_ready := True\<rparr>]\<rparr>"

lemmas blk_eval = ex_blk_setup_def ex_blk_ready_def blk_new_def blk_mmio_write_def blk_write_register_def
  blk_mmio_read_def reg_defs blk_update_queue_def blk_selected_def lock_state_def set_size_def set_ready_def
  valid_size_def is_valid_queue_size_def MAX_QUEUE_SIZE_def queue_state_default_def is_failed_def Let_def

lemma ex_blk_setup_run:
  "blk_accesses packed_ops packed_slices (\<lambda>n. n) ex_blk_setup id_dm (blk_new 5 be) = Some ([Ok 0, Ok 0], id_dm, ex_blk_ready be)"
  by (simp add: blk_eval)

lemma ex_blk_later:
  "blk_accesses packed_ops packed_slices (\<lambda>n. n) [BlkRead R_QUEUE_NUM, BlkRead R_QUEUE_READY] id_dm (ex_blk_ready be) =
     Some ([Ok 8, Ok 1], id_dm, ex_blk_ready be)"
  by (simp add: blk_eval)

theorem restored_blk_agrees_witness:
  "\<exists>be st. open_cow ex_base [] = Ok be \<and> blk_snapshot_state (ex_blk_ready be) = (Ok st, ex_blk_ready be) \<and>
     map_option fst (blk_accesses packed_ops packed_slices (\<lambda>n. n) [BlkRead R_QUEUE_NUM, BlkRead R_QUEUE_READY] id_dm
       (blk_restore st (blk_new 5 be))) = Some [Ok 8, Ok 1]"
proof -
  obtain be where be: "open_cow ex_base [] = Ok be" by (rule ex_open)
  obtain st where st: "blk_snapshot_state (ex_blk_ready be) = (Ok st, ex_blk_ready be)"
    by (simp add: blk_snapshot_state_def blk_eval)
  have e: "bd_processor (blk_new 5 be) = None" "wired_like (blk_new 5 be) (ex_blk_ready be)"
    by (simp_all add: wired_like_def blk_new_def ex_blk_ready_def)
  have obs: "map_option fst r = map_option fst (map_option (\<lambda>(out, dm, d). (out, dm, bd_backend d, bd_irq_evt d)) r)"
    for r :: "((mmio_error + nat) list \<times> packed_mem dmem \<times> blk_dev) option" by (cases r) auto
  have "map_option fst (blk_accesses packed_ops packed_slices (\<lambda>n. n) [BlkRead R_QUEUE_NUM, BlkRead R_QUEUE_READY] id_dm
      (blk_restore st (blk_new 5 be))) = Some [Ok 8, Ok 1]"
    unfolding obs restored_blk_agrees [OF e(1) ex_blk_setup_run st e(2)] unfolding ex_blk_later by simp
  then show ?thesis using be st by blast
qed

end
