(* ===== verification/Checkpoint.thy ===== *)
theory Checkpoint
  imports BlkDeviceClaims SnapshotProofs
begin

text \<open>
  Incremental checkpoints of a running guest. Between checkpoints the devices, the control
  plane and the balloon change guest memory; each checkpoint drains the host-dirty bitmap and
  builds a diff from the packed image. The lemmas connect what the memory components promise
  about the bitmap with what replaying the diffs needs.
\<close>

section \<open>The memory of a machine\<close>

text \<open>
  The contracts of guest memory together: its bytes, its pages on the host and its host
  buffers. Storing through host buffers touches no mapping.
\<close>

locale machine_ram = host_mm G H + guest_slices G S
  for G :: "'m ram_ops" and H :: "'m host_ops" and S :: "'m slice_ops" +
  assumes put_mapped: "mapped H (put_bytes S hm m) = mapped H m \<and> ram_size H (put_bytes S hm m) = ram_size H m"

interpretation packed_machine: machine_ram packed_ops packed_host packed_slices
  by unfold_locales (simp add: packed_host_def)

section \<open>What a pass keeps\<close>

text \<open>A property of memory that every store keeps is kept by a queue pass.\<close>

definition store_stable :: "'m ram_ops \<Rightarrow> 'm slice_ops \<Rightarrow> ('m \<Rightarrow> bool) \<Rightarrow> bool" where
  "store_stable G S I \<longleftrightarrow> (\<forall>m a bs ok m'. I m \<longrightarrow> wr G m a bs = (ok, m') \<longrightarrow> I m') \<and> (\<forall>m hm. I m \<longrightarrow> I (put_bytes S hm m))"

lemma write_mem_stable:
  "store_stable G S I \<Longrightarrow> I (dm_mem dm) \<Longrightarrow> I (dm_mem (snd (write_mem G bs a dm)))"
  unfolding store_stable_def by (cases "wr G (dm_mem dm) a bs"; cases "fst (wr G (dm_mem dm) a bs)") (auto simp: write_mem_def)

lemma write_data_stable:
  assumes "store_stable G S I"
  shows "I (dm_mem dm) \<Longrightarrow> I (dm_mem (write_data G bufs data dm))"
proof (induction bufs arbitrary: data dm)
  case (Cons b bufs)
  obtain ok dm' where w: "write_mem G (take (min (snd b) (length data)) data) (fst b) dm = (ok, dm')" by fastforce
  have "I (dm_mem dm')" using write_mem_stable [OF assms Cons.prems] w by (metis snd_conv)
  then show ?case using Cons w by (cases ok) (simp_all add: Let_def)
qed simp

lemma write_status_stable:
  "store_stable G S I \<Longrightarrow> I (dm_mem dm) \<Longrightarrow> I (dm_mem (write_status G w st dm))"
  by (simp add: write_status_def write_mem_stable)

lemma read_into_stable:
  "store_stable G S I \<Longrightarrow> I (dm_mem dm) \<Longrightarrow> read_into_guest S pick be h w dm = ReadInto st dm' \<Longrightarrow> I (dm_mem dm')"
  by (auto simp: read_into_guest_def store_stable_def split: option.splits served_into.splits)

lemma serve_stable:
  assumes "store_stable G S I" and "I (dm_mem dm)" and "serve_blk G S pick h r w be dm = Some (st, be', dm')"
  shows "I (dm_mem dm')"
  using assms(3) read_into_stable [OF assms(1,2)] write_data_stable [OF assms(1,2)] assms(2)
  by (auto simp: serve_blk_def write_writable_data_def split: if_splits option.splits read_into.splits served.splits)

definition handler_stable :: "('m \<Rightarrow> bool) \<Rightarrow> ('s, 'm) desc_handler \<Rightarrow> bool" where
  "handler_stable I h \<longleftrightarrow> (\<forall>s dm r w. I (dm_mem dm) \<longrightarrow> I (dm_mem (snd (snd (h s dm r w)))))"

lemma admit_stable:
  assumes "I (dm_mem dm)" and "\<And>d'. I (dm_mem (snd (snd (k d'))))"
  shows "I (dm_mem (snd (snd (admit n d failed dm k))))"
  using assms by (auto simp: admit_def split: prod.split sum.split)

lemma handler_blk_stable:
  assumes st: "store_stable G S I"
  shows "handler_stable I (blk_handler G S pick)"
proof -
  have "I (dm_mem (snd (snd (blk_handler G S pick s dm r w))))" if I: "I (dm_mem dm)" for s dm r w
  proof -
    have serve: "I (dm_mem (snd (snd (case Option.bind x (\<lambda>be. serve_blk G S pick h data w be dm) of
        None \<Rightarrow> (None, None, dm)
      | Some (st, be, dm') \<Rightarrow> (Some l, Some (d'\<lparr>bd_backend := Some be\<rparr>, failed), write_status G w st dm')))))"
      for x h data l d' and failed :: bool
      using I by (auto split: option.split simp: bind_eq_Some_conv intro: write_status_stable [OF st] serve_stable [OF st I])
    show ?thesis
      unfolding blk_handler_def Let_def
      by (cases s) (auto simp: I write_status_stable [OF st I] serve intro!: admit_stable [where I = I, OF I] split: option.split)
  qed
  then show ?thesis by (simp add: handler_stable_def)
qed

lemma use_chain_stable: "store_stable G S I \<Longrightarrow> I (dm_mem (pr_dm p)) \<Longrightarrow> I (dm_mem (pr_dm (use_chain G head l a p)))"
  by (simp add: use_chain_def write_mem_stable)

lemma loop_stable:
  assumes st: "store_stable G S I" and h: "handler_stable I h"
  shows "I (dm_mem (pr_dm p)) \<Longrightarrow> I (dm_mem (pr_dm (snd (descriptors_loop G h i p))))"
proof (induction p rule: loop_induct [where G = G and h = h and i = i])
  case (step p)
  have hd: "I (dm_mem dm)" if "h (pr_state p) (pr_dm p) r w = (x, s, dm)" for r w x s dm
    using h step.prems that unfolding handler_stable_def by (metis snd_conv)
  have "case loop_step G h i p of Inl r \<Rightarrow> I (dm_mem (pr_dm (snd r))) | Inr p' \<Rightarrow> I (dm_mem (pr_dm p'))"
    using step.prems
    by (auto simp: loop_step_def Let_def reject_available_chain_def
        split: option.split prod.split intro!: use_chain_stable [OF st] dest!: hd)
  then show ?case
    using step.IH by (subst descriptors_loop_step) (auto split: sum.splits)
qed

lemma publish_stable:
  assumes "store_stable G S I" and "I (dm_mem dm)"
  shows "I (dm_mem (publish_used_idx G q dm))" and "I (dm_mem (publish_avail_event G seen cfg dm))"
  using assms write_mem_stable [OF assms]
  by (auto simp: publish_used_idx_def publish_avail_event_def write_u16_def split: option.split)

lemma outer_stable:
  assumes "descriptors_outer G h p = Some p'" and st: "store_stable G S I" and h: "handler_stable I h" and "I (dm_mem (pr_dm p))"
  shows "I (dm_mem (pr_dm p'))"
proof -
  have "G' = G \<longrightarrow> h' = h \<longrightarrow> I (dm_mem (pr_dm p)) \<longrightarrow> I (dm_mem (pr_dm y))"
    if "descriptors_outer G' h' p = Some y" for G' h' p y
    using that
  proof (induction rule: descriptors_outer.raw_induct [rotated, consumes 1, case_names step])
    case (step rec G' h' p y)
    show ?case
    proof (intro impI)
      assume eq: "G' = G" "h' = h" and I: "I (dm_mem (pr_dm p))"
      have l: "I (dm_mem (pr_dm p1))" if "descriptors_loop G h i p = (stopped, p1)" for i stopped p1
        using loop_stable [OF st h I, of i] that by simp
      have ih: "I (dm_mem (pr_dm y))" if "rec G h x = Some y" "I (dm_mem (pr_dm x))" for x
        using step(1) [OF that(1)] that(2) by simp
      show "I (dm_mem (pr_dm y))"
        using step(2) I unfolding eq
        by (auto simp: Let_def split: option.splits prod.splits if_splits dest!: l intro!: publish_stable [OF st])
          (auto intro!: ih publish_stable [OF st])
    qed
  qed
  then show ?thesis using assms by blast
qed

lemma after_pass_memory: "blk_after_pass G old dm p = Some (r, dm', d') \<Longrightarrow> dm_mem dm' = dm_mem (pr_dm p)"
  by (cases "pr_state p") (auto simp: blk_after_pass_def Let_def case_prod_beta split: sum.splits if_splits)

lemma process_stable:
  assumes st: "store_stable G S I" and I: "I (dm_mem dm)" and res: "blk_process_queue G S pick dm d = Some (r, dm', d')"
  shows "I (dm_mem dm')"
proof -
  have pass: "I (dm_mem dm')"
    if "process_queue_descriptors_dirty G (blk_handler G S pick) q s (blk_pass_memory d dm) = Some p"
      and "blk_after_pass G old dm p = Some (r, dm', d')" for q s p old
  proof -
    have I': "I (dm_mem (blk_pass_memory d dm))" using I by (simp add: blk_pass_memory_def)
    have "I (dm_mem (pr_dm p))"
      using that(1) I' outer_stable [OF _ st handler_blk_stable [OF st], where p' = p]
      by (auto simp: process_queue_descriptors_dirty_def Let_def split: if_splits)
    then show ?thesis using after_pass_memory [OF that(2)] by simp
  qed
  show ?thesis
    using res I
    by (auto simp: blk_process_queue_def Let_def bind_eq_Some_conv split: if_splits list.splits intro: pass)
qed

section \<open>Images\<close>

text \<open>The packed image that a snapshot stores.\<close>

definition ram_image :: "'m host_ops \<Rightarrow> 'm guest_memory \<Rightarrow> byte list" where
  "ram_image H gm = map (view H (gm_mem gm)) [0..<gm_size gm]"

text \<open>Every byte of the image that changed lies in a page the bitmap holds.\<close>

definition changes_dirty :: "'m host_ops \<Rightarrow> byte list \<Rightarrow> 'm guest_memory \<Rightarrow> bool" where
  "changes_dirty H img gm \<longleftrightarrow> length img = gm_size gm \<and>
     (\<forall>i < gm_size gm. view H (gm_mem gm) i \<noteq> img ! i \<longrightarrow> i div PAGE_SIZE \<in> gm_dirty gm)"

definition checkpointable :: "'m host_ops \<Rightarrow> 'm guest_memory \<Rightarrow> bool" where
  "checkpointable H gm \<longleftrightarrow> gm_inv H gm \<and> gm_lazy gm = None \<and> gm_size gm \<le> MAX_DIFF_APPLY_BYTES"

text \<open>A step that keeps the bitmap complete.\<close>

definition complete_step :: "'m host_ops \<Rightarrow> 'm guest_memory \<Rightarrow> 'm guest_memory \<Rightarrow> bool" where
  "complete_step H gm gm' \<longleftrightarrow> checkpointable H gm' \<and> gm_size gm' = gm_size gm \<and> gm_dirty gm \<subseteq> gm_dirty gm' \<and>
     (\<forall>i < gm_size gm. view H (gm_mem gm') i \<noteq> view H (gm_mem gm) i \<longrightarrow> i div PAGE_SIZE \<in> gm_dirty gm')"

lemma complete_step_changes:
  "complete_step H gm gm' \<Longrightarrow> changes_dirty H img gm \<Longrightarrow> changes_dirty H img gm'"
  unfolding complete_step_def changes_dirty_def by (metis subsetD)

section \<open>Activity between checkpoints\<close>

text \<open>
  Passes are those of block devices that the memory's bitmap is attached to. Where the driver
  negotiated events, its used ring is mapped with the event field.
\<close>

inductive activity :: "'m ram_ops \<Rightarrow> 'm host_ops \<Rightarrow> 'm slice_ops \<Rightarrow> 'm guest_memory \<Rightarrow> 'm guest_memory \<Rightarrow> bool"
  for G H S where
  device_pass: "activity G H S gm (gm\<lparr>gm_mem := dm_mem dm', gm_dirty := D\<rparr>)"
    if "blk_process_queue G S pick (tracked gm) d = Some (res, dm', d')" "dm_dirty dm' = Some D"
      "bd_host_dirty d" "blk_backend_ok d" "pass_event_mapped G (gm_mem gm) d"
| host_write: "activity G H S gm gm'"
    if "write_phys G gpa buf gm = (Ok (), gm')" "gpa_range_to_offset (gm_size gm) gpa (length buf) \<noteq> None"
| balloon_inflate: "activity G H S gm (bn_memory b')"
    if "bn_memory b = gm" "serve_request G H held QUEUE_INFLATE readable writable b = Some b'"

text \<open>A session: activity and checkpoints, with the diffs taken so far.\<close>

inductive session :: "'m ram_ops \<Rightarrow> 'm host_ops \<Rightarrow> 'm slice_ops \<Rightarrow> 'm guest_memory \<Rightarrow> checkpoint list \<Rightarrow> 'm guest_memory \<Rightarrow> bool"
  for G H S gm0 where
  begin_session: "session G H S gm0 [] gm0"
| active: "session G H S gm0 cs gm \<Longrightarrow> activity G H S gm gm' \<Longrightarrow> session G H S gm0 cs gm'"
| take_checkpoint: "session G H S gm0 cs gm \<Longrightarrow> drain_host_dirty gm = (taken, gm') \<Longrightarrow> set pfns = taken \<Longrightarrow>
    session G H S gm0 (cs @ [(ram_image H gm, pfns, st)]) gm'"

context host_mm
begin

lemma view_rd:
  assumes "gm_inv H gm" and "gpa_to_offset (gm_size gm) g = Some i" and "g + 1 < 2 ^ 64"
  shows "rd G (gm_mem gm) g 1 = Some [view H (gm_mem gm) i]"
  using assms rd_view [of g "gm_mem gm"] by (simp add: gm_inv_def)

lemma changed_view:
  assumes "gm_inv H gm" and "gm_inv H gm'" and "gm_size gm' = gm_size gm" and "i < gm_size gm"
    and "view H (gm_mem gm') i \<noteq> view H (gm_mem gm) i"
  obtains g where "gpa_to_offset (gm_size gm) g = Some i" "g + 1 < 2 ^ 64"
    "rd G (gm_mem gm') g 1 \<noteq> rd G (gm_mem gm) g 1"
proof -
  obtain g where g: "gpa_to_offset (gm_size gm) g = Some i" "g + 1 < 2 ^ 64"
    using offset_has_gpa [OF assms(4)] assms(1) by (auto simp: gm_inv_def)
  then show ?thesis
    using that view_rd [OF assms(1) g] view_rd [OF assms(2), of g i] assms(3,5) by simp
qed

lemma view_changed_page:
  assumes "gm_inv H gm" and "gm_inv H gm'" and "gm_size gm' = gm_size gm" and "i < gm_size gm"
    and "view H (gm_mem gm') i \<noteq> view H (gm_mem gm) i"
  shows "i div PAGE_SIZE \<in> changed_pages G (gm_size gm) (gm_mem gm) (gm_mem gm')"
proof -
  obtain g where "gpa_to_offset (gm_size gm) g = Some i" "rd G (gm_mem gm') g 1 \<noteq> rd G (gm_mem gm) g 1"
    by (rule changed_view [OF assms])
  then show ?thesis unfolding changed_pages_def by auto
qed

lemma write_complete:
  assumes cp: "checkpointable H gm" and w: "write_phys G gpa buf gm = (Ok (), gm')"
    and r: "gpa_range_to_offset (gm_size gm) gpa (length buf) \<noteq> None"
  shows "complete_step H gm gm'"
proof -
  obtain off where off: "gpa_range_to_offset (gm_size gm) gpa (length buf) = Some off" using r by blast
  have gm: "gm_inv H gm" using cp by (simp add: checkpointable_def)
  note c = write_phys_correct [OF gm w]
  have inv: "checkpointable H gm'" using cp c(1-3) by (simp add: checkpointable_def)
  have "i div PAGE_SIZE \<in> gm_dirty gm'"
    if i: "i < gm_size gm" "view H (gm_mem gm') i \<noteq> view H (gm_mem gm) i" for i
  proof -
    obtain g where g: "gpa_to_offset (gm_size gm) g = Some i" "rd G (gm_mem gm') g 1 \<noteq> rd G (gm_mem gm) g 1"
      using changed_view [OF gm c(1,2) i] by blast
    then have range: "gpa \<le> g \<and> g < gpa + length buf" using c(7) [of g 1] by linarith
    then have len: "0 < length buf" by linarith
    have "off + length buf < 2 ^ 64" using range_offset_bound [OF off len] gm by (simp add: gm_inv_def)
    then show ?thesis
      unfolding c(8) [OF refl off] using range_image [OF off len g(1)] range
      by (intro mark_range_covers) simp_all
  qed
  then show ?thesis using inv c(2,9) by (simp add: complete_step_def)
qed

lemma inflate_complete:
  assumes cp: "checkpointable H (bn_memory b)"
    and s: "serve_request G H held QUEUE_INFLATE r w b = Some b'"
  shows "complete_step H (bn_memory b) (bn_memory b')"
proof -
  have gm: "gm_inv H (bn_memory b)" "gm_lazy (bn_memory b) = None" using cp by (simp_all add: checkpointable_def)
  obtain D where rel: "releases G H D (bn_memory b) (bn_memory b')"
    using serve_inflate_releases [OF host_mm_axioms gm, of held r w] s releases_none [OF gm]
    by (auto split: option.splits)
  have inv: "checkpointable H (bn_memory b')" and sz: "gm_size (bn_memory b') = gm_size (bn_memory b)"
    using rel cp by (simp_all add: releases_def checkpointable_def)
  have "i div PAGE_SIZE \<in> gm_dirty (bn_memory b')"
    if i: "i < gm_size (bn_memory b)" "view H (gm_mem (bn_memory b')) i \<noteq> view H (gm_mem (bn_memory b)) i" for i
  proof -
    obtain g where g: "gpa_to_offset (gm_size (bn_memory b)) g = Some i" "g + 1 < 2 ^ 64"
      "rd G (gm_mem (bn_memory b')) g 1 \<noteq> rd G (gm_mem (bn_memory b)) g 1"
      using changed_view [OF gm(1) _ sz i] inv by (auto simp: checkpointable_def)
    then have "g div PAGE_SIZE \<in> D" using rel unfolding releases_def by metis
    then show ?thesis using rel g(1) unfolding releases_def by blast
  qed
  then show ?thesis using inv sz rel by (simp add: complete_step_def releases_def)
qed

end

context machine_ram
begin

lemma pass_complete:
  assumes cp: "checkpointable H gm" and p: "blk_process_queue G S pick (tracked gm) d = Some (res, dm', d')"
    and D: "dm_dirty dm' = Some D" and d: "bd_host_dirty d" "blk_backend_ok d" "pass_event_mapped G (gm_mem gm) d"
  shows "complete_step H gm (gm\<lparr>gm_mem := dm_mem dm', gm_dirty := D\<rparr>)"
proof -
  let ?gm = "gm\<lparr>gm_mem := dm_mem dm', gm_dirty := D\<rparr>"
  have "store_stable G S (\<lambda>m. mapped H m = mapped H (gm_mem gm) \<and> ram_size H m = ram_size H (gm_mem gm))"
    using wr_mapped put_mapped unfolding store_stable_def by metis
  from process_stable [OF this _ p]
  have "mapped H (dm_mem dm') = mapped H (gm_mem gm)" "ram_size H (dm_mem dm') = ram_size H (gm_mem gm)"
    by (simp_all add: tracked_def)
  then have inv: "checkpointable H ?gm" using cp by (simp add: checkpointable_def gm_inv_def)
  have "process_ok G (gm_size gm) (tracked gm) d (res, dm', d')"
    by (rule blk_process_ok [OF d(2) _ p]) (simp add: tracked_def d(3))
  then have "gm_dirty gm \<union> changed_pages G (gm_size gm) (gm_mem gm) (dm_mem dm') \<subseteq> D"
    using D d(1) by (simp add: process_ok_def dm_ok_def tracked_def)
  moreover have "i div PAGE_SIZE \<in> changed_pages G (gm_size gm) (gm_mem gm) (dm_mem dm')"
    if "i < gm_size gm" "view H (dm_mem dm') i \<noteq> view H (gm_mem gm) i" for i
    using view_changed_page [of gm ?gm i] that cp inv by (simp add: checkpointable_def)
  ultimately show ?thesis
    unfolding complete_step_def using inv by (simp add: subset_iff)
qed

lemma activity_complete: "activity G H S gm gm' \<Longrightarrow> checkpointable H gm \<Longrightarrow> complete_step H gm gm'"
  by (induction rule: activity.induct) (auto intro: pass_complete write_complete inflate_complete)

end

section \<open>Sessions\<close>

lemma tracked_chain_snoc:
  "tracked_chain m (cs @ [(mem, pfns, st)]) \<longleftrightarrow>
     tracked_chain m cs \<and> tracked_chain (last (m # map fst cs)) [(mem, pfns, st)]"
  by (induction m cs rule: tracked_chain.induct) auto

context machine_ram
begin

lemma session_tracked:
  assumes "session G H S gm0 cs gm" and "checkpointable H gm0"
  shows "checkpointable H gm \<and> gm_size gm = gm_size gm0 \<and> tracked_chain (ram_image H gm0) cs \<and>
    changes_dirty H (last (ram_image H gm0 # map fst cs)) gm"
  using assms
proof (induction rule: session.induct)
  case begin_session
  then show ?case by (simp add: changes_dirty_def ram_image_def)
next
  case (active cs gm gm')
  have gm: "checkpointable H gm" "gm_size gm = gm_size gm0" "tracked_chain (ram_image H gm0) cs"
    "changes_dirty H (last (ram_image H gm0 # map fst cs)) gm"
    using active by simp_all
  have step: "complete_step H gm gm'" by (rule activity_complete [OF active(2) gm(1)])
  show ?case
    using gm step complete_step_changes [OF step gm(4)] by (simp add: complete_step_def)
next
  case (take_checkpoint cs gm taken gm' pfns st)
  have gm: "checkpointable H gm" "gm_size gm = gm_size gm0" "tracked_chain (ram_image H gm0) cs"
    "changes_dirty H (last (ram_image H gm0 # map fst cs)) gm"
    using take_checkpoint by simp_all
  have gm': "gm' = gm\<lparr>gm_dirty := {}\<rparr>" "set pfns = gm_dirty gm"
    using take_checkpoint(2,3) by (auto simp: drain_host_dirty_def drain_def)
  have "tracked_chain (last (ram_image H gm0 # map fst cs)) [(ram_image H gm, pfns, st)]"
    using gm(4) gm'(2) by (auto simp: changes_dirty_def ram_image_def)
  moreover have "checkpointable H gm'" "changes_dirty H (ram_image H gm) gm'"
    using gm(1) by (simp_all add: gm'(1) checkpointable_def gm_inv_def changes_dirty_def ram_image_def)
  ultimately show ?case
    using gm gm'(1) by (simp add: tracked_chain_snoc)
qed

end

end
