(* ===== verification/Migration.thy ===== *)
theory Migration
  imports SnapshotProofs
begin

text \<open>
  Live migration (\<open>vmm-migration/src/state.rs\<close>, \<open>negotiation.rs\<close>): the phases of a
  migration, driven by the pre-copy decisions of \<open>vmm-snapshot/src/live.rs\<close>, and the
  bounds on the negotiation messages, checked while a message is parsed and once more on the
  parsed value. The parser of the wire format comes from the \<open>serde\<close> crate; the functions
  here take what it read, an error or a value.
\<close>

section \<open>Phases\<close>

datatype migration_phase =
  Negotiation | DestinationPrep | Precopy | StopAndCopy | Postcopy | Cutover | Done | Aborted

record migration_state =
  ms_phase :: migration_phase
  ms_round :: u32
  ms_dirty_bytes :: u64

definition migration_new :: migration_state where
  "migration_new = \<lparr>ms_phase = Negotiation, ms_round = 0, ms_dirty_bytes = 0\<rparr>"

definition advance :: "round_decision \<Rightarrow> migration_state \<Rightarrow> migration_state" where
  "advance decision st =
     (case ms_phase st of
        Negotiation \<Rightarrow> st\<lparr>ms_phase := DestinationPrep\<rparr>
      | DestinationPrep \<Rightarrow> st\<lparr>ms_phase := Precopy, ms_round := 1\<rparr>
      | Precopy \<Rightarrow>
          (case decision of
             ContinueRound rnd dirty_bytes \<Rightarrow>
               st\<lparr>ms_round := wrapping_add 32 rnd 1, ms_dirty_bytes := dirty_bytes\<rparr>
           | FinalStop rnd dirty_bytes \<Rightarrow>
               st\<lparr>ms_round := rnd, ms_dirty_bytes := dirty_bytes, ms_phase := StopAndCopy\<rparr>
           | Diverging rnd \<Rightarrow> st\<lparr>ms_round := rnd, ms_phase := Postcopy\<rparr>)
      | StopAndCopy \<Rightarrow> st\<lparr>ms_phase := Cutover\<rparr>
      | Postcopy \<Rightarrow> st\<lparr>ms_phase := Cutover\<rparr>
      | Cutover \<Rightarrow> st\<lparr>ms_phase := Done\<rparr>
      | Done \<Rightarrow> st
      | Aborted \<Rightarrow> st)"

section \<open>Negotiation messages\<close>

definition SUPPORTED_PROTOCOL_VERSION :: nat where "SUPPORTED_PROTOCOL_VERSION = 1"
definition MAX_VMM_VERSION_BYTES :: usize where "MAX_VMM_VERSION_BYTES = 64"
definition MAX_CPU_TEMPLATE_BYTES :: usize where "MAX_CPU_TEMPLATE_BYTES = 128"
definition MAX_VOLUME_IDS :: usize where "MAX_VOLUME_IDS = 64"
definition MAX_VOLUME_ID_BYTES :: usize where "MAX_VOLUME_ID_BYTES = 256"
definition MAX_REJECT_REASON_BYTES :: usize where "MAX_REJECT_REASON_BYTES = 1024"
definition MIN_RAM_MIB :: u64 where "MIN_RAM_MIB = 1"
definition MAX_RAM_MIB :: u64 where "MAX_RAM_MIB = 1024 * 1024"
definition MIN_VCPU_COUNT :: nat where "MIN_VCPU_COUNT = 1"
definition MAX_VCPU_COUNT :: nat where "MAX_VCPU_COUNT = 240"

record negotiation_request =
  nr_protocol_version :: nat
  nr_vmm_version :: string
  nr_cpu_template :: string
  nr_ram_mib :: u64
  nr_vcpu_count :: nat
  nr_device_model_hash :: "byte list"
  nr_volume_ids :: "string list"

datatype negotiation_response = Accept | Reject string

datatype negotiation_error =
  UnsupportedProtocolVersion nat | StringTooLong string usize usize | InvalidRamMiB u64
| InvalidVcpuCount nat | TooManyVolumeIds usize usize

definition validate_string_len :: "string \<Rightarrow> string \<Rightarrow> usize \<Rightarrow> negotiation_error + unit" where
  "validate_string_len field v max_len =
     (if max_len < length v then Err (StringTooLong field (length v) max_len) else Ok ())"

primrec validate_volume_ids :: "string list \<Rightarrow> negotiation_error + unit" where
  "validate_volume_ids [] = Ok ()"
| "validate_volume_ids (v # vs) =
     bindR (validate_string_len ''volume_id'' v MAX_VOLUME_ID_BYTES) (\<lambda>_. validate_volume_ids vs)"

definition validate_request :: "negotiation_request \<Rightarrow> negotiation_error + unit" where
  "validate_request r =
     (if nr_protocol_version r \<noteq> SUPPORTED_PROTOCOL_VERSION
      then Err (UnsupportedProtocolVersion (nr_protocol_version r))
      else
        bindR (validate_string_len ''vmm_version'' (nr_vmm_version r) MAX_VMM_VERSION_BYTES) (\<lambda>_.
        bindR (validate_string_len ''cpu_template'' (nr_cpu_template r) MAX_CPU_TEMPLATE_BYTES) (\<lambda>_.
        if \<not> (MIN_RAM_MIB \<le> nr_ram_mib r \<and> nr_ram_mib r \<le> MAX_RAM_MIB) then Err (InvalidRamMiB (nr_ram_mib r))
        else if \<not> (MIN_VCPU_COUNT \<le> nr_vcpu_count r \<and> nr_vcpu_count r \<le> MAX_VCPU_COUNT)
        then Err (InvalidVcpuCount (nr_vcpu_count r))
        else if MAX_VOLUME_IDS < length (nr_volume_ids r)
        then Err (TooManyVolumeIds (length (nr_volume_ids r)) MAX_VOLUME_IDS)
        else validate_volume_ids (nr_volume_ids r))))"

definition validate_response :: "negotiation_response \<Rightarrow> negotiation_error + unit" where
  "validate_response r =
     (case r of
        Accept \<Rightarrow> Ok ()
      | Reject reason \<Rightarrow> validate_string_len ''reject_reason'' reason MAX_REJECT_REASON_BYTES)"

section \<open>Checks while parsing\<close>

text \<open>An error is its message.\<close>

definition deserialize_protocol_version :: "string + nat \<Rightarrow> string + nat" where
  "deserialize_protocol_version raw =
     bindR raw (\<lambda>version.
     if version \<noteq> SUPPORTED_PROTOCOL_VERSION
     then Err (''unsupported protocol version '' @ show_nat version) else Ok version)"

definition deserialize_bounded_string :: "string + string \<Rightarrow> string \<Rightarrow> usize \<Rightarrow> string + string" where
  "deserialize_bounded_string raw field max_len =
     bindR raw (\<lambda>v.
     if max_len < length v
     then Err (field @ '' too long: '' @ show_nat (length v) @ '' > '' @ show_nat max_len) else Ok v)"

definition deserialize_vmm_version :: "string + string \<Rightarrow> string + string" where
  "deserialize_vmm_version raw = deserialize_bounded_string raw ''vmm_version'' MAX_VMM_VERSION_BYTES"

definition deserialize_cpu_template :: "string + string \<Rightarrow> string + string" where
  "deserialize_cpu_template raw = deserialize_bounded_string raw ''cpu_template'' MAX_CPU_TEMPLATE_BYTES"

definition deserialize_reject_reason :: "string + string \<Rightarrow> string + string" where
  "deserialize_reject_reason raw = deserialize_bounded_string raw ''reject_reason'' MAX_REJECT_REASON_BYTES"

definition deserialize_ram_mib :: "string + u64 \<Rightarrow> string + u64" where
  "deserialize_ram_mib raw =
     bindR raw (\<lambda>ram_mib.
     if \<not> (MIN_RAM_MIB \<le> ram_mib \<and> ram_mib \<le> MAX_RAM_MIB)
     then Err (''ram_mib out of range: '' @ show_nat ram_mib) else Ok ram_mib)"

definition deserialize_vcpu_count :: "string + nat \<Rightarrow> string + nat" where
  "deserialize_vcpu_count raw =
     bindR raw (\<lambda>vcpu_count.
     if \<not> (MIN_VCPU_COUNT \<le> vcpu_count \<and> vcpu_count \<le> MAX_VCPU_COUNT)
     then Err (''vcpu_count out of range: '' @ show_nat vcpu_count) else Ok vcpu_count)"

text \<open>The elements of the sequence as the parser delivers them, and the list built so far.\<close>

primrec visit_volume_ids :: "(string + string) list \<Rightarrow> string list \<Rightarrow> string + string list" where
  "visit_volume_ids [] volume_ids = Ok volume_ids"
| "visit_volume_ids (x # seq) volume_ids =
     bindR x (\<lambda>volume_id.
     if length volume_ids = MAX_VOLUME_IDS
     then Err (''too many volume IDs: more than '' @ show_nat MAX_VOLUME_IDS)
     else if MAX_VOLUME_ID_BYTES < length volume_id
     then Err (''volume_id too long: '' @ show_nat (length volume_id) @ '' > '' @ show_nat MAX_VOLUME_ID_BYTES)
     else visit_volume_ids seq (volume_ids @ [volume_id]))"

definition deserialize_volume_ids :: "usize option \<Rightarrow> (string + string) list \<Rightarrow> string + string list" where
  "deserialize_volume_ids size_hint seq =
     (case size_hint of
        Some hint \<Rightarrow>
          if MAX_VOLUME_IDS < hint
          then Err (''too many volume IDs: '' @ show_nat hint @ '' > '' @ show_nat MAX_VOLUME_IDS)
          else visit_volume_ids seq []
      | None \<Rightarrow> visit_volume_ids seq [])"

section \<open>Runs of a migration\<close>

text \<open>The phases a migration goes through when round \<open>i\<close> leaves \<open>dirty ! i\<close> bytes.\<close>

primrec phases :: "precopy_params \<Rightarrow> u64 list \<Rightarrow> migration_state \<Rightarrow> migration_phase list" where
  "phases params [] st = []"
| "phases params (d # ds) st =
     (let st' = advance (decide params (ms_round st) d) st in ms_phase st' # phases params ds st')"

lemma phases_done: "ms_phase st = Done \<Longrightarrow> phases params ds st = replicate (length ds) Done"
  by (induction ds arbitrary: st) (simp_all add: advance_def)

lemma phases_last:
  assumes "ms_phase st = StopAndCopy \<or> ms_phase st = Postcopy" and "2 \<le> length ds"
  shows "phases params ds st = Cutover # replicate (length ds - 1) Done"
proof -
  obtain a b ds' where ds: "ds = a # b # ds'" using assms(2) by (metis Suc_le_length_iff numeral_2_eq_2)
  show ?thesis using assms(1) by (auto simp: ds advance_def phases_done Let_def)
qed

text \<open>Pre-copy ends by a decision its parameters justify.\<close>

definition handover :: "precopy_params \<Rightarrow> nat \<Rightarrow> u64 \<Rightarrow> migration_phase \<Rightarrow> bool" where
  "handover params rnd dirty phase \<longleftrightarrow>
     (case decide params rnd dirty of
        FinalStop r d \<Rightarrow> phase = StopAndCopy \<and> r = rnd \<and> d = dirty
      | Diverging r \<Rightarrow> phase = Postcopy \<and> r = rnd
      | ContinueRound _ _ \<Rightarrow> False)"

lemma decide_round: "decide params rnd d = ContinueRound r e \<Longrightarrow> r = rnd \<and> e = d \<and> rnd < pp_max_rounds params"
  by (auto simp: decide_def split: if_splits)

lemma phases_precopy:
  assumes "ms_phase st = Precopy" and "pp_max_rounds params < 2 ^ 32"
    and "pp_max_rounds params - ms_round st + 3 \<le> length ds"
  shows "\<exists>k x. k \<le> pp_max_rounds params - ms_round st \<and>
    (\<forall>j < k. decide params (ms_round st + j) (ds ! j) = ContinueRound (ms_round st + j) (ds ! j)) \<and>
    handover params (ms_round st + k) (ds ! k) x \<and>
    phases params ds st = replicate k Precopy @ [x, Cutover] @ replicate (length ds - k - 2) Done"
  using assms
proof (induction ds arbitrary: st)
  case (Cons d ds)
  show ?case
  proof (cases "decide params (ms_round st) d")
    case (ContinueRound r e)
    note c = decide_round [OF ContinueRound]
    define st' where "st' = st\<lparr>ms_round := ms_round st + 1, ms_dirty_bytes := d\<rparr>"
    have st': "advance (decide params (ms_round st) d) st = st'"
      using Cons.prems(1,2) c ContinueRound by (simp add: advance_def st'_def wrapping_add_def)
    have "pp_max_rounds params - ms_round st' + 3 \<le> length ds" "ms_phase st' = Precopy"
      using Cons.prems(1,3) c by (simp_all add: st'_def)
    then obtain k x where k: "k \<le> pp_max_rounds params - ms_round st'"
      "\<forall>j < k. decide params (ms_round st' + j) (ds ! j) = ContinueRound (ms_round st' + j) (ds ! j)"
      "handover params (ms_round st' + k) (ds ! k) x"
      "phases params ds st' = replicate k Precopy @ [x, Cutover] @ replicate (length ds - k - 2) Done"
      using Cons.IH [OF _ Cons.prems(2)] by blast
    have "Suc k \<le> pp_max_rounds params - ms_round st"
      using k(1) conjunct2 [OF conjunct2 [OF c]] by (simp add: st'_def)
    moreover have "handover params (ms_round st + Suc k) ((d # ds) ! Suc k) x" using k(3) by (simp add: st'_def)
    moreover have "decide params (ms_round st + j) ((d # ds) ! j) = ContinueRound (ms_round st + j) ((d # ds) ! j)"
      if "j < Suc k" for j
      using k(2) that ContinueRound c by (cases j) (simp_all add: st'_def)
    moreover have "phases params (d # ds) st =
        replicate (Suc k) Precopy @ [x, Cutover] @ replicate (length (d # ds) - Suc k - 2) Done"
      using k(4) st' Cons.prems(1) by (simp add: Let_def st'_def)
    ultimately show ?thesis by blast
  next
    case (FinalStop r e)
    then have "r = ms_round st \<and> e = d" by (auto simp: decide_def split: if_splits)
    then show ?thesis
      using FinalStop Cons.prems by (intro exI [of _ 0] exI [of _ StopAndCopy])
        (simp add: advance_def phases_last handover_def Let_def)
  next
    case (Diverging r)
    then have "r = ms_round st" by (auto simp: decide_def split: if_splits)
    then show ?thesis
      using Diverging Cons.prems by (intro exI [of _ 0] exI [of _ Postcopy])
        (simp add: advance_def phases_last handover_def Let_def)
  qed
qed simp

section \<open>Acceptance\<close>

lemma validate_string_ok: "validate_string_len f v n = Ok u \<longleftrightarrow> length v \<le> n"
  by (auto simp: validate_string_len_def)

lemma validate_ids_ok: "validate_volume_ids vs = Ok u \<longleftrightarrow> (\<forall>v \<in> set vs. length v \<le> MAX_VOLUME_ID_BYTES)"
  by (induction vs) (auto simp: validate_string_ok bindR_Inr_iff)

lemma visit_ids_ok:
  "length acc \<le> MAX_VOLUME_IDS \<Longrightarrow> visit_volume_ids (map Inr vs) acc = Ok out \<longleftrightarrow>
     out = acc @ vs \<and> (\<forall>v \<in> set vs. length v \<le> MAX_VOLUME_ID_BYTES) \<and> length acc + length vs \<le> MAX_VOLUME_IDS"
proof (induction vs arbitrary: acc)
  case (Cons v vs)
  show ?case
  proof (cases "length acc = MAX_VOLUME_IDS \<or> MAX_VOLUME_ID_BYTES < length v")
    case True
    then show ?thesis by auto
  next
    case False
    then show ?thesis using Cons.IH [of "acc @ [v]"] Cons.prems by auto
  qed
qed auto

lemma deserialize_ids_ok:
  assumes "hint = None \<or> hint = Some (length vs)"
  shows "deserialize_volume_ids hint (map Inr vs) = Ok vs \<longleftrightarrow>
    length vs \<le> MAX_VOLUME_IDS \<and> (\<forall>v \<in> set vs. length v \<le> MAX_VOLUME_ID_BYTES)"
  using assms visit_ids_ok [of "[]" vs vs] by (auto simp: deserialize_volume_ids_def split: if_splits)

section \<open>Properties\<close>

text \<open>
  C21: A migration ends. Whatever each round leaves dirty, driving the state machine with the
  decisions of the pre-copy loop takes it from negotiation through destination preparation and
  at most \<open>max_rounds\<close> rounds of pre-copy, by a decision the parameters justify, to exactly
  one of stop-and-copy and post-copy, then to cutover and done, where it stays.
\<close>

theorem migration_completes:
  assumes "pp_max_rounds params < 2 ^ 32" and "pp_max_rounds params + 5 \<le> length ds"
  shows "\<exists>k x. k \<le> pp_max_rounds params - 1 \<and>
    (\<forall>j < k. decide params (j + 1) (ds ! (j + 2)) = ContinueRound (j + 1) (ds ! (j + 2))) \<and>
    handover params (k + 1) (ds ! (k + 2)) x \<and>
    phases params ds migration_new =
      [DestinationPrep] @ replicate (k + 1) Precopy @ [x, Cutover] @ replicate (length ds - k - 4) Done"
proof -
  obtain a b ds' where ds: "ds = a # b # ds'"
    using assms(2) by (cases ds; cases "tl ds") auto
  define st where "st = \<lparr>ms_phase = Precopy, ms_round = 1, ms_dirty_bytes = 0\<rparr>"
  have p: "phases params ds migration_new = [DestinationPrep, Precopy] @ phases params ds' st"
    by (simp add: ds migration_new_def advance_def st_def Let_def)
  have "pp_max_rounds params - ms_round st + 3 \<le> length ds'" "ms_phase st = Precopy"
    using assms(2) by (simp_all add: ds st_def)
  then obtain k x where k: "k \<le> pp_max_rounds params - ms_round st"
    "\<forall>j < k. decide params (ms_round st + j) (ds' ! j) = ContinueRound (ms_round st + j) (ds' ! j)"
    "handover params (ms_round st + k) (ds' ! k) x"
    "phases params ds' st = replicate k Precopy @ [x, Cutover] @ replicate (length ds' - k - 2) Done"
    using phases_precopy [OF _ assms(1)] by blast
  then show ?thesis using p by (intro exI [of _ k] exI [of _ x]) (simp add: ds st_def)
qed

text \<open>Sixteen mebibytes at a rate the link cannot keep up with: post-copy after two rounds.\<close>

definition ex_params :: precopy_params where
  "ex_params = \<lparr>pp_mem_bytes = 16777216, pp_dirty_rate_bps = 2000000, pp_copy_bandwidth_bps = 1000000,
     pp_target_downtime_us = 5000, pp_max_rounds = 3\<rparr>"

lemma ex_decide:
  "decide ex_params (Suc 0) 16777216 = ContinueRound (Suc 0) 16777216"
  "decide ex_params 2 16777216 = Diverging 2"
  by (simp_all add: decide_def ex_params_def)

theorem migration_completes_witness:
  "phases ex_params (replicate 8 16777216) migration_new =
     [DestinationPrep, Precopy, Precopy, Postcopy, Cutover, Done, Done, Done]"
proof -
  let ?ds = "replicate 8 (16777216 :: u64)"
  have "pp_max_rounds ex_params < 2 ^ 32" "pp_max_rounds ex_params + 5 \<le> length ?ds"
    by (simp_all add: ex_params_def)
  from migration_completes [OF this]
  obtain k x where k: "k \<le> 2" "\<forall>j < k. decide ex_params (j + 1) (?ds ! (j + 2)) = ContinueRound (j + 1) (?ds ! (j + 2))"
    "handover ex_params (k + 1) (?ds ! (k + 2)) x"
    "phases ex_params ?ds migration_new =
      [DestinationPrep] @ replicate (k + 1) Precopy @ [x, Cutover] @ replicate (8 - k - 4) Done"
    by (auto simp: ex_params_def)
  have ds: "?ds ! (k + 2) = 16777216" using k(1) by (intro nth_replicate) simp
  have h: "handover ex_params (k + 1) 16777216 x" using k(3) ds by metis
  have "k \<noteq> 0"
  proof
    assume "k = 0"
    then show False using h by (simp add: handover_def ex_decide)
  qed
  moreover have "k \<noteq> 2"
  proof
    assume "k = 2"
    then have "decide ex_params 2 16777216 = ContinueRound 2 16777216"
      using k(2) [rule_format, of 1] by (simp flip: numeral_2_eq_2)
    then show False by (simp add: ex_decide)
  qed
  ultimately have "k = 1" using k(1) by linarith
  moreover have "x = Postcopy" using h \<open>k = 1\<close> by (simp add: handover_def ex_decide flip: numeral_2_eq_2)
  moreover have "replicate 3 Done = [Done, Done, Done]" by (simp add: numeral_3_eq_3)
  ultimately show ?thesis using k(4) by simp
qed

text \<open>
  C38: The two checks of a negotiation request agree. Every field of a request passes the
  check made while parsing, and comes out unchanged, exactly when the parsed request passes
  \<open>validate\<close>, whether or not the format announces the number of volumes; the same holds of
  a response.
\<close>

theorem negotiation_checks_agree:
  assumes "hint = None \<or> hint = Some (length (nr_volume_ids r))"
  shows "(validate_request r = Ok () \<longleftrightarrow>
      deserialize_protocol_version (Ok (nr_protocol_version r)) = Ok (nr_protocol_version r) \<and>
      deserialize_vmm_version (Ok (nr_vmm_version r)) = Ok (nr_vmm_version r) \<and>
      deserialize_cpu_template (Ok (nr_cpu_template r)) = Ok (nr_cpu_template r) \<and>
      deserialize_ram_mib (Ok (nr_ram_mib r)) = Ok (nr_ram_mib r) \<and>
      deserialize_vcpu_count (Ok (nr_vcpu_count r)) = Ok (nr_vcpu_count r) \<and>
      deserialize_volume_ids hint (map Inr (nr_volume_ids r)) = Ok (nr_volume_ids r)) \<and>
    (validate_response (Reject reason) = Ok () \<longleftrightarrow> deserialize_reject_reason (Ok reason) = Ok reason)"
  by (auto simp: deserialize_ids_ok [OF assms] validate_request_def validate_response_def validate_ids_ok
      validate_string_ok deserialize_protocol_version_def deserialize_vmm_version_def deserialize_cpu_template_def
      deserialize_ram_mib_def deserialize_vcpu_count_def deserialize_bounded_string_def
      deserialize_reject_reason_def validate_string_len_def bindR_Inr_iff split: if_splits)

definition ex_request :: negotiation_request where
  "ex_request = \<lparr>nr_protocol_version = 1, nr_vmm_version = ''1.4'', nr_cpu_template = ''T2'', nr_ram_mib = 512,
     nr_vcpu_count = 2, nr_device_model_hash = replicate 32 0, nr_volume_ids = [''root'', ''data'']\<rparr>"

theorem negotiation_checks_agree_witness:
  "validate_request ex_request = Ok () \<and>
   deserialize_volume_ids (Some 2) (map Inr (nr_volume_ids ex_request)) = Ok (nr_volume_ids ex_request)"
proof -
  have "validate_request ex_request = Ok ()"
    by (simp add: validate_request_def ex_request_def validate_string_len_def SUPPORTED_PROTOCOL_VERSION_def
        MAX_VMM_VERSION_BYTES_def MAX_CPU_TEMPLATE_BYTES_def MIN_RAM_MIB_def MAX_RAM_MIB_def MIN_VCPU_COUNT_def
        MAX_VCPU_COUNT_def MAX_VOLUME_IDS_def MAX_VOLUME_ID_BYTES_def)
  then show ?thesis
    using negotiation_checks_agree [of "Some 2" ex_request] by (simp add: ex_request_def)
qed

end
