(* ===== verification/Spec2Isabelle.thy ===== *)
theory Spec2Isabelle
  imports LazyClaims Memory VQueueClaims BlkClaims SnapshotClaims Scheduler BalloonClaims Checkpoint BlkDeviceClaims Migration
begin

text \<open>
  Verification of the tarit virtual machine monitor and of the placement core of its
  orchestrator. Source files are named relative to \<open>src/vmm/crates\<close> unless they start with
  \<open>src/\<close>.

  \<^bold>\<open>The program.\<close> A VMM process runs one guest. Guest RAM is a packed host mapping that the
  guest sees at 0 and, beyond the MMIO aperture, at 4 GiB. Register accesses of the guest go
  over the MMIO bus to the devices; a device walks the descriptor chains the driver publishes
  in its virtqueue, reads and writes guest RAM and raises interrupts. Every host-side write to
  guest RAM is marked in a dirty bitmap. A checkpoint drains the bitmap and stores the dirty
  pages as a diff over an earlier image; a restored guest gets its pages on demand from a
  snapshot file through userfaultfd, while the balloon may give pages back. Migration drives
  pre-copy rounds of the same mechanism. The orchestrator admits VMs to hosts.

  \<^bold>\<open>Conventions.\<close> Rust's \<open>u32\<close>, \<open>u64\<close> and \<open>usize\<close> are \<open>nat\<close> with the checked,
  saturating and wrapping operators of \<open>Prelude\<close>; bytes and \<open>u16\<close> ring indices are words,
  which wrap; \<open>i128\<close> balances are \<open>int\<close> with explicit saturation. \<open>Result\<close> is a sum with
  the error on the left, a panic is its own value, and a call that may not return is
  \<open>partial_function (option)\<close>. A struct is a record passed and returned; a mutex is either
  atomic or, in the block device, may be poisoned. Code of other projects is a parameter
  whose documented behaviour is a locale: guest memory access (\<open>guest_ram\<close>), the host's
  paging calls (\<open>host_mm\<close>), userfaultfd (\<open>lazy_mm\<close>), host buffers of guest memory
  (\<open>guest_slices\<close>), and all of them for a machine (\<open>machine_ram\<close>). Each is interpreted on
  packed RAM, the layout that \<open>GuestMemory::new_with_flags\<close> builds, and the witnesses of the
  properties run on that instance. Definitions keep the names of the functions they
  translate, with a prefix where two devices have a function of the same name.

  \<^bold>\<open>Theories and sources.\<close>
  \<^item> \<open>Prelude\<close> and \<open>Stdlib\<close> hold the integer operators, results, little-endian bytes, sorted
    association lists for \<open>BTreeMap\<close>, and files.
  \<^item> \<open>GuestLayout\<close> is the address translation of \<open>vmm-memory-backend/src/backend.rs\<close> and the
    E820 map of \<open>vmm-loader/src/memmap.rs\<close>; the two agree, and translation has an inverse.
  \<^item> \<open>Dirty\<close> is \<open>dirty.rs\<close>: marking covers every page a guest range touches, on both sides
    of the aperture.
  \<^item> \<open>FileRanges\<close> is the record of private file mappings in \<open>backend.rs\<close>: forgetting and
    recording refine restriction and override of a map from bytes to file bytes.
  \<^item> \<open>HostMem\<close> states the contracts of guest memory; \<open>Memory\<close> is \<open>GuestMemory\<close>: reads,
    writes, mapping, discarding and the drain of the bitmap. Discarding zeroes exactly its
    range, and through every history the recorded runs hold their files' bytes.
  \<^item> \<open>LazyPages\<close>, \<open>LazyProofs\<close>, \<open>LazyFacts\<close> and \<open>LazyClaims\<close> are \<open>uffd_restore.rs\<close>:
    the fault handler's iteration with its event drain, chunk verification and retries, the
    discard path and the host-side reader. Under every interleaving of handler, guest stores
    and discards, discarded bytes stay zero, other bytes keep their content, only verified
    bytes are installed and no fault is lost.
  \<^item> \<open>VQueue\<close>, \<open>VQueueProofs\<close> and \<open>VQueueClaims\<close> are \<open>vmm-devices/src/virtio/vqueue.rs\<close> and
    \<open>queue.rs\<close>: the walker accepts exactly the finite paths in bounds, a pass tracks what it
    writes, makes progress and returns, and the notification window is exact.
  \<^item> \<open>Blk\<close>, \<open>BlkProofs\<close>, \<open>BlkWrites\<close> and \<open>BlkClaims\<close> are \<open>blk.rs\<close> and \<open>blk_backend.rs\<close>:
    raw files and copy-on-write overlays refine a flat disk, overlays reopen as they were, and
    vectored reads agree with copied ones for every sequence of short reads.
  \<^item> \<open>RateLimit\<close> is \<open>vmm-devices/src/rate_limit.rs\<close> and \<open>vmm-net/src/rate_limit.rs\<close>: what
    is granted is bounded by the rate, and a retried request is granted in time, which is
    shown to fail for the bucket of \<open>vmm-net\<close>.
  \<^item> \<open>Bus\<close> is \<open>vmm-devices/src/bus.rs\<close> and the loop of \<open>vmm-core/src/kvm.rs\<close> that fills
    it: disjoint ranges, exact dispatch.
  \<^item> \<open>BlkDevice\<close> is \<open>blk_transport.rs\<close>, the virtio-blk device over queue, backend and limiter.
    \<open>BlkDeviceProofs\<close> shows what serving a chain and a whole pass do to memory, disk and
    device, \<open>BlkDeviceRuns\<close> relates runs of devices that cannot be told apart and of failed
    ones, and \<open>BlkDeviceClaims\<close> states the results: a chain refines a request on a flat disk,
    errors are final until reset, and restoring is invisible.
  \<^item> \<open>Balloon\<close>, \<open>BalloonProofs\<close> and \<open>BalloonClaims\<close> are \<open>balloon.rs\<close> and \<open>regs.rs\<close>:
    inflation releases exactly pages the guest named, the device stays well formed whatever
    is written to it, and restoring is invisible.
  \<^item> \<open>Float64\<close> and \<open>Scheduler\<close> are \<open>src/orch/crates/taritd/src/scheduler.rs\<close>: the ledger
    accounts for every history, and placement, which compares double-precision densities, is
    sound and complete.
  \<^item> \<open>Snapshot\<close>, \<open>SnapshotProofs\<close> and \<open>SnapshotClaims\<close> are \<open>vmm-snapshot/src\<close>: the
    container and its checks, device state, diffs and their replay, pre-copy and clone plans.
    CRC32 and the postcard encoding are parameters.
  \<^item> \<open>Migration\<close> is \<open>vmm-migration/src/state.rs\<close> and \<open>negotiation.rs\<close>: a migration ends, and
    the two validators of a request agree.
  \<^item> \<open>Checkpoint\<close> and this theory compose them: block-device passes, control-plane writes and
    ballooning between checkpoints keep the bitmap complete, so replaying the diffs gives the
    last image.

  \<^bold>\<open>Termination and bounds.\<close> No definition uses fuel. The walker and the inner queue loops
  terminate by measures on ring indices and the chain length bound; the outer descriptor loop
  runs as long as the driver publishes and is a partial function, with a theorem that it
  returns and with theorems about its results that do not assume it; \<open>preadv\<close> may return any
  positive count, a parameter of the reads. Replay refuses images beyond 1 TiB, so the
  checkpoint theorem assumes RAM of at most that size.

  \<^bold>\<open>Assumptions that show limits of the code.\<close> The checkpoint theorem takes the used ring to
  be mapped with its event field when events are negotiated, since \<open>queue_is_usable\<close> does not
  check that field, and takes control-plane writes that succeed, since a failed one may have
  changed bytes it does not mark. The restored balloon agrees if no queue with a saved
  position is disabled.

  \<^bold>\<open>Not modelled.\<close> The network, vsock and entropy devices, whose data paths are host input
  and output and whose registers repeat those of the block device; worker threads and the
  serial port; KVM set-up, vCPU threads and the control loop of \<open>vmm-core\<close>; kernel loading and
  ACPI tables; the egress policy compiler and the host networking it drives, whose output has
  a meaning only through nftables; jailer and API; the migration transport; and of the
  orchestrator everything around the scheduler, which is asynchronous request handling,
  process supervision and SQL. Within modelled files: the path checks of private overlays,
  test-only fail points, log messages, and failure to allocate memory.
\<close>

text \<open>
  C1: Incremental checkpoints lose nothing. Start from guest memory in its initial state,
  let block devices process their queues, the control plane write and the balloon give up
  pages, in any order, and take checkpoints at any moments, each draining the host-dirty
  bitmap and building a diff from the packed image. The block devices have the bitmap attached
  and, where events are negotiated, a used ring mapped with its event field. Replaying the diffs over the first image
  succeeds and gives the image of the last checkpoint, and every byte that changed since then
  is in a page the bitmap holds.
\<close>

theorem checkpoints_replay:
  assumes "machine_ram G H S" and "gm_inv H gm0" and "gm_lazy gm0 = None" and "gm_size gm0 \<le> MAX_DIFF_APPLY_BYTES"
    and "session G H S gm0 cs gm"
  shows "try_apply_diffs (map diff_of cs) (ram_image H gm0) = Ok (last (ram_image H gm0 # map fst cs)) \<and>
    (\<forall>i < gm_size gm. view H (gm_mem gm) i \<noteq> last (ram_image H gm0 # map fst cs) ! i \<longrightarrow>
       i div PAGE_SIZE \<in> gm_dirty gm)"
proof -
  have "checkpointable H gm0" using assms(2-4) by (simp add: checkpointable_def)
  note s = machine_ram.session_tracked [OF assms(1,5) this]
  have "length (ram_image H gm0) \<le> MAX_DIFF_APPLY_BYTES" using assms(4) by (simp add: ram_image_def)
  then have "try_apply_diffs (map diff_of cs) (ram_image H gm0) = Ok (last (ram_image H gm0 # map fst cs))"
    using s by (intro apply_chain) simp_all
  then show ?thesis using s unfolding changes_dirty_def by blast
qed

text \<open>Two pages of RAM, a write by the control plane and a checkpoint.\<close>

definition ex_written :: "packed_mem guest_memory" where
  "ex_written = mark_host_dirty 100 2 (ex_gm\<lparr>gm_mem := packed_store ex_ram 100 [1, 2]\<rparr>)"

theorem checkpoints_replay_witness:
  "session packed_ops packed_host packed_slices ex_gm [(ram_image packed_host ex_written, [0], [])] (ex_written\<lparr>gm_dirty := {}\<rparr>) \<and>
   try_apply_diffs (map diff_of [(ram_image packed_host ex_written, [0], [])]) (ram_image packed_host ex_gm) =
     Ok (ram_image packed_host ex_written)"
proof -
  have r: "gpa_range_to_offset 8192 100 2 = Some 100"
    by (simp add: gpa_range_to_offset_def gpa_to_offset_def gap_defs checked_add_def checked_sub_def)
  have "write_phys packed_ops 100 [1, 2] ex_gm = (Ok (), ex_written)"
    by (simp add: write_phys_def packed_ops_def packed_write_def ex_gm_def ex_ram_def r ex_written_def
        numeral_2_eq_2 [symmetric])
  then have "activity packed_ops packed_host packed_slices ex_gm ex_written"
    by (rule activity.host_write) (simp add: ex_gm_def r numeral_2_eq_2 [symmetric])
  then have "session packed_ops packed_host packed_slices ex_gm [] ex_written"
    by (rule session.active [OF session.begin_session])
  moreover have "drain_host_dirty ex_written = ({0}, ex_written\<lparr>gm_dirty := {}\<rparr>)"
    by (auto simp: ex_written_def drain_host_dirty_def drain_def mark_host_dirty_def ex_gm_def mark_range_eq PAGE_SIZE_def)
  ultimately have s: "session packed_ops packed_host packed_slices ex_gm [(ram_image packed_host ex_written, [0], [])]
      (ex_written\<lparr>gm_dirty := {}\<rparr>)"
    using session.take_checkpoint [of packed_ops packed_host packed_slices ex_gm "[]" ex_written "{0}" _ "[0]" "[]"] by simp
  moreover have "gm_lazy ex_gm = None" "gm_size ex_gm \<le> MAX_DIFF_APPLY_BYTES"
    by (simp_all add: ex_gm_def MAX_DIFF_APPLY_BYTES_def)
  ultimately show ?thesis
    using checkpoints_replay [OF packed_machine.machine_ram_axioms ex_gm_inv _ _ s] by simp
qed

end
